(* ===== verification/Prelude.thy ===== *)
theory Prelude
  imports Main "HOL-Library.Word" "HOL-Library.AList"
begin

text \<open>
  Shared vocabulary of the development: the names of the machine types, the C++ standard
  library operations on strings and unordered maps that the sources call, generic facts about
  bit flags and byte lists, and the collections of definitions that proofs about event handlers
  unfold.

  A \<open>std::string\<close> is a list of \<open>char\<close> (8-bit values), a \<open>std::vector<uint8_t>\<close> is a list of
  \<open>8 word\<close>, \<open>size_t\<close> is a \<open>64 word\<close> where it can wrap and a \<open>nat\<close> where it counts bytes that are
  in memory. A \<open>std::unordered_map\<close> is an association list with distinct keys, listed in
  iteration order; C++ leaves that order open, and a new key goes to the end here.
\<close>

unbundle bit_operations_syntax

named_theorems handler_defs \<open>definitions of the event handlers of the FastCGI server\<close>
named_theorems program_defs \<open>definitions of the steps of the whole program\<close>

section \<open>Machine types\<close>

type_synonym u8 = "8 word"
type_synonym u16 = "16 word"
type_synonym u32 = "32 word"
type_synonym u64 = "64 word"
type_synonym size_t = "64 word"
type_synonym bytes = "8 word list"
type_synonym 'v umap = "(string \<times> 'v) list"

text \<open>The unsigned value of a character, \<open>(unsigned char)c\<close>.\<close>

abbreviation uchar :: "char \<Rightarrow> nat" where
  "uchar c \<equiv> of_char c"

definition byte_of_char :: "char \<Rightarrow> u8" where
  "byte_of_char c = of_nat (uchar c)"

definition char_of_byte :: "u8 \<Rightarrow> char" where
  "char_of_byte b = char_of (unat b)"

abbreviation bytes_of :: "string \<Rightarrow> bytes" where
  "bytes_of s \<equiv> map byte_of_char s"

abbreviation string_of :: "bytes \<Rightarrow> string" where
  "string_of bs \<equiv> map char_of_byte bs"

section \<open>Characters and bytes\<close>

lemma unat_byte_of_char [simp]: "unat (byte_of_char c) = uchar c"
  by (simp add: byte_of_char_def unat_of_nat)

lemma char_of_byte_of_char [simp]: "char_of_byte (byte_of_char c) = c"
  by (simp add: char_of_byte_def)

lemma byte_of_char_of_byte [simp]: "byte_of_char (char_of_byte b) = b"
proof -
  have "unat b < 256" using unsigned_less [of b, where ?'a = nat] by simp
  then show ?thesis by (simp add: byte_of_char_def char_of_byte_def)
qed

lemma string_of_bytes_of [simp]: "string_of (bytes_of s) = s"
  by (simp add: comp_def)

lemma string_of_bytes_of_comp [simp]: "map (char_of_byte \<circ> byte_of_char) s = s"
  by (simp add: comp_def)

lemma bytes_of_string_of [simp]: "bytes_of (string_of bs) = bs"
  by (simp add: comp_def)

lemma uchar_inj: "uchar c = uchar d \<longleftrightarrow> c = d"
  by (metis char_of_char)

section \<open>Standard library operations on strings\<close>

text \<open>
  \<open>s.find(c, pos)\<close> and \<open>s.find(pat, pos)\<close> return the first index from \<open>pos\<close> on, \<open>npos\<close> being
  \<open>None\<close>; \<open>s.substr(pos, n)\<close> cuts at the end of the string (its callers keep \<open>pos \<le> s.size()\<close>).
\<close>

fun find_idx :: "('a \<Rightarrow> bool) \<Rightarrow> 'a list \<Rightarrow> nat option" where
  "find_idx P [] = None"
| "find_idx P (x # xs) = (if P x then Some 0 else map_option Suc (find_idx P xs))"

definition str_find_char :: "string \<Rightarrow> char \<Rightarrow> nat \<Rightarrow> nat option" where
  "str_find_char s c pos = map_option ((+) pos) (find_idx (\<lambda>x. x = c) (drop pos s))"

definition starts_with :: "'a list \<Rightarrow> 'a list \<Rightarrow> bool" where
  "starts_with s pat \<longleftrightarrow> take (length pat) s = pat"

fun find_sub :: "'a list \<Rightarrow> 'a list \<Rightarrow> nat option" where
  "find_sub pat [] = (if pat = [] then Some 0 else None)"
| "find_sub pat (x # xs) =
     (if starts_with (x # xs) pat then Some 0 else map_option Suc (find_sub pat xs))"

definition str_find :: "string \<Rightarrow> string \<Rightarrow> nat \<Rightarrow> nat option" where
  "str_find s pat pos = (if pos \<le> length s then map_option ((+) pos) (find_sub pat (drop pos s)) else None)"

definition substr :: "'a list \<Rightarrow> nat \<Rightarrow> nat \<Rightarrow> 'a list" where
  "substr s pos n = take n (drop pos s)"

definition substr_from :: "'a list \<Rightarrow> nat \<Rightarrow> 'a list" where
  "substr_from s pos = drop pos s"

text \<open>\<open>std::tolower\<close>, \<open>std::toupper\<close> and \<open>std::isspace\<close> in the C locale.\<close>

definition tolower :: "char \<Rightarrow> char" where
  "tolower c = (if 65 \<le> uchar c \<and> uchar c \<le> 90 then char_of (uchar c + 32) else c)"

definition toupper :: "char \<Rightarrow> char" where
  "toupper c = (if 97 \<le> uchar c \<and> uchar c \<le> 122 then char_of (uchar c - 32) else c)"

definition isspace :: "char \<Rightarrow> bool" where
  "isspace c \<longleftrightarrow> uchar c = 32 \<or> (9 \<le> uchar c \<and> uchar c \<le> 13)"

definition isdigit :: "char \<Rightarrow> bool" where
  "isdigit c \<longleftrightarrow> 48 \<le> uchar c \<and> uchar c \<le> 57"

text \<open>Removing characters from both ends: the three trimming loops differ in the predicate only.\<close>

definition trim_by :: "('a \<Rightarrow> bool) \<Rightarrow> 'a list \<Rightarrow> 'a list" where
  "trim_by P s = rev (dropWhile P (rev (dropWhile P s)))"

lemma find_idx_None: "find_idx P xs = None \<longleftrightarrow> (\<forall>x\<in>set xs. \<not> P x)"
  by (induction xs) auto

lemma find_idx_Some:
  "find_idx P xs = Some i \<longleftrightarrow> i < length xs \<and> P (xs ! i) \<and> (\<forall>j<i. \<not> P (xs ! j))"
proof (induction xs arbitrary: i)
  case Nil
  then show ?case by simp
next
  case (Cons x xs)
  show ?case
  proof (cases i)
    case 0
    then show ?thesis by auto
  next
    case (Suc k)
    then show ?thesis using Cons.IH by (auto simp: less_Suc_eq_0_disj)
  qed
qed

lemma find_idx_takeWhile:
  "find_idx P xs = (if \<exists>x\<in>set xs. P x then Some (length (takeWhile (\<lambda>x. \<not> P x) xs)) else None)"
  by (induction xs) auto

lemma str_find_char_None: "str_find_char s c pos = None \<longleftrightarrow> c \<notin> set (drop pos s)"
  by (auto simp: str_find_char_def find_idx_None)

lemma str_find_char_Some:
  assumes "str_find_char s c pos = Some i"
  shows "pos \<le> i" "i < length s" "s ! i = c" "c \<notin> set (take (i - pos) (drop pos s))"
proof -
  from assms obtain j where j: "find_idx (\<lambda>x. x = c) (drop pos s) = Some j" and i: "i = pos + j"
    by (auto simp: str_find_char_def)
  from j have f: "j < length s - pos" "drop pos s ! j = c" "\<forall>k<j. drop pos s ! k \<noteq> c"
    by (auto simp: find_idx_Some)
  show "pos \<le> i" using i by simp
  show "i < length s" using i f(1) by simp
  show "s ! i = c" using i f by simp
  show "c \<notin> set (take (i - pos) (drop pos s))"
    using i f(1,3) by (auto simp: in_set_conv_nth)
qed

lemma starts_with_iff: "starts_with s pat \<longleftrightarrow> (\<exists>r. s = pat @ r)"
  by (metis append_take_drop_id starts_with_def append_eq_conv_conj)

lemma starts_with_append [simp]: "starts_with (pat @ r) pat"
  by (simp add: starts_with_def)

lemma find_sub_Some:
  "find_sub pat s = Some i \<Longrightarrow> i + length pat \<le> length s \<and> take (length pat) (drop i s) = pat"
proof (induction s arbitrary: i)
  case Nil
  then show ?case by (simp split: if_splits)
next
  case (Cons x xs)
  show ?case
  proof (cases "starts_with (x # xs) pat")
    case True
    with Cons.prems have "i = 0" by simp
    moreover from True obtain r where r: "x # xs = pat @ r" by (auto simp: starts_with_iff)
    moreover from r have "length (x # xs) = length pat + length r" by (metis length_append)
    ultimately show ?thesis by simp
  next
    case False
    with Cons show ?thesis by auto
  qed
qed

lemma str_find_Some:
  assumes "str_find s pat pos = Some i"
  shows "pos \<le> i" "i + length pat \<le> length s" "take (length pat) (drop i s) = pat"
  using assms find_sub_Some [of pat "drop pos s"]
  by (auto simp: str_find_def add.commute split: if_splits)

lemma str_find_bounds: "str_find s pat pos = Some i \<Longrightarrow> pos \<le> i \<and> i + length pat \<le> length s"
  by (simp add: str_find_Some)

section \<open>Unordered maps\<close>

text \<open>
  \<open>m.find(k)\<close> is \<open>map_of\<close>, \<open>m[k] = v\<close> is \<open>AList.update\<close>, \<open>m.erase(k)\<close> is \<open>AList.delete\<close>;
  \<open>m.emplace(k, v)\<close> keeps an entry that is there.
\<close>

definition umap_ok :: "('k \<times> 'v) list \<Rightarrow> bool" where
  "umap_ok m \<longleftrightarrow> distinct (map fst m)"

definition emplace :: "'k \<Rightarrow> 'v \<Rightarrow> ('k \<times> 'v) list \<Rightarrow> ('k \<times> 'v) list" where
  "emplace k v m = (if map_of m k = None then m @ [(k, v)] else m)"

lemma umap_ok_Nil [simp]: "umap_ok []"
  by (simp add: umap_ok_def)

lemma umap_ok_update [simp]: "umap_ok m \<Longrightarrow> umap_ok (AList.update k v m)"
  by (simp add: umap_ok_def distinct_update)

lemma umap_ok_delete [simp]: "umap_ok m \<Longrightarrow> umap_ok (AList.delete k m)"
  by (simp add: umap_ok_def distinct_delete)

lemma umap_ok_emplace [simp]: "umap_ok m \<Longrightarrow> umap_ok (emplace k v m)"
  by (auto simp: umap_ok_def emplace_def map_of_eq_None_iff)

lemma map_of_update [simp]: "map_of (AList.update k v m) = (map_of m)(k \<mapsto> v)"
  by (rule update_conv')

lemma update_twice [simp]: "AList.update k v (AList.update k w m) = AList.update k v m"
  by (induction m) auto

lemma update_fresh: "k \<notin> fst ` set m \<Longrightarrow> AList.update k v m = m @ [(k, v)]"
  by (induction m) auto

lemma emplace_fresh: "k \<notin> fst ` set m \<Longrightarrow> emplace k v m = m @ [(k, v)]"
  by (simp add: emplace_def map_of_eq_None_iff)

lemma set_update_le: "set (AList.update k v m) \<subseteq> insert (k, v) (set m)"
  by (induction m) auto

lemma set_delete_le: "set (AList.delete k m) \<subseteq> set m"
  by (induction m) auto

section \<open>Bit flags\<close>

text \<open>Flag constants of the sources have the form \<open>1ULL << n\<close>.\<close>

definition flag :: "nat \<Rightarrow> u64" where
  "flag n = push_bit n 1"

definition has_flag :: "u64 \<Rightarrow> u64 \<Rightarrow> bool" where
  "has_flag fs k \<longleftrightarrow> fs AND k \<noteq> 0"

lemma has_flag_flag: "has_flag fs (flag n) \<longleftrightarrow> bit fs n"
  by (simp add: has_flag_def flag_def push_bit_eq_mult and_exp_eq_0_iff_not_bit)

lemma has_flag_flag_flag [simp]: "has_flag (flag n) (flag m) \<longleftrightarrow> n = m \<and> n < 64"
  by (auto simp: has_flag_flag) (auto simp: flag_def bit_simps)

lemma has_flag_or [simp]: "has_flag (fs OR gs) k \<longleftrightarrow> has_flag fs k \<or> has_flag gs k"
proof -
  have "(fs OR gs) AND k = (fs AND k) OR (gs AND k)"
    by (rule bit_word_eqI) (auto simp: bit_simps)
  then show ?thesis by (simp add: has_flag_def or_eq_0_iff)
qed

lemma has_flag_0 [simp]: "\<not> has_flag 0 k"
  by (simp add: has_flag_def)

lemma unat_exp64 [simp]: "k < 64 \<Longrightarrow> unat (2 ^ k :: u64) = 2 ^ k"
proof -
  assume k: "k < 64"
  have "unat (push_bit k 1 :: u64) = take_bit 64 (push_bit k 1)"
    by (simp add: unsigned_push_bit_eq del: push_bit_of_1)
  moreover have "(2::nat) ^ k < 2 ^ 64" using k by (intro power_strict_increasing) simp_all
  ultimately show ?thesis using k by (simp add: take_bit_nat_eq_self)
qed

lemma unat_mask64 [simp]: "k < 64 \<Longrightarrow> unat (mask k :: u64) = 2 ^ k - 1"
proof -
  assume k: "k < 64"
  then have "(1 :: u64) \<le> 2 ^ k" by (simp add: word_le_nat_alt)
  then have "unat (2 ^ k - 1 :: u64) = unat (2 ^ k :: u64) - unat (1 :: u64)" by (rule unat_sub)
  with k show ?thesis by (simp add: mask_eq_exp_minus_1)
qed

lemma unat_less64 [simp]: "unat (x :: u64) < 18446744073709551616"
  using unsigned_less [of x, where ?'a = nat] by simp

lemma byte_bit_high [simp]: "8 \<le> n \<Longrightarrow> \<not> bit (x :: u8) n"
  using bit_imp_le_length [of x n] by auto

lemma byte_eqI:
  fixes x y :: u8
  assumes "bit x 0 = bit y 0" "bit x 1 = bit y 1" "bit x 2 = bit y 2" "bit x 3 = bit y 3"
    "bit x 4 = bit y 4" "bit x 5 = bit y 5" "bit x 6 = bit y 6" "bit x 7 = bit y 7"
  shows "x = y"
proof (rule bit_word_eqI)
  fix n assume "n < LENGTH(8)"
  then have "n = 0 \<or> n = 1 \<or> n = 2 \<or> n = 3 \<or> n = 4 \<or> n = 5 \<or> n = 6 \<or> n = 7" by auto
  with assms show "bit x n = bit y n" by blast
qed

section \<open>Network byte order\<close>

definition be16 :: "u16 \<Rightarrow> bytes" where
  "be16 w = [ucast (drop_bit 8 w), ucast w]"

definition be32 :: "u32 \<Rightarrow> bytes" where
  "be32 w = [ucast (drop_bit 24 w), ucast (drop_bit 16 w), ucast (drop_bit 8 w), ucast w]"

definition be64 :: "u64 \<Rightarrow> bytes" where
  "be64 w = map (\<lambda>k. ucast (drop_bit (8 * k) w)) [7, 6, 5, 4, 3, 2, 1, 0]"

definition rd16 :: "u8 \<Rightarrow> u8 \<Rightarrow> u16" where
  "rd16 a b = push_bit 8 (ucast a) OR ucast b"

lemma rd16_be16 [simp]: "rd16 (ucast (drop_bit 8 w)) (ucast w) = w"
  by (rule bit_word_eqI) (auto simp: rd16_def bit_simps)

lemma length_be [simp]: "length (be16 a) = 2" "length (be32 b) = 4" "length (be64 c) = 8"
  by (simp_all add: be16_def be32_def be64_def)

end
