(* ===== verification/Memory.thy ===== *)
theory Memory
  imports Prelude
begin

text \<open>
  memory.h and memory.cpp: the bump-pointer \<open>Arena\<close> (with the contents of the address space it
  writes, because \<open>alloc\<close> clears the block), the \<open>ArenaManager\<close> pool of a fixed number of arenas,
  and \<open>DynamicString\<close> of dynamic_variable.cpp, the one client that grows a block in place.
  Addresses and sizes are \<open>size_t\<close>, so that every sum of \<open>alloc\<close> wraps as it does in the code.
\<close>

section \<open>Arena\<close>

type_synonym mem = "u64 \<Rightarrow> u8"

record arena =
  a_data :: size_t
  a_capacity :: size_t
  a_offset :: size_t
  management_flag :: size_t

definition arena_reset :: "arena \<Rightarrow> arena" where
  "arena_reset a = a\<lparr>a_offset := 0\<rparr>"

text \<open>The constructor; \<open>p\<close> is what \<open>malloc(cap)\<close> returns, \<open>0\<close> for a null pointer.\<close>

definition arena_create :: "size_t \<Rightarrow> size_t \<Rightarrow> arena" where
  "arena_create p cap =
     (let a = \<lparr>a_data = p, a_capacity = 0, a_offset = 0, management_flag = 0\<rparr>
      in if p \<noteq> 0 then arena_reset (a\<lparr>a_capacity := cap\<rparr>) else a)"

definition memset_zero :: "size_t \<Rightarrow> size_t \<Rightarrow> mem \<Rightarrow> mem" where
  "memset_zero p n m = (\<lambda>x. if x - p < n then 0 else m x)"

definition align_up :: "size_t \<Rightarrow> size_t \<Rightarrow> size_t" where
  "align_up cur al = (cur + (al - 1)) AND NOT (al - 1)"

definition arena_alloc :: "size_t \<Rightarrow> size_t \<Rightarrow> arena \<times> mem \<Rightarrow> size_t option \<times> arena \<times> mem" where
  "arena_alloc sz al = (\<lambda>(a, m).
     let base_addr = a_data a;
         cur = base_addr + a_offset a;
         aligned = align_up cur al;
         new_off = aligned - base_addr + sz
     in if new_off > a_capacity a then (None, a, m)
        else (Some aligned, a\<lparr>a_offset := new_off\<rparr>, memset_zero aligned sz m))"

text \<open>\<open>alignof(std::max_align_t)\<close>, the default of the second argument.\<close>

definition max_align :: size_t where
  "max_align = 16"

text \<open>
  A well-formed arena: the block \<open>malloc\<close> returned does not wrap around the address space and
  the offset is inside it.
\<close>

definition arena_ok :: "arena \<Rightarrow> bool" where
  "arena_ok a \<longleftrightarrow> unat (a_data a) + unat (a_capacity a) < 2 ^ 64 \<and> a_offset a \<le> a_capacity a"

definition is_pow2 :: "size_t \<Rightarrow> bool" where
  "is_pow2 al \<longleftrightarrow> (\<exists>k<64. al = 2 ^ k)"

lemma align_up_eq:
  assumes "al = 2 ^ k" "k < 64" and "unat cur + unat al \<le> 2 ^ 64"
  shows "unat (align_up cur al) = (unat cur + 2 ^ k - 1) div 2 ^ k * 2 ^ k"
proof -
  have al1: "al - 1 = mask k" by (simp add: assms(1) mask_eq_exp_minus_1)
  have ual: "unat al = 2 ^ k" using assms(1,2) by simp
  have m: "unat (mask k :: size_t) = 2 ^ k - 1"
    using assms(2) by simp
  have s: "unat (cur + mask k) = unat cur + 2 ^ k - 1"
  proof -
    have "unat cur + (2 ^ k - 1) < 2 ^ 64" using assms(3) ual by simp
    then show ?thesis by (simp add: unat_word_ariths m)
  qed
  have "(cur + mask k) AND NOT (mask k) = push_bit k (drop_bit k (cur + mask k))"
    by (rule bit_word_eqI) (auto simp: bit_simps)
  then have "unat (align_up cur al) = unat (push_bit k (drop_bit k (cur + mask k)))"
    by (simp add: align_up_def al1)
  also have "\<dots> = (unat (cur + mask k) div 2 ^ k * 2 ^ k) mod 2 ^ 64"
    by (simp only: unsigned_push_bit_eq unat_drop_bit_eq)
      (simp add: drop_bit_eq_div push_bit_eq_mult take_bit_eq_mod)
  also have "\<dots> = unat (cur + mask k) div 2 ^ k * 2 ^ k"
  proof -
    have "unat (cur + mask k) div 2 ^ k * 2 ^ k \<le> unat (cur + mask k)" by simp
    also have "\<dots> < 2 ^ 64" using unsigned_less [of "cur + mask k", where ?'a = nat] by simp
    finally show ?thesis by simp
  qed
  finally show ?thesis by (simp add: s)
qed

lemma align_up_bounds:
  assumes "is_pow2 al" "unat cur + unat al \<le> 2 ^ 64"
  shows "unat cur \<le> unat (align_up cur al)" "unat (align_up cur al) < unat cur + unat al"
    "unat al dvd unat (align_up cur al)"
proof -
  from assms(1) obtain k where k: "al = 2 ^ k" "k < 64" by (auto simp: is_pow2_def)
  have eq: "unat (align_up cur al) = (unat cur + 2 ^ k - 1) div 2 ^ k * 2 ^ k"
    using k assms(2) by (rule align_up_eq)
  have ual: "unat al = 2 ^ k" using k by simp
  have "(unat cur + 2 ^ k - 1) mod 2 ^ k < (2 ^ k :: nat)" by simp
  moreover have "(unat cur + 2 ^ k - 1) div 2 ^ k * 2 ^ k + (unat cur + 2 ^ k - 1) mod 2 ^ k
      = unat cur + 2 ^ k - 1" by (rule div_mult_mod_eq)
  moreover have "(0::nat) < 2 ^ k" by simp
  ultimately show "unat cur \<le> unat (align_up cur al)"
    "unat (align_up cur al) < unat cur + unat al"
    unfolding eq ual by linarith+
  show "unat al dvd unat (align_up cur al)" by (simp add: eq ual)
qed

text \<open>The sums of \<open>alloc\<close> do not wrap when the request itself cannot leave the address space.\<close>

definition alloc_fits :: "arena \<Rightarrow> size_t \<Rightarrow> size_t \<Rightarrow> bool" where
  "alloc_fits a sz al \<longleftrightarrow> unat (a_data a) + unat (a_offset a) + unat al + unat sz \<le> 2 ^ 64"

lemma alloc_new_off:
  assumes "arena_ok a" "is_pow2 al" "alloc_fits a sz al"
  defines "p \<equiv> align_up (a_data a + a_offset a) al"
  shows "unat (a_data a + a_offset a) = unat (a_data a) + unat (a_offset a)"
    "unat (p - a_data a + sz) = unat p - unat (a_data a) + unat sz"
    "unat (a_data a) + unat (a_offset a) \<le> unat p"
    "unat p + unat sz \<le> 2 ^ 64"
    "unat al dvd unat p"
proof -
  have lt: "unat (a_data a) + unat (a_offset a) < 2 ^ 64"
    using assms(1) by (simp add: arena_ok_def word_le_nat_alt)
  then show cur: "unat (a_data a + a_offset a) = unat (a_data a) + unat (a_offset a)"
    by (simp add: unat_word_ariths)
  have fits: "unat (a_data a + a_offset a) + unat al \<le> 2 ^ 64"
    using assms(3) by (simp add: alloc_fits_def cur)
  note b = align_up_bounds [OF assms(2) fits, folded p_def]
  show ge: "unat (a_data a) + unat (a_offset a) \<le> unat p" using b(1) cur by simp
  show le: "unat p + unat sz \<le> 2 ^ 64" using b(2) cur assms(3) by (simp add: alloc_fits_def)
  show "unat al dvd unat p" by (rule b(3))
  have sub: "unat (p - a_data a) = unat p - unat (a_data a)"
    using ge by (intro unat_sub) (simp add: word_le_nat_alt)
  have "unat p - unat (a_data a) + unat sz < 2 ^ 64"
  proof (cases "unat (a_data a) = 0")
    case True
    have "0 < unat al" using assms(2) by (auto simp: is_pow2_def)
    with b(2) cur assms(3) True show ?thesis by (simp add: alloc_fits_def)
  next
    case False
    with le ge show ?thesis by simp
  qed
  then show "unat (p - a_data a + sz) = unat p - unat (a_data a) + unat sz"
    by (simp add: unat_word_ariths sub)
qed

lemma arena_alloc_Some:
  assumes ok: "arena_ok a" and al: "is_pow2 al" and fits: "alloc_fits a sz al"
    and alloc: "arena_alloc sz al (a, m) = (Some p, a', m')"
  shows "arena_ok a'" and "unat al dvd unat p"
    and "unat (a_data a) + unat (a_offset a) \<le> unat p"
    and "unat p + unat sz = unat (a_data a) + unat (a_offset a')"
    and "a_data a' = a_data a" and "a_capacity a' = a_capacity a"
    and "unat (a_offset a') \<le> unat (a_capacity a)"
    and "m' = memset_zero p sz m"
proof -
  note n = alloc_new_off [OF ok al fits]
  from alloc have p: "p = align_up (a_data a + a_offset a) al"
    and a': "a' = a\<lparr>a_offset := p - a_data a + sz\<rparr>"
    and cap: "\<not> p - a_data a + sz > a_capacity a" and m': "m' = memset_zero p sz m"
    by (auto simp: arena_alloc_def Let_def split: if_splits)
  have ge: "unat (a_data a) + unat (a_offset a) \<le> unat p" using n(3) p by simp
  show "unat p + unat sz = unat (a_data a) + unat (a_offset a')"
    using n(2) ge by (simp add: p a')
  show "arena_ok a'" using ok cap by (simp add: a' arena_ok_def)
  show "unat (a_offset a') \<le> unat (a_capacity a)" using cap unfolding not_less word_le_nat_alt a' by simp
  show "unat al dvd unat p" using n(5) p by simp
qed (use alloc alloc_new_off [OF ok al fits] in
      \<open>auto simp: arena_alloc_def Let_def split: if_splits\<close>)

lemma arena_alloc_None:
  assumes "arena_ok a" "is_pow2 al" "alloc_fits a sz al"
    and "arena_alloc sz al (a, m) = (None, a', m')"
  shows "a' = a" "m' = m"
    "unat (a_data a) + unat (a_capacity a) < unat (align_up (a_data a + a_offset a) al) + unat sz"
  using assms(4) alloc_new_off [OF assms(1-3)]
  by (auto simp: arena_alloc_def Let_def word_less_nat_alt split: if_splits)

text \<open>Clearing a block that does not wrap writes exactly its bytes.\<close>

lemma memset_zero_block:
  assumes "unat p + unat n \<le> 2 ^ 64"
  shows "memset_zero p n m x = (if unat p \<le> unat x \<and> unat x < unat p + unat n then 0 else m x)"
proof (cases "unat p \<le> unat x")
  case True
  then have "unat (x - p) = unat x - unat p" by (intro unat_sub) (simp add: word_le_nat_alt)
  with True show ?thesis by (auto simp: memset_zero_def word_less_nat_alt)
next
  case False
  then have "x < p" by (simp add: word_less_nat_alt)
  then have "unat (x - p) = unat x + 2 ^ 64 - unat p"
    by (simp add: unat_sub_if_size word_size word_le_nat_alt word_less_nat_alt)
  with False assms show ?thesis by (auto simp: memset_zero_def word_less_nat_alt)
qed

section \<open>Sequences of allocations\<close>

text \<open>A client that allocates blocks one after the other; refused requests leave no block.\<close>

fun arena_allocs :: "(size_t \<times> size_t) list \<Rightarrow> arena \<times> mem \<Rightarrow> (size_t \<times> size_t) list \<times> arena \<times> mem" where
  "arena_allocs [] am = ([], am)"
| "arena_allocs ((sz, al) # reqs) am =
     (case arena_alloc sz al am of
        (None, am') \<Rightarrow> arena_allocs reqs am'
      | (Some p, am') \<Rightarrow> (case arena_allocs reqs am' of (bs, am'') \<Rightarrow> ((p, sz) # bs, am'')))"

definition sane_requests :: "arena \<Rightarrow> (size_t \<times> size_t) list \<Rightarrow> bool" where
  "sane_requests a reqs \<longleftrightarrow>
     (\<forall>(sz, al)\<in>set reqs. is_pow2 al \<and>
        unat (a_data a) + unat (a_capacity a) + unat al + unat sz \<le> 2 ^ 64)"

lemma sane_fits: "arena_ok a \<Longrightarrow> sane_requests a ((sz, al) # reqs) \<Longrightarrow> is_pow2 al \<and> alloc_fits a sz al"
  by (auto simp: sane_requests_def alloc_fits_def arena_ok_def word_le_nat_alt)

lemma sane_requests_cong:
  "a_data a' = a_data a \<Longrightarrow> a_capacity a' = a_capacity a \<Longrightarrow>
   sane_requests a (r # reqs) \<Longrightarrow> sane_requests a' reqs"
  by (auto simp: sane_requests_def)

lemma arena_allocs_blocks:
  assumes "arena_allocs reqs (a, m) = (bs, a', m')" "arena_ok a" "sane_requests a reqs"
  shows "arena_ok a' \<and> a_data a' = a_data a \<and> a_capacity a' = a_capacity a \<and>
    unat (a_offset a) \<le> unat (a_offset a') \<and>
    (\<forall>(p, sz)\<in>set bs. unat (a_data a) + unat (a_offset a) \<le> unat p \<and>
       unat p + unat sz \<le> unat (a_data a) + unat (a_offset a')) \<and>
    sorted_wrt (\<lambda>(p, sz) (q, _). unat p + unat sz \<le> unat q) bs"
  using assms
proof (induction reqs arbitrary: a m bs)
  case Nil
  then show ?case by simp
next
  case (Cons r reqs)
  obtain sz al where r: "r = (sz, al)" by force
  obtain po a1 m1 where al1: "arena_alloc sz al (a, m) = (po, a1, m1)" by (metis prod_cases3)
  have pf: "is_pow2 al" "alloc_fits a sz al"
    using sane_fits [of a sz al reqs] Cons.prems(2,3) r by auto
  show ?case
  proof (cases po)
    case None
    with al1 have "a1 = a" using arena_alloc_None [OF Cons.prems(2) pf] by blast
    moreover from None al1 r Cons.prems(1) have "arena_allocs reqs (a1, m1) = (bs, a', m')" by simp
    moreover have "sane_requests a reqs" using Cons.prems(3) by (auto simp: sane_requests_def)
    ultimately show ?thesis using Cons.IH Cons.prems(2) by blast
  next
    case (Some p)
    note s = arena_alloc_Some [OF Cons.prems(2) pf al1 [unfolded Some]]
    from Some al1 r Cons.prems(1) obtain bs1 where
      rec: "arena_allocs reqs (a1, m1) = (bs1, a', m')" and bs: "bs = (p, sz) # bs1"
      by (auto split: prod.splits)
    have "sane_requests a1 reqs" using s(5,6) Cons.prems(3) by (rule sane_requests_cong)
    note IH = Cons.IH [OF rec s(1) this]
    have "unat (a_offset a) \<le> unat (a_offset a1)" using s(3,4) by linarith
    with IH s(3-6) show ?thesis by (fastforce simp: bs)
  qed
qed

section \<open>DynamicString\<close>

text \<open>
  dynamic_variable.cpp: a growable block inside an arena. \<open>reserve\<close> copies the old block's
  capacity to the new one; the old block is left to the arena.
\<close>

record dynamic_string =
  ds_data :: "size_t option"
  ds_length :: size_t
  ds_capacity :: size_t

definition memcpy :: "size_t \<Rightarrow> size_t \<Rightarrow> size_t \<Rightarrow> mem \<Rightarrow> mem" where
  "memcpy dst src n m = (\<lambda>x. if x - dst < n then m (src + (x - dst)) else m x)"

definition ds_reserve ::
  "size_t \<Rightarrow> dynamic_string \<times> arena \<times> mem \<Rightarrow> bool \<times> dynamic_string \<times> arena \<times> mem" where
  "ds_reserve sz = (\<lambda>(d, a, m).
     if sz > ds_capacity d then
       (case arena_alloc sz max_align (a, m) of
          (None, a', m') \<Rightarrow> (False, d, a', m')
        | (Some p, a', m') \<Rightarrow>
            (True, d\<lparr>ds_data := Some p, ds_capacity := sz\<rparr>, a',
             case ds_data d of None \<Rightarrow> m' | Some old \<Rightarrow> memcpy p old (ds_capacity d) m'))
     else (True, d, a, m))"

definition ds_create :: "arena \<times> mem \<Rightarrow> dynamic_string \<times> arena \<times> mem" where
  "ds_create am = snd (ds_reserve 32 (\<lparr>ds_data = None, ds_length = 0, ds_capacity = 0\<rparr>, am))"

text \<open>The string's block lies in the part of the arena that is handed out.\<close>

definition ds_ok :: "dynamic_string \<Rightarrow> arena \<Rightarrow> bool" where
  "ds_ok d a \<longleftrightarrow> (case ds_data d of
      None \<Rightarrow> ds_capacity d = 0
    | Some p \<Rightarrow> unat (a_data a) \<le> unat p \<and>
        unat p + unat (ds_capacity d) \<le> unat (a_data a) + unat (a_offset a))"

lemma max_align_pow2: "is_pow2 max_align"
  unfolding is_pow2_def max_align_def by (rule exI [of _ 4]) simp

lemma memcpy_dst:
  assumes "unat i < unat n" "unat dst + unat n \<le> 2 ^ 64"
  shows "memcpy dst src n m (dst + i) = m (src + i)"
  using assms by (simp add: memcpy_def word_less_nat_alt)

lemma ds_reserve_keeps:
  assumes "ds_reserve sz (d, a, m) = (True, d', a', m')"
    and "arena_ok a" "ds_ok d a" "alloc_fits a sz max_align"
  shows "arena_ok a' \<and> ds_ok d' a' \<and> sz \<le> ds_capacity d' \<and> ds_capacity d \<le> ds_capacity d' \<and>
    (\<forall>p q i. ds_data d = Some p \<longrightarrow> ds_data d' = Some q \<longrightarrow> i < ds_capacity d \<longrightarrow> m' (q + i) = m (p + i))"
proof (cases "sz > ds_capacity d")
  case False
  with assms show ?thesis by (auto simp: ds_reserve_def)
next
  case True
  with assms(1) obtain q m1 where al: "arena_alloc sz max_align (a, m) = (Some q, a', m1)"
    and d': "d' = d\<lparr>ds_data := Some q, ds_capacity := sz\<rparr>"
    and m': "m' = (case ds_data d of None \<Rightarrow> m1 | Some old \<Rightarrow> memcpy q old (ds_capacity d) m1)"
    by (auto simp: ds_reserve_def split: prod.splits option.splits)
  note s = arena_alloc_Some [OF assms(2) max_align_pow2 assms(4) al]
  have q64: "unat q + unat sz \<le> 2 ^ 64"
    using s(1,4,5,6,7) by (auto simp: arena_ok_def word_le_nat_alt)
  have copied: "m' (q + i) = m (p + i)" if "ds_data d = Some p" "i < ds_capacity d" for p i
  proof -
    have i: "unat i < unat (ds_capacity d)" "unat (ds_capacity d) < unat sz"
      using that True by (simp_all add: word_less_nat_alt)
    have "m' (q + i) = m1 (p + i)"
      using that(1) i q64 by (simp add: m' memcpy_dst)
    moreover have pi: "unat (p + i) < unat q"
    proof -
      have "unat p + unat i < unat q" using that(1) assms(3) s(3) i by (simp add: ds_ok_def)
      then show ?thesis by (simp add: unat_word_ariths)
    qed
    ultimately show ?thesis by (simp add: s(8) memset_zero_block [OF q64])
  qed
  have "ds_ok d' a'" using s(3,4,5) by (simp add: d' ds_ok_def)
  with copied True s(1) show ?thesis by (auto simp: d')
qed

section \<open>ArenaManager\<close>

text \<open>
  The pool of arenas. An \<open>Arena*\<close> handed out by \<open>get\<close> is modelled by the index of the arena in
  the vector; \<open>release\<close> finds the slot through \<open>management_flag\<close>, as the code does. Both run under
  the manager's mutex and are single steps. \<open>create_arenas\<close> takes what the calls of \<open>malloc\<close>
  return.
\<close>

record arena_manager =
  arenas :: "arena list"
  in_use :: "bool list"
  available_count :: size_t

definition empty_manager :: arena_manager where
  "empty_manager = \<lparr>arenas = [], in_use = [], available_count = 0\<rparr>"

definition create_arenas :: "(nat \<Rightarrow> size_t) \<Rightarrow> size_t \<Rightarrow> size_t \<Rightarrow> arena_manager" where
  "create_arenas malloc count capacity =
     \<lparr>arenas = map (\<lambda>i. (arena_create (malloc i) capacity)\<lparr>management_flag := of_nat i\<rparr>) [0..<unat count],
      in_use = replicate (unat count) False,
      available_count = count\<rparr>"

definition manager_get :: "arena_manager \<Rightarrow> nat option \<times> arena_manager" where
  "manager_get m =
     (case find_idx Not (take (length (arenas m)) (in_use m)) of
        None \<Rightarrow> (None, m)
      | Some i \<Rightarrow> (Some i, m\<lparr>in_use := (in_use m)[i := True],
                           available_count := available_count m - 1\<rparr>))"

definition manager_release :: "nat option \<Rightarrow> arena_manager \<Rightarrow> arena_manager" where
  "manager_release arena m =
     (case arena of
        None \<Rightarrow> m
      | Some p \<Rightarrow>
          (let i = unat (management_flag (arenas m ! p))
           in if i < length (in_use m) \<and> in_use m ! i
              then m\<lparr>in_use := (in_use m)[i := False],
                     available_count := available_count m + 1,
                     arenas := (arenas m)[p := arena_reset (arenas m ! p)]\<rparr>
              else m))"

definition free_arenas :: "arena_manager \<Rightarrow> nat set" where
  "free_arenas m = {i. i < length (in_use m) \<and> \<not> in_use m ! i}"

lemma finite_free [simp]: "finite (free_arenas m)"
  by (simp add: free_arenas_def)

definition all_arenas :: "arena_manager \<Rightarrow> nat set" where
  "all_arenas m = {i. i < length (arenas m)}"

definition manager_ok :: "arena_manager \<Rightarrow> bool" where
  "manager_ok m \<longleftrightarrow>
     length (in_use m) = length (arenas m) \<and> length (arenas m) < 2 ^ 64 \<and>
     unat (available_count m) = length (filter Not (in_use m)) \<and>
     (\<forall>i<length (arenas m). unat (management_flag (arenas m ! i)) = i)"

lemma length_filter_update_Not:
  "i < length bs \<Longrightarrow> length (filter Not (bs[i := b])) + of_bool (\<not> bs ! i)
     = length (filter Not bs) + of_bool (\<not> b)"
proof (induction bs arbitrary: i)
  case Nil
  then show ?case by simp
next
  case (Cons c bs)
  then show ?case by (cases i) auto
qed

lemma card_free_arenas: "card (free_arenas m) = length (filter Not (in_use m))"
  by (simp add: free_arenas_def length_filter_conv_card)

lemma manager_get_Some:
  assumes "manager_ok m" "manager_get m = (Some p, m')"
  shows "p \<in> free_arenas m" "free_arenas m' = free_arenas m - {p}" "all_arenas m' = all_arenas m"
    "manager_ok m'" "arenas m' = arenas m"
proof -
  from assms have f: "find_idx Not (in_use m) = Some p"
    and m': "m' = m\<lparr>in_use := (in_use m)[p := True], available_count := available_count m - 1\<rparr>"
    by (auto simp: manager_get_def manager_ok_def split: option.splits)
  from f have p: "p < length (in_use m)" "\<not> in_use m ! p" by (auto simp: find_idx_Some)
  then show "p \<in> free_arenas m" by (simp add: free_arenas_def)
  show "free_arenas m' = free_arenas m - {p}" using p by (auto simp: free_arenas_def m' nth_list_update)
  show "all_arenas m' = all_arenas m" and "arenas m' = arenas m" by (simp_all add: all_arenas_def m')
  have len: "Suc (length (filter Not ((in_use m)[p := True]))) = length (filter Not (in_use m))"
    using length_filter_update_Not [OF p(1), of True] p(2) by simp
  then have "unat (available_count m) \<noteq> 0" using assms(1) unfolding manager_ok_def by linarith
  then have "unat (available_count m - 1) = unat (available_count m) - 1"
    by (intro unat_minus_one) auto
  with len assms(1) show "manager_ok m'" by (auto simp: manager_ok_def m')
qed

lemma manager_get_None:
  assumes "manager_ok m" "manager_get m = (None, m')"
  shows "m' = m" "free_arenas m = {}" "available_count m = 0"
proof -
  from assms have f: "find_idx Not (in_use m) = None" and "m' = m"
    by (auto simp: manager_get_def manager_ok_def split: option.splits)
  then show "m' = m" by simp
  from f have all: "\<forall>b\<in>set (in_use m). b" by (simp add: find_idx_None)
  then show "free_arenas m = {}" by (auto simp: free_arenas_def)
  from all have "filter Not (in_use m) = []" by (simp add: filter_empty_conv)
  with assms(1) show "available_count m = 0" by (simp add: manager_ok_def word_unat_eq_iff)
qed

lemma manager_release_ok:
  assumes "manager_ok m" "p \<in> all_arenas m"
  shows "manager_ok (manager_release (Some p) m)"
    "free_arenas (manager_release (Some p) m) = insert p (free_arenas m)"
    "all_arenas (manager_release (Some p) m) = all_arenas m"
proof -
  have p: "p < length (arenas m)" "p < length (in_use m)" "unat (management_flag (arenas m ! p)) = p"
    using assms by (auto simp: manager_ok_def all_arenas_def)
  show "all_arenas (manager_release (Some p) m) = all_arenas m"
    by (simp add: manager_release_def all_arenas_def Let_def)
  show "free_arenas (manager_release (Some p) m) = insert p (free_arenas m)"
    using p by (auto simp: manager_release_def free_arenas_def Let_def nth_list_update)
  show "manager_ok (manager_release (Some p) m)"
  proof (cases "in_use m ! p")
    case False
    with assms(1) p show ?thesis by (simp add: manager_release_def Let_def)
  next
    case True
    have len: "length (filter Not ((in_use m)[p := False])) = Suc (length (filter Not (in_use m)))"
      using length_filter_update_Not [OF p(2), of False] True by simp
    have "length (filter Not ((in_use m)[p := False])) \<le> length (arenas m)"
      using assms(1) by (metis manager_ok_def length_filter_le length_list_update)
    then have "unat (available_count m) + 1 < 2 ^ 64"
      using len assms(1) by (simp add: manager_ok_def)
    then have "unat (available_count m + 1) = Suc (unat (available_count m))"
      by (simp add: unat_word_ariths)
    with len True p assms(1) show ?thesis
      by (auto simp: manager_ok_def manager_release_def Let_def nth_list_update arena_reset_def)
  qed
qed

lemma create_arenas_ok: "manager_ok (create_arenas malloc count capacity)"
proof -
  have "filter Not (replicate n False) = replicate n False" for n by simp
  moreover have "i < unat count \<Longrightarrow> i < 2 ^ 64" for i
    using unat_less64 [of count] by (simp del: unat_less64)
  ultimately show ?thesis by (simp add: manager_ok_def create_arenas_def unat_of_nat)
qed

section \<open>The pool as its clients see it\<close>

text \<open>
  \<open>allocate_request\<close> of fcgi-connection.cpp and the two schedulers of websockets.cpp take an arena
  with \<open>get\<close> and give it back with \<open>release\<close> exactly once. What they need is that an arena that
  is out is not handed out a second time and that arenas are not lost.
\<close>

locale resource_pool =
  fixes acquire :: "'m \<Rightarrow> nat option \<times> 'm"
    and release :: "nat \<Rightarrow> 'm \<Rightarrow> 'm"
    and free :: "'m \<Rightarrow> nat set"
    and every :: "'m \<Rightarrow> nat set"
    and inv :: "'m \<Rightarrow> bool"
  assumes acquire_Some: "inv m \<Longrightarrow> acquire m = (Some p, m') \<Longrightarrow>
      inv m' \<and> p \<in> free m \<and> free m' = free m - {p} \<and> every m' = every m"
    and acquire_None: "inv m \<Longrightarrow> acquire m = (None, m') \<Longrightarrow> m' = m \<and> free m = {}"
    and release_law: "inv m \<Longrightarrow> p \<in> every m \<Longrightarrow>
      inv (release p m) \<and> free (release p m) = insert p (free m) \<and> every (release p m) = every m"
    and free_subset: "inv m \<Longrightarrow> free m \<subseteq> every m"
begin

definition owned :: "'m \<Rightarrow> nat set \<Rightarrow> bool" where
  "owned m held \<longleftrightarrow> inv m \<and> held \<union> free m = every m \<and> held \<inter> free m = {}"

lemma owned_start: "inv m \<Longrightarrow> free m = every m \<Longrightarrow> owned m {}"
  by (simp add: owned_def)

lemma owned_acquire: "owned m held \<Longrightarrow> acquire m = (Some p, m') \<Longrightarrow> p \<notin> held \<and> owned m' (insert p held)"
  using acquire_Some [of m p m'] by (auto simp: owned_def)

lemma owned_refused: "owned m held \<Longrightarrow> acquire m = (None, m') \<Longrightarrow> m' = m \<and> held = every m"
  using acquire_None [of m m'] by (auto simp: owned_def)

lemma owned_release:
  assumes "owned m held" "p \<in> held"
  shows "owned (release p m) (held - {p})"
proof -
  from assms have o: "inv m" "held \<union> free m = every m" "held \<inter> free m = {}"
    by (simp_all add: owned_def)
  then have "p \<in> every m" using assms(2) by blast
  from release_law [OF o(1) this] have r: "inv (release p m)" "free (release p m) = insert p (free m)"
    "every (release p m) = every m" by simp_all
  have "held - {p} \<union> insert p (free m) = every m" using o(2) assms(2) by blast
  moreover have "(held - {p}) \<inter> insert p (free m) = {}" using o(3) by blast
  ultimately show ?thesis by (simp only: owned_def r simp_thms)
qed

lemma owned_every: "owned m held \<Longrightarrow> held \<union> free m = every m"
  by (simp add: owned_def)

end

interpretation arenas: resource_pool manager_get "\<lambda>p. manager_release (Some p)" free_arenas all_arenas manager_ok
proof
  fix m m' p assume "manager_ok m" "manager_get m = (Some p, m')"
  then show "manager_ok m' \<and> p \<in> free_arenas m \<and> free_arenas m' = free_arenas m - {p} \<and>
      all_arenas m' = all_arenas m"
    by (blast dest: manager_get_Some)
next
  fix m m' assume "manager_ok m" "manager_get m = (None, m')"
  then show "m' = m \<and> free_arenas m = {}" by (blast dest: manager_get_None)
next
  fix m p assume "manager_ok m" "p \<in> all_arenas m"
  then show "manager_ok (manager_release (Some p) m) \<and>
      free_arenas (manager_release (Some p) m) = insert p (free_arenas m) \<and>
      all_arenas (manager_release (Some p) m) = all_arenas m"
    by (blast dest: manager_release_ok)
next
  fix m assume "manager_ok m"
  then show "free_arenas m \<subseteq> all_arenas m" by (auto simp: free_arenas_def all_arenas_def manager_ok_def)
qed

text \<open>The states the server reaches: arenas are taken and given back in any order.\<close>

inductive pool_run :: "arena_manager \<Rightarrow> nat set \<Rightarrow> bool" where
  created: "pool_run (create_arenas malloc count capacity) {}"
| taken: "pool_run m held \<Longrightarrow> manager_get m = (Some p, m') \<Longrightarrow> pool_run m' (insert p held)"
| given_back: "pool_run m held \<Longrightarrow> p \<in> held \<Longrightarrow> pool_run (manager_release (Some p) m) (held - {p})"

lemma free_all_created: "free_arenas (create_arenas malloc count capacity) = all_arenas (create_arenas malloc count capacity)"
  by (auto simp: free_arenas_def all_arenas_def create_arenas_def)

lemma pool_run_owned: "pool_run m held \<Longrightarrow> arenas.owned m held"
proof (induction rule: pool_run.induct)
  case (created malloc count capacity)
  then show ?case by (intro arenas.owned_start create_arenas_ok free_all_created)
next
  case (taken m held p m')
  then show ?case by (blast dest: arenas.owned_acquire)
next
  case (given_back m held p)
  then show ?case by (blast intro: arenas.owned_release)
qed

lemma pool_run_ok: "pool_run m held \<Longrightarrow> manager_ok m"
  using pool_run_owned by (auto simp: arenas.owned_def)

lemma pool_run_count:
  assumes "pool_run m held"
  shows "unat (available_count m) + card held = length (arenas m)"
proof -
  from assms have o: "arenas.owned m held" by (rule pool_run_owned)
  have u: "held \<union> free_arenas m = {..<length (arenas m)}"
    using o by (auto simp: arenas.owned_def all_arenas_def)
  then have fin: "finite held" "finite (free_arenas m)"
    by (metis finite_Un finite_lessThan)+
  have "card held + card (free_arenas m) = card {..<length (arenas m)}"
    using u fin o by (metis arenas.owned_def card_Un_disjoint)
  moreover have "card (free_arenas m) = unat (available_count m)"
    using pool_run_ok [OF assms] by (simp add: card_free_arenas manager_ok_def)
  ultimately show ?thesis by simp
qed

section \<open>Properties\<close>

text \<open>C10: an arena that the manager hands out is not held by any other client, at any point of any
  sequence of \<open>get\<close> and \<open>release\<close> calls, and \<open>available_count\<close> is the number of arenas that are
  not held (no arena is lost or counted twice).\<close>

theorem arena_never_handed_out_twice:
  assumes "pool_run m held"
  shows "unat (available_count m) + card held = length (arenas m) \<and>
    (case manager_get m of
       (Some p, _) \<Rightarrow> p < length (arenas m) \<and> p \<notin> held
     | (None, _) \<Rightarrow> available_count m = 0 \<and> held = {..<length (arenas m)})"
proof -
  have o: "arenas.owned m held" and ok: "manager_ok m"
    using assms pool_run_owned pool_run_ok by blast+
  have "case manager_get m of
       (Some p, _) \<Rightarrow> p < length (arenas m) \<and> p \<notin> held
     | (None, _) \<Rightarrow> available_count m = 0 \<and> held = {..<length (arenas m)}"
  proof (cases "manager_get m")
    case (Pair r m')
    show ?thesis
    proof (cases r)
      case None
      then show ?thesis
        using arenas.owned_refused [OF o] manager_get_None(3) [OF ok] Pair
        by (auto simp: all_arenas_def)
    next
      case (Some p)
      then show ?thesis
        using arenas.owned_acquire [OF o] manager_get_Some(1) [OF ok] ok Pair
        by (auto simp: free_arenas_def manager_ok_def)
    qed
  qed
  with pool_run_count [OF assms] show ?thesis by blast
qed

theorem arena_never_handed_out_twice_witness:
  "pool_run (snd (manager_get (create_arenas (\<lambda>_. 4096) 2 64))) {0} \<and>
   manager_get (snd (manager_get (create_arenas (\<lambda>_. 4096) 2 64))) \<noteq> (None, create_arenas (\<lambda>_. 4096) 2 64) \<and>
   unat (available_count (snd (manager_get (create_arenas (\<lambda>_. 4096) 2 64)))) + 1 = 2"
proof -
  let ?m = "create_arenas (\<lambda>_. 4096) 2 64"
  have rep: "replicate 2 False = [False, False]" by (simp add: numeral_2_eq_2)
  have g: "manager_get ?m = (Some 0, snd (manager_get ?m))"
    by (simp add: manager_get_def create_arenas_def rep upt_rec)
  have r: "pool_run (snd (manager_get ?m)) {0}"
    using pool_run.taken [OF pool_run.created g] by simp
  have len: "length (arenas (snd (manager_get ?m))) = 2"
    by (simp add: manager_get_def create_arenas_def rep upt_rec)
  have "manager_get (snd (manager_get ?m)) \<noteq> (None, ?m)"
    by (simp add: manager_get_def create_arenas_def rep upt_rec)
  then show ?thesis using r arena_never_handed_out_twice [OF r] len by simp
qed

text \<open>C23: the blocks that a sequence of \<open>alloc\<close> calls returns lie one behind the other inside the
  arena's memory (so they do not overlap), as long as the alignments are powers of two and no address
  wraps around when size and alignment are added to the end of the arena.\<close>

theorem arena_blocks_disjoint:
  assumes "arena_allocs reqs (a, m) = (bs, a', m')" "arena_ok a" "sane_requests a reqs"
  shows "sorted_wrt (\<lambda>(p, sz) (q, _). unat p + unat sz \<le> unat q) bs \<and>
    (\<forall>(p, sz)\<in>set bs. unat (a_data a) + unat (a_offset a) \<le> unat p \<and>
      unat p + unat sz \<le> unat (a_data a) + unat (a_capacity a))"
proof -
  note b = arena_allocs_blocks [OF assms]
  have "unat (a_offset a') \<le> unat (a_capacity a)"
    using b by (auto simp: arena_ok_def word_le_nat_alt)
  then show ?thesis using b by fastforce
qed

theorem arena_blocks_disjoint_witness:
  "fst (arena_allocs [(10, 16), (4, 8)] (arena_create 4096 64, \<lambda>_. 7)) = [(4096, 10), (4112, 4)] \<and>
   sorted_wrt (\<lambda>(p, sz) (q, _). unat p + unat sz \<le> unat q) [(4096 :: u64, 10 :: u64), (4112, 4)]"
proof -
  let ?a = "arena_create 4096 64" and ?m = "(\<lambda>_. 7) :: mem"
  obtain bs a' m' where al: "arena_allocs [(10, 16), (4, 8)] (?a, ?m) = (bs, a', m')"
    by (metis prod_cases3)
  have "fst (arena_allocs [(10, 16), (4, 8)] (?a, ?m)) = [(4096, 10), (4112, 4)]"
    by (simp add: arena_alloc_def arena_create_def arena_reset_def align_up_def Let_def)
  then have bs: "bs = [(4096, 10), (4112, 4)]" by (metis al fst_conv)
  have ok: "arena_ok ?a" by (simp add: arena_ok_def arena_create_def arena_reset_def)
  have p: "is_pow2 16" "is_pow2 8"
    unfolding is_pow2_def by (rule exI [of _ 4], simp) (rule exI [of _ 3], simp)
  have sane: "sane_requests ?a [(10, 16), (4, 8)]"
    using p by (simp add: sane_requests_def arena_create_def arena_reset_def)
  from arena_blocks_disjoint [OF al ok sane] bs al show ?thesis by (metis fst_conv)
qed

text \<open>\<open>DynamicString::reserve\<close> that succeeds leaves room for the requested size and keeps every
  byte of the old block, although the arena has cleared the new block.\<close>

theorem reserve_keeps_contents:
  assumes "ds_reserve sz (d, a, m) = (True, d', a', m')"
    and "arena_ok a" "ds_ok d a" "alloc_fits a sz max_align"
  shows "ds_ok d' a' \<and> sz \<le> ds_capacity d' \<and>
    (\<forall>p q i. ds_data d = Some p \<longrightarrow> ds_data d' = Some q \<longrightarrow> i < ds_capacity d \<longrightarrow> m' (q + i) = m (p + i))"
  using ds_reserve_keeps [OF assms] by blast

theorem reserve_keeps_contents_witness:
  "(let d = \<lparr>ds_data = Some 4096, ds_length = 0, ds_capacity = 32\<rparr>;
        a = \<lparr>a_data = 4096, a_capacity = 128, a_offset = 32, management_flag = 0\<rparr>;
        m = (\<lambda>x. ucast x)
    in fst (ds_reserve 64 (d, a, m)) \<and> snd (snd (snd (ds_reserve 64 (d, a, m)))) (4128 + 5) = 5)"
proof -
  let ?d = "\<lparr>ds_data = Some 4096, ds_length = 0, ds_capacity = 32\<rparr>"
  let ?a = "\<lparr>a_data = 4096, a_capacity = 128, a_offset = 32, management_flag = 0\<rparr>"
  let ?m = "(\<lambda>x. ucast x) :: mem"
  obtain b d' a' m' where r: "ds_reserve 64 (?d, ?a, ?m) = (b, d', a', m')" by (metis prod_cases4)
  have "b \<and> ds_data d' = Some 4128"
    using r by (auto simp: ds_reserve_def arena_alloc_def max_align_def align_up_def Let_def)
  then have b: "b = True" and d': "ds_data d' = Some 4128" by simp_all
  have "\<forall>i<32. m' (4128 + i) = ?m (4096 + i)"
    using reserve_keeps_contents [OF r [unfolded b]] d'
    by (simp add: arena_ok_def ds_ok_def alloc_fits_def max_align_def)
  then have "m' (4128 + 5) = ?m (4096 + 5)" by (rule allE [of _ 5]) simp
  then show ?thesis by (simp add: r b Let_def)
qed

text \<open>The bound check of \<open>alloc\<close> itself wraps: an arena of 64 bytes with 32 in use accepts a request
  for \<open>2^64 - 16\<close> bytes, because \<open>new_off\<close> comes out as 16.\<close>

theorem alloc_accepts_wrapping_size:
  "arena_ok \<lparr>a_data = 4096, a_capacity = 64, a_offset = 32, management_flag = 0\<rparr> \<and>
   fst (arena_alloc (- 16) 16 (\<lparr>a_data = 4096, a_capacity = 64, a_offset = 32, management_flag = 0\<rparr>, m))
     = Some 4128"
  by (simp add: arena_ok_def arena_alloc_def align_up_def Let_def)

end
