(* ===== verification/Double.thy ===== *)
theory Double
  imports Prelude
begin

text \<open>
  What the sources use of \<open>double\<close>: IEEE-754 binary64 values as sign, integer mantissa and
  binary exponent, the decimal readers and printers of the standard library that dynamic_variable.cpp
  calls (\<open>std::stod\<close>, \<open>std::to_string\<close>, \<open>operator<<\<close> with its default precision of six digits) and
  the conversion from integers. Rounding is to nearest, ties to even; \<open>std::stod\<close> throws
  \<open>out_of_range\<close> when the result overflows, or is subnormal and inexact (\<open>ERANGE\<close>). Infinities and
  NaNs are not modelled: no operation of the sources produces one.
\<close>

datatype double = Dbl (dbl_neg: bool) (dbl_mant: int) (dbl_exp: int)

section \<open>Decimal digits\<close>

definition digit_char :: "nat \<Rightarrow> char" where
  "digit_char d = char_of (48 + d)"

fun show_nat :: "nat \<Rightarrow> string" where
  "show_nat n = (if n < 10 then [digit_char n] else show_nat (n div 10) @ [digit_char (n mod 10)])"

declare show_nat.simps [simp del]

definition show_int :: "int \<Rightarrow> string" where
  "show_int i = (if i < 0 then CHR ''-'' # show_nat (nat (- i)) else show_nat (nat i))"

definition digit_val :: "char \<Rightarrow> nat" where
  "digit_val c = uchar c - 48"

definition dec_value :: "string \<Rightarrow> nat" where
  "dec_value ds = foldl (\<lambda>a c. 10 * a + digit_val c) 0 ds"

lemma uchar_digit_char [simp]: "d < 10 \<Longrightarrow> uchar (digit_char d) = 48 + d"
  by (simp add: digit_char_def)

lemma digit_val_char [simp]: "d < 10 \<Longrightarrow> digit_val (digit_char d) = d"
  by (simp add: digit_val_def)

lemma isdigit_digit_char [simp]: "d < 10 \<Longrightarrow> isdigit (digit_char d)"
  by (simp add: isdigit_def)

lemma dec_value_snoc [simp]: "dec_value (ds @ [c]) = 10 * dec_value ds + digit_val c"
  by (simp add: dec_value_def)

lemma show_nat_nonempty [simp]: "show_nat n \<noteq> []"
  by (subst show_nat.simps) simp

lemma show_nat_digits: "\<forall>c\<in>set (show_nat n). isdigit c"
proof (induction n rule: show_nat.induct)
  case (1 n)
  then show ?case by (subst show_nat.simps) auto
qed

lemma dec_value_show_nat [simp]: "dec_value (show_nat n) = n"
proof (induction n rule: show_nat.induct)
  case (1 n)
  show ?case
  proof (cases "n < 10")
    case True
    then show ?thesis by (subst show_nat.simps) (simp add: dec_value_def)
  next
    case False
    then have "dec_value (show_nat n) = 10 * (n div 10) + n mod 10"
      using 1 by (subst show_nat.simps) simp
    then show ?thesis by simp
  qed
qed

lemma digit_char_0: "digit_char 0 = CHR ''0''"
  by (simp add: digit_char_def uchar_inj [symmetric])

lemma show_nat_mult10: "0 < n \<Longrightarrow> show_nat (n * 10) = show_nat n @ [CHR ''0'']"
  by (subst show_nat.simps) (simp add: digit_char_0)

lemma show_nat_mult_pow10: "0 < n \<Longrightarrow> show_nat (n * 10 ^ k) = show_nat n @ replicate k (CHR ''0'')"
proof (induction k)
  case 0
  then show ?case by simp
next
  case (Suc k)
  then have "show_nat (n * 10 ^ k * 10) = show_nat (n * 10 ^ k) @ [CHR ''0'']"
    by (intro show_nat_mult10) simp
  with Suc have "show_nat (n * 10 ^ k * 10) = show_nat n @ replicate (Suc k) (CHR ''0'')"
    by (simp add: replicate_append_same)
  then show ?case by (simp add: ac_simps)
qed

lemma show_nat_bounds: "0 < n \<Longrightarrow> 10 ^ (length (show_nat n) - 1) \<le> n \<and> n < 10 ^ length (show_nat n)"
proof (induction n rule: show_nat.induct)
  case (1 n)
  show ?case
  proof (cases "n < 10")
    case True
    with 1(2) show ?thesis by (subst (1 2) show_nat.simps) simp
  next
    case False
    let ?l = "length (show_nat (n div 10))"
    have IH: "10 ^ (?l - 1) \<le> n div 10" "n div 10 < 10 ^ ?l" using 1(1) False by simp_all
    have l: "length (show_nat n) = Suc ?l" using False by (subst show_nat.simps) simp
    have "?l = Suc (?l - 1)" by (simp add: Suc_leI)
    then have "(10::nat) ^ ?l = 10 * 10 ^ (?l - 1)" by (metis power_Suc)
    also have "\<dots> \<le> 10 * (n div 10)" using IH(1) by simp
    also have "\<dots> \<le> n" by simp
    finally have "10 ^ ?l \<le> n" .
    moreover have "n < 10 ^ Suc ?l"
    proof -
      have "n < 10 * (n div 10 + 1)" by simp
      also have "\<dots> \<le> 10 * 10 ^ ?l" using IH(2) by simp
      finally show ?thesis by simp
    qed
    ultimately show ?thesis by (simp add: l)
  qed
qed

section \<open>Rounding\<close>

definition div_half_even :: "int \<Rightarrow> int \<Rightarrow> int" where
  "div_half_even a b =
     (let q = a div b; r = a mod b
      in if 2 * r < b then q else if 2 * r > b then q + 1 else if even q then q else q + 1)"

function ilog2 :: "int \<Rightarrow> int" where
  "ilog2 n = (if n \<le> 1 then 0 else 1 + ilog2 (n div 2))"
  by pat_completeness auto
termination by (relation "measure nat") auto

declare ilog2.simps [simp del]

text \<open>\<open>pow2_scale a e\<close> is the pair (numerator factor, denominator factor) of \<open>2 ^ e\<close>.\<close>

definition pow2_ge :: "int \<Rightarrow> int \<Rightarrow> int \<Rightarrow> bool" where
  "pow2_ge n d k \<longleftrightarrow> (if 0 \<le> k then d * 2 ^ nat k \<le> n else d \<le> n * 2 ^ nat (- k))"

text \<open>The exponent \<open>k\<close> with \<open>2 ^ k \<le> n / d < 2 ^ (k + 1)\<close>.\<close>

definition binade :: "int \<Rightarrow> int \<Rightarrow> int" where
  "binade n d = (let k = ilog2 n - ilog2 d in if pow2_ge n d k then k else k - 1)"

definition round_at :: "int \<Rightarrow> int \<Rightarrow> int \<Rightarrow> int" where
  "round_at n d e = (if 0 \<le> e then div_half_even n (d * 2 ^ nat e) else div_half_even (n * 2 ^ nat (- e)) d)"

definition exact_at :: "int \<Rightarrow> int \<Rightarrow> int \<Rightarrow> bool" where
  "exact_at n d e \<longleftrightarrow> (if 0 \<le> e then n mod (d * 2 ^ nat e) = 0 else (n * 2 ^ nat (- e)) mod d = 0)"

text \<open>The double nearest to \<open>n / d\<close>; \<open>None\<close> where \<open>strtod\<close> sets \<open>ERANGE\<close>.\<close>

definition round_double :: "bool \<Rightarrow> int \<Rightarrow> int \<Rightarrow> double option" where
  "round_double s n d =
     (if n = 0 then Some (Dbl s 0 (- 1074))
      else
        let k = binade n d - 52;
            tiny = k < - 1074 \<and> \<not> (k = - 1075 \<and> round_at n d k = 2 ^ 53);
            e = max (- 1074) k;
            m = round_at n d e
        in if tiny \<and> \<not> exact_at n d e then None
           else if m = 2 ^ 53 then (if 971 < e + 1 then None else Some (Dbl s (2 ^ 52) (e + 1)))
           else if 971 < e then None
           else Some (Dbl s m e))"

definition double_of_int :: "int \<Rightarrow> double" where
  "double_of_int i =
     (case round_double (i < 0) \<bar>i\<bar> 1 of Some d \<Rightarrow> d | None \<Rightarrow> Dbl False 0 (- 1074))"

definition dbl_is_zero :: "double \<Rightarrow> bool" where
  "dbl_is_zero d \<longleftrightarrow> dbl_mant d = 0"

section \<open>Reading: std::stod\<close>

text \<open>
  \<open>parse_number\<close> passes an optional sign followed by digits and at most one point. \<open>None\<close> stands
  for a thrown \<open>invalid_argument\<close> (no digit) or \<open>out_of_range\<close>.
\<close>

definition stod :: "string \<Rightarrow> double option" where
  "stod s =
     (let (neg, body) = (case s of
            [] \<Rightarrow> (False, [])
          | c # cs \<Rightarrow> if c = CHR ''-'' then (True, cs) else if c = CHR ''+'' then (False, cs) else (False, s));
          ip = takeWhile isdigit body;
          fp = (case dropWhile isdigit body of
                  [] \<Rightarrow> []
                | c # cs \<Rightarrow> if c = CHR ''.'' then takeWhile isdigit cs else [])
      in if ip = [] \<and> fp = [] then None
         else round_double neg (int (dec_value (ip @ fp))) (10 ^ length fp))"

section \<open>Printing\<close>

definition dbl_num :: "double \<Rightarrow> int" where
  "dbl_num d = (if 0 \<le> dbl_exp d then dbl_mant d * 2 ^ nat (dbl_exp d) else dbl_mant d)"

definition dbl_den :: "double \<Rightarrow> int" where
  "dbl_den d = (if 0 \<le> dbl_exp d then 1 else 2 ^ nat (- dbl_exp d))"

function pow10_up :: "int \<Rightarrow> int \<Rightarrow> nat" where
  "pow10_up n d = (if n \<le> 0 \<or> d \<le> n then 0 else Suc (pow10_up (10 * n) d))"
  by pat_completeness auto
termination by (relation "measure (\<lambda>(n, d). nat (d - n))") auto

declare pow10_up.simps [simp del]

text \<open>The decimal exponent \<open>X\<close> with \<open>10 ^ X \<le> n / d < 10 ^ (X + 1)\<close>.\<close>

definition decade :: "int \<Rightarrow> int \<Rightarrow> int" where
  "decade n d = (if d \<le> n then int (length (show_nat (nat (n div d)))) - 1 else - int (pow10_up n d))"

definition round_dec :: "int \<Rightarrow> int \<Rightarrow> int \<Rightarrow> int" where
  "round_dec n d p = (if 0 \<le> p then div_half_even (n * 10 ^ nat p) d else div_half_even n (d * 10 ^ nat (- p)))"

definition strip_zeros :: "string \<Rightarrow> string" where
  "strip_zeros s = rev (dropWhile (\<lambda>c. c = CHR ''0'') (rev s))"

definition with_frac :: "string \<Rightarrow> string \<Rightarrow> string" where
  "with_frac ip fp = (if fp = [] then ip else ip @ CHR ''.'' # fp)"

definition pad_zeros :: "nat \<Rightarrow> string \<Rightarrow> string" where
  "pad_zeros k s = replicate (k - length s) (CHR ''0'') @ s"

text \<open>\<open>oss << d\<close> with the default format, which is \<open>%.6g\<close>.\<close>

definition fmt_g :: "double \<Rightarrow> string" where
  "fmt_g v =
     (if dbl_is_zero v then (if dbl_neg v then ''-0'' else ''0'')
      else
        let n = dbl_num v; d = dbl_den v;
            X0 = decade n d;
            D0 = round_dec n d (5 - X0);
            (D, X) = (if D0 = 10 ^ 6 then (10 ^ 5, X0 + 1) else (D0, X0));
            ds = show_nat (nat D);
            body =
              (if X < - 4 \<or> 6 \<le> X then
                 with_frac (take 1 ds) (strip_zeros (drop 1 ds)) @ CHR ''e'' #
                 (if X < 0 then CHR ''-'' else CHR ''+'') # pad_zeros 2 (show_nat (nat \<bar>X\<bar>))
               else if 0 \<le> X then with_frac (take (nat X + 1) ds) (strip_zeros (drop (nat X + 1) ds))
               else with_frac ''0'' (replicate (nat (- X) - 1) (CHR ''0'') @ strip_zeros ds))
        in if dbl_neg v then CHR ''-'' # body else body)"

text \<open>\<open>std::to_string(d)\<close>, which is \<open>%f\<close>.\<close>

definition to_string_double :: "double \<Rightarrow> string" where
  "to_string_double v =
     (let N = round_dec (dbl_num v) (dbl_den v) 6;
          body = show_nat (nat (N div 10 ^ 6)) @ CHR ''.'' # pad_zeros 6 (show_nat (nat (N mod 10 ^ 6)))
      in if dbl_neg v then CHR ''-'' # body else body)"

section \<open>Small integers are exact\<close>

lemma ilog2_bounds: "0 < n \<Longrightarrow> 0 \<le> ilog2 n \<and> 2 ^ nat (ilog2 n) \<le> n \<and> n < 2 * 2 ^ nat (ilog2 n)"
proof (induction n rule: ilog2.induct)
  case (1 n)
  show ?case
  proof (cases "n \<le> 1")
    case True
    with 1(2) show ?thesis by (simp add: ilog2.simps [of n])
  next
    case False
    then have "0 < n div 2" by simp
    with 1 False have IH: "0 \<le> ilog2 (n div 2)" "2 ^ nat (ilog2 (n div 2)) \<le> n div 2"
      "n div 2 < 2 * 2 ^ nat (ilog2 (n div 2))" by simp_all
    have "nat (1 + ilog2 (n div 2)) = Suc (nat (ilog2 (n div 2)))" using IH(1) by simp
    moreover have "2 * P \<le> n \<and> n < 4 * P" if "P \<le> n div 2" "n div 2 < 2 * P" for P
      using that by presburger
    ultimately show ?thesis using False IH by (simp add: ilog2.simps [of n])
  qed
qed

lemma div_half_even_exact: "0 < b \<Longrightarrow> div_half_even (a * b) b = a"
  by (simp add: div_half_even_def Let_def)

lemma div_half_even_1 [simp]: "div_half_even a 1 = a"
  by (simp add: div_half_even_def Let_def)

lemma round_double_int:
  assumes "0 < n" "n < 2 ^ 53"
  shows "\<exists>k\<le>52. round_double s n 1 = Some (Dbl s (n * 2 ^ k) (- int k)) \<and> 2 ^ 52 \<le> n * 2 ^ k \<and> n * 2 ^ k < 2 ^ 53"
proof -
  let ?l = "ilog2 n"
  have b: "0 \<le> ?l" "2 ^ nat ?l \<le> n" "n < 2 * 2 ^ nat ?l" using ilog2_bounds [OF assms(1)] by simp_all
  have l52: "nat ?l \<le> 52"
  proof (rule ccontr)
    assume "\<not> ?thesis"
    then have "(2::int) ^ 53 \<le> 2 ^ nat ?l" by (intro power_increasing) simp_all
    with b(2) assms(2) show False by simp
  qed
  define k where "k = 52 - nat ?l"
  have k: "k \<le> 52" "k + nat ?l = 52" using l52 by (simp_all add: k_def)
  have bin: "binade n 1 = int (nat ?l)"
    using b(1,2) by (simp add: binade_def pow2_ge_def ilog2.simps [of 1])
  have e: "binade n 1 - 52 = - int k" using k by (simp add: bin k_def)
  have lo: "2 ^ 52 \<le> n * 2 ^ k"
  proof -
    have "(2::int) ^ 52 = 2 ^ nat ?l * 2 ^ k" by (metis k(2) add.commute power_add)
    also have "\<dots> \<le> n * 2 ^ k" using b(2) by (intro mult_right_mono) simp_all
    finally show ?thesis .
  qed
  have hi: "n * 2 ^ k < 2 ^ 53"
  proof -
    have "n * 2 ^ k < 2 * 2 ^ nat ?l * 2 ^ k" using b(3) by (intro mult_strict_right_mono) simp_all
    also have "\<dots> = 2 * 2 ^ (k + nat ?l)" by (simp add: power_add)
    finally show ?thesis by (simp add: k(2))
  qed
  have m: "round_at n 1 (- int k) = n * 2 ^ k"
    by (cases "k = 0") (simp_all add: round_at_def)
  have "round_double s n 1 = Some (Dbl s (n * 2 ^ k) (- int k))"
    using assms(1) k(1) hi by (simp add: round_double_def e m Let_def max_def)
  with k(1) lo hi show ?thesis by blast
qed

lemma stod_show_int:
  assumes "\<bar>i\<bar> < 2 ^ 53"
  shows "stod (show_int i) = Some (double_of_int i)"
proof -
  define n where "n = nat \<bar>i\<bar>"
  have tw: "takeWhile isdigit (show_nat n) = show_nat n" "dropWhile isdigit (show_nat n) = []"
    using show_nat_digits [of n] by (simp_all add: takeWhile_eq_all_conv dropWhile_eq_Nil_conv)
  obtain c cs where c: "show_nat n = c # cs" by (cases "show_nat n") simp_all
  then have "isdigit c" using show_nat_digits [of n] by simp
  then have ns: "c \<noteq> CHR ''-''" "c \<noteq> CHR ''+''" by (auto simp: isdigit_def)
  have rd: "round_double (i < 0) \<bar>i\<bar> 1 = Some (double_of_int i)"
  proof (cases "i = 0")
    case True
    then show ?thesis by (simp add: double_of_int_def round_double_def)
  next
    case False
    with assms round_double_int [of "\<bar>i\<bar>" "i < 0"] show ?thesis by (auto simp: double_of_int_def)
  qed
  have i: "int n = \<bar>i\<bar>" by (simp add: n_def)
  show ?thesis
  proof (cases "i < 0")
    case True
    then have "show_int i = CHR ''-'' # show_nat n" by (simp add: show_int_def n_def)
    with i rd True show ?thesis by (simp add: stod_def Let_def tw)
  next
    case False
    then have "show_int i = show_nat n" by (simp add: show_int_def n_def)
    with c ns have "(case show_int i of [] \<Rightarrow> (False, []) | c # cs \<Rightarrow>
        if c = CHR ''-'' then (True, cs) else if c = CHR ''+'' then (False, cs) else (False, show_int i))
      = (False, show_nat n)" by simp
    with i rd False show ?thesis by (simp add: stod_def Let_def tw)
  qed
qed

lemma length_show_nat_le: "0 < n \<Longrightarrow> n < 10 ^ k \<Longrightarrow> length (show_nat n) \<le> k"
proof (rule ccontr)
  assume n: "0 < n" "n < 10 ^ k" and "\<not> length (show_nat n) \<le> k"
  then have "(10::nat) ^ k \<le> 10 ^ (length (show_nat n) - 1)" by (intro power_increasing) simp_all
  also have "\<dots> \<le> n" using show_nat_bounds [OF n(1)] by blast
  finally show False using n(2) by simp
qed

lemma strip_zeros_replicate [simp]: "strip_zeros (replicate k (CHR ''0'')) = []"
  by (simp add: strip_zeros_def dropWhile_eq_Nil_conv)

lemma double_of_int_mant:
  assumes "0 < \<bar>i\<bar>" "\<bar>i\<bar> < 2 ^ 53"
  shows "\<exists>k. double_of_int i = Dbl (i < 0) (\<bar>i\<bar> * 2 ^ k) (- int k)"
  using round_double_int [OF assms, of "i < 0"] by (auto simp: double_of_int_def)

lemma fmt_g_double_of_int:
  assumes "\<bar>i\<bar> < 10 ^ 6"
  shows "fmt_g (double_of_int i) = show_int i"
proof (cases "i = 0")
  case True
  then show ?thesis
    by (simp add: double_of_int_def round_double_def fmt_g_def dbl_is_zero_def show_int_def
        show_nat.simps [of 0] digit_char_0)
next
  case False
  define n where "n = nat \<bar>i\<bar>"
  have n: "0 < n" "n < 10 ^ 6" using assms False by (simp_all add: n_def)
  obtain k where d: "double_of_int i = Dbl (i < 0) (int n * 2 ^ k) (- int k)"
    using double_of_int_mant [of i] assms False by (auto simp: n_def)
  let ?v = "double_of_int i"
  have num: "dbl_num ?v = int n * dbl_den ?v" and den: "0 < dbl_den ?v"
    by (simp_all add: d dbl_num_def dbl_den_def)
  define l where "l = length (show_nat n)"
  have l: "0 < l" "l \<le> 6" using length_show_nat_le [OF n] by (simp_all add: l_def)
  have ge: "dbl_den ?v \<le> dbl_num ?v" using num den n(1) by simp
  have q: "dbl_num ?v div dbl_den ?v = int n" using num den by simp
  have X: "decade (dbl_num ?v) (dbl_den ?v) = int l - 1" by (simp add: decade_def ge q l_def)
  have "round_dec (dbl_num ?v) (dbl_den ?v) (5 - (int l - 1)) = div_half_even (int n * 10 ^ (6 - l) * dbl_den ?v) (dbl_den ?v)"
    using l by (simp add: round_dec_def num nat_diff_distrib ac_simps)
  then have D0: "round_dec (dbl_num ?v) (dbl_den ?v) (5 - (int l - 1)) = int n * 10 ^ (6 - l)"
    by (simp add: div_half_even_exact den)
  define N where "N = n * 10 ^ (6 - l)"
  have D: "round_dec (dbl_num ?v) (dbl_den ?v) (5 - (int l - 1)) = int N"
    using D0 by (simp add: N_def)
  have "N < 10 ^ l * 10 ^ (6 - l)"
    using show_nat_bounds [OF n(1)] unfolding N_def by (intro mult_strict_right_mono) (simp_all add: l_def)
  also have "\<dots> = 10 ^ 6" using l by (simp add: power_add [symmetric])
  finally have lt: "int N \<noteq> 10 ^ 6" by simp
  have ds: "show_nat N = show_nat n @ replicate (6 - l) (CHR ''0'')"
    unfolding N_def using n(1) by (rule show_nat_mult_pow10)
  have ip: "nat (int l - 1) + 1 = l" using l(1) by simp
  have tk: "take l (show_nat N) = show_nat n" "drop l (show_nat N) = replicate (6 - l) (CHR ''0'')"
    by (simp_all add: ds l_def)
  have X6: "\<not> (int l - 1 < - 4 \<or> 6 \<le> int l - 1)" "0 \<le> int l - 1" using l by linarith+
  have neg: "dbl_neg ?v = (i < 0)" "\<not> dbl_is_zero ?v" using n(1) by (simp_all add: d dbl_is_zero_def)
  have "fmt_g ?v = (if i < 0 then CHR ''-'' # show_nat n else show_nat n)"
    unfolding fmt_g_def
    by (simp only: neg Let_def X D lt X6 ip nat_int tk if_False if_True prod.case simp_thms
        strip_zeros_replicate with_frac_def)
  then show ?thesis using False by (simp add: show_int_def n_def)
qed

text \<open>From a million on the default format needs an exponent.\<close>

lemma double_of_million: "double_of_int 1000000 = Dbl False (1000000 * 2 ^ 33) (- 33)"
  by (simp add: double_of_int_def round_double_def binade_def pow2_ge_def ilog2.simps round_at_def Let_def)

lemma fmt_g_million: "fmt_g (double_of_int 1000000) = ''1e+06''"
proof -
  have "digit_char 0 = CHR ''0''" "digit_char 1 = CHR ''1''" "digit_char 6 = CHR ''6''"
    by (simp_all add: digit_char_def uchar_inj [symmetric])
  then show ?thesis
    by (simp add: double_of_million fmt_g_def dbl_is_zero_def Let_def dbl_num_def dbl_den_def decade_def
        show_nat.simps round_dec_def div_half_even_def strip_zeros_def with_frac_def pad_zeros_def)
qed

lemma stod_1: "stod ''1'' = Some (double_of_int 1)"
proof -
  have "char_of (49::nat) = CHR ''1''" by (simp add: uchar_inj [symmetric])
  then show ?thesis using stod_show_int [of 1] by (simp add: show_int_def show_nat.simps digit_char_def)
qed

end
