(* ===== verification/DynVar.thy ===== *)
theory DynVar
  imports Double
begin

text \<open>
  dynamic_variable.h and dynamic_variable.cpp, lines 32 to 368: the tagged union
  \<open>DynamicVariable\<close>. The tag and the payload it selects are one datatype value, so a payload
  of the wrong kind cannot be read; copying is the identity and the moved-from side of a move is
  \<open>NIL\<close>. The JSON functions of the same file are in theory Json, its printers in theory Printers.
\<close>

datatype dv =
    NIL
  | STRING string
  | OBJECT "(string \<times> dv) list"
  | ARRAY "dv list"
  | NUMBER double
  | BOOL bool

section \<open>Construction and assignment\<close>

definition dv_copy :: "dv \<Rightarrow> dv" where
  "dv_copy other = other"

text \<open>Move construction and assignment: the new value and what is left behind.\<close>

definition dv_move :: "dv \<Rightarrow> dv \<times> dv" where
  "dv_move other = (other, NIL)"

text \<open>Assignment: \<open>self\<close> is the old value of the target, and the pair of a move assignment is the new
  value with what is left in the source. Self-assignment, which the code excludes, keeps the value.\<close>

definition dv_assign :: "dv \<Rightarrow> dv \<Rightarrow> dv" where
  "dv_assign self other = other"

definition dv_assign_move :: "dv \<Rightarrow> dv \<Rightarrow> dv \<times> dv" where
  "dv_assign_move self other = (other, NIL)"

definition dv_of_literal :: "string option \<Rightarrow> dv" where
  "dv_of_literal lit = (case lit of None \<Rightarrow> NIL | Some s \<Rightarrow> STRING s)"

text \<open>Assigning a \<open>const char*\<close> makes a string even of a null pointer, unlike the constructor.\<close>

definition dv_assign_literal :: "string option \<Rightarrow> dv" where
  "dv_assign_literal lit = STRING (case lit of None \<Rightarrow> [] | Some s \<Rightarrow> s)"

text \<open>The other constructors, each followed by the assignment from the same type, which clears the target
  before.\<close>

definition dv_of_string :: "string \<Rightarrow> dv" where
  "dv_of_string str = STRING str"

definition dv_of_double :: "double \<Rightarrow> dv" where
  "dv_of_double v = NUMBER v"

definition dv_of_int :: "int \<Rightarrow> dv" where
  "dv_of_int v = NUMBER (double_of_int v)"

definition dv_of_bool :: "bool \<Rightarrow> dv" where
  "dv_of_bool v = BOOL v"

definition dv_assign_string :: "dv \<Rightarrow> string \<Rightarrow> dv" where
  "dv_assign_string self str = STRING str"

definition dv_assign_double :: "dv \<Rightarrow> double \<Rightarrow> dv" where
  "dv_assign_double self v = NUMBER v"

definition dv_assign_int :: "dv \<Rightarrow> int \<Rightarrow> dv" where
  "dv_assign_int self v = NUMBER (double_of_int v)"

definition dv_assign_bool :: "dv \<Rightarrow> bool \<Rightarrow> dv" where
  "dv_assign_bool self v = BOOL v"

definition make_string :: "string \<Rightarrow> dv" where
  "make_string v = STRING v"

definition make_number :: "double \<Rightarrow> dv" where
  "make_number v = NUMBER v"

definition make_bool :: "bool \<Rightarrow> dv" where
  "make_bool v = BOOL v"

definition make_object :: dv where
  "make_object = OBJECT []"

definition make_array :: dv where
  "make_array = ARRAY []"

definition make_null :: dv where
  "make_null = NIL"

definition dv_of_list :: "dv list \<Rightarrow> dv" where
  "dv_of_list vs = ARRAY vs"

definition dv_clear :: "dv \<Rightarrow> dv" where
  "dv_clear v = NIL"

lemmas dv_make_defs = make_string_def make_number_def make_bool_def make_object_def
  make_array_def make_null_def

declare dv_make_defs [simp]

section \<open>Access\<close>

definition is_object :: "dv \<Rightarrow> bool" where
  "is_object v \<longleftrightarrow> (case v of OBJECT _ \<Rightarrow> True | _ \<Rightarrow> False)"

definition dv_members :: "dv \<Rightarrow> (string \<times> dv) list" where
  "dv_members v = (case v of OBJECT m \<Rightarrow> m | _ \<Rightarrow> [])"

text \<open>
  \<open>operator[]\<close>: a variable that is not an object becomes an empty one, then \<open>data.o[key]\<close> adds a
  default (\<open>NIL\<close>) entry if the key is new. \<open>dv_put key x v\<close> is \<open>v[key] = x\<close>.
\<close>

definition dv_subscript :: "string \<Rightarrow> dv \<Rightarrow> dv" where
  "dv_subscript key v =
     (case (if is_object v then v else make_object) of
        OBJECT m \<Rightarrow> OBJECT (emplace key NIL m)
      | w \<Rightarrow> w)"

definition dv_put :: "string \<Rightarrow> dv \<Rightarrow> dv \<Rightarrow> dv" where
  "dv_put key x v = OBJECT (AList.update key x (dv_members (dv_subscript key v)))"

definition dv_find :: "string \<Rightarrow> dv \<Rightarrow> dv option" where
  "dv_find key v = (case v of OBJECT m \<Rightarrow> map_of m key | _ \<Rightarrow> None)"

definition dv_push :: "dv \<Rightarrow> dv \<Rightarrow> dv" where
  "dv_push x v =
     (case v of
        ARRAY xs \<Rightarrow> ARRAY (xs @ [x])
      | NIL \<Rightarrow> ARRAY [x]
      | _ \<Rightarrow> v)"

definition dv_to_string :: "dv \<Rightarrow> string" where
  "dv_to_string v =
     (case v of
        STRING s \<Rightarrow> s
      | NUMBER d \<Rightarrow> to_string_double d
      | BOOL b \<Rightarrow> if b then ''true'' else ''false''
      | NIL \<Rightarrow> []
      | _ \<Rightarrow> [])"

definition dv_to_number :: "double \<Rightarrow> dv \<Rightarrow> double" where
  "dv_to_number def_value v = (case v of NUMBER d \<Rightarrow> d | _ \<Rightarrow> def_value)"

definition dv_to_bool :: "bool \<Rightarrow> dv \<Rightarrow> bool" where
  "dv_to_bool def_value v =
     (case v of BOOL b \<Rightarrow> b | NUMBER d \<Rightarrow> \<not> dbl_is_zero d | _ \<Rightarrow> def_value)"

text \<open>Well-formed values: every object is an unordered map, with one entry per key.\<close>

fun dv_ok :: "dv \<Rightarrow> bool" where
  "dv_ok (OBJECT m) \<longleftrightarrow> umap_ok m \<and> (\<forall>kv\<in>set m. dv_ok (snd kv))"
| "dv_ok (ARRAY vs) \<longleftrightarrow> (\<forall>v\<in>set vs. dv_ok v)"
| "dv_ok _ \<longleftrightarrow> True"

lemma is_object_OBJECT [simp]: "is_object (OBJECT m)"
  by (simp add: is_object_def)

lemma is_object_iff: "is_object v \<longleftrightarrow> (\<exists>m. v = OBJECT m)"
  by (cases v) (simp_all add: is_object_def)

lemma is_object_put [simp]: "is_object (dv_put k x v)"
  by (simp add: dv_put_def)

lemma update_emplace: "AList.update k x (emplace k y m) = AList.update k x m"
proof (cases "map_of m k")
  case None
  then have "k \<notin> fst ` set m" by (simp add: map_of_eq_None_iff)
  then show ?thesis by (induction m) (auto simp: emplace_def map_of_eq_None_iff)
next
  case (Some a)
  then show ?thesis by (simp add: emplace_def)
qed

lemma dv_put_OBJECT [simp]: "dv_put k x (OBJECT m) = OBJECT (AList.update k x m)"
  by (simp add: dv_put_def dv_subscript_def dv_members_def update_emplace)

lemma dv_put_other: "\<not> is_object v \<Longrightarrow> dv_put k x v = OBJECT [(k, x)]"
  by (cases v) (simp_all add: dv_put_def dv_subscript_def dv_members_def emplace_def is_object_def)

lemma dv_find_OBJECT [simp]: "dv_find k (OBJECT m) = map_of m k"
  by (simp add: dv_find_def)

lemma dv_find_put [simp]: "is_object v \<Longrightarrow> dv_find k' (dv_put k x v) = (if k' = k then Some x else dv_find k' v)"
  by (auto simp: is_object_iff)

lemma dv_find_put_other: "\<not> is_object v \<Longrightarrow> dv_find k' (dv_put k x v) = (if k' = k then Some x else None)"
  by (simp add: dv_put_other)

lemma dv_ok_put: "dv_ok v \<Longrightarrow> dv_ok x \<Longrightarrow> dv_ok (dv_put k x v)"
proof (cases "is_object v")
  case True
  moreover assume "dv_ok v" "dv_ok x"
  ultimately show ?thesis using set_update_le [of k x] by (fastforce simp: is_object_iff)
next
  case False
  moreover assume "dv_ok x"
  ultimately show ?thesis by (simp add: dv_put_other umap_ok_def)
qed

lemma dv_ok_push: "dv_ok v \<Longrightarrow> dv_ok x \<Longrightarrow> dv_ok (dv_push x v)"
  by (cases v) (auto simp: dv_push_def)

lemma dv_ok_find: "dv_ok v \<Longrightarrow> dv_find k v = Some x \<Longrightarrow> dv_ok x"
  by (cases v) (auto simp: dv_find_def dest!: map_of_SomeD)

section \<open>Stores with string keys\<close>

text \<open>
  The request's \<open>params\<close>, \<open>cookies\<close>, \<open>headers\<close> and \<open>env\<close> (objects) and the form fields
  (\<open>unordered_map<string, string>\<close>) are filled the same way: a loop of assignments to subscripts.
\<close>

locale keyed_store =
  fixes put :: "string \<Rightarrow> 'v \<Rightarrow> 's \<Rightarrow> 's"
    and get :: "string \<Rightarrow> 's \<Rightarrow> 'v option"
    and ok :: "'s \<Rightarrow> bool"
  assumes get_put: "ok s \<Longrightarrow> get k' (put k v s) = (if k' = k then Some v else get k' s)"
    and put_keeps_ok: "ok s \<Longrightarrow> ok (put k v s)"
begin

lemma ok_fold: "ok s \<Longrightarrow> ok (fold (\<lambda>(k, v). put k v) kvs s)"
  by (induction kvs arbitrary: s) (auto simp: put_keeps_ok)

lemma get_fold:
  "ok s \<Longrightarrow> get k (fold (\<lambda>(k, v). put k v) kvs s) =
     (case map_of (rev kvs) k of Some v \<Rightarrow> Some v | None \<Rightarrow> get k s)"
proof (induction kvs arbitrary: s)
  case Nil
  then show ?case by simp
next
  case (Cons kv kvs)
  obtain a b where kv: "kv = (a, b)" by force
  have "get k (fold (\<lambda>(k, v). put k v) kvs (put a b s)) =
      (case map_of (rev kvs) k of Some v \<Rightarrow> Some v | None \<Rightarrow> get k (put a b s))"
    using Cons.prems by (intro Cons.IH put_keeps_ok)
  then show ?case using Cons.prems
    by (auto simp: kv get_put map_add_def split: option.splits)
qed

lemma get_fold_distinct:
  assumes "ok s" "distinct (map fst kvs)"
  shows "get k (fold (\<lambda>(k, v). put k v) kvs s) =
     (case map_of kvs k of Some v \<Rightarrow> Some v | None \<Rightarrow> get k s)"
proof -
  have "map_of (rev kvs) = map_of kvs"
    using assms(2) by (intro map_of_inject_set [THEN iffD2]) (simp_all add: rev_map [symmetric])
  then show ?thesis using get_fold [OF assms(1)] by simp
qed

end

interpretation obj: keyed_store dv_put dv_find is_object
  by unfold_locales simp_all

interpretation umap: keyed_store AList.update "\<lambda>k m. map_of m k" "\<lambda>_. True"
  by unfold_locales simp_all

end
