(* ===== verification/Json.thy ===== *)
theory Json
  imports DynVar "HOL-Library.Sublist"
begin

text \<open>
  The JSON reader and writer of dynamic_variable.cpp, lines 370 to 801. A \<open>JsonCursor\<close> is the rest
  of the text; every reader returns its result (\<open>None\<close> for \<open>false\<close>) with the cursor it leaves,
  because \<open>parse_json\<close> reports the position at which reading failed. What a failing reader leaves in
  its out parameter is not modelled: no caller looks at it.
\<close>

type_synonym 'a reader = "string \<Rightarrow> 'a option \<times> string"

abbreviation quote_char :: char where "quote_char \<equiv> CHR 0x22"
abbreviation backslash :: char where "backslash \<equiv> CHR 0x5C"

section \<open>Reading\<close>

definition skip_ws :: "string \<Rightarrow> string" where
  "skip_ws s = dropWhile isspace s"

definition match_char :: "char \<Rightarrow> string \<Rightarrow> bool \<times> string" where
  "match_char ch s =
     (case skip_ws s of
        [] \<Rightarrow> (False, [])
      | c # cs \<Rightarrow> if c = ch then (True, cs) else (False, c # cs))"

definition hex_val :: "char \<Rightarrow> nat option" where
  "hex_val h =
     (if 48 \<le> uchar h \<and> uchar h \<le> 57 then Some (uchar h - 48)
      else if 97 \<le> uchar h \<and> uchar h \<le> 102 then Some (10 + uchar h - 97)
      else if 65 \<le> uchar h \<and> uchar h \<le> 70 then Some (10 + uchar h - 65)
      else None)"

text \<open>The loop over the four hexadecimal digits; the cursor moves before a digit is checked.\<close>

fun read_hex :: "nat \<Rightarrow> nat \<Rightarrow> nat reader" where
  "read_hex 0 v s = (Some v, s)"
| "read_hex (Suc k) v [] = (None, [])"
| "read_hex (Suc k) v (h # s) =
     (case hex_val h of None \<Rightarrow> (None, s) | Some d \<Rightarrow> read_hex k (16 * v + d) s)"

definition utf8_bytes :: "nat \<Rightarrow> string" where
  "utf8_bytes v =
     (if v \<le> 0x7F then [char_of v]
      else if v \<le> 0x7FF then [char_of (0xC0 OR drop_bit 6 v), char_of (0x80 OR (v AND 0x3F))]
      else if v \<le> 0xFFFF then
        [char_of (0xE0 OR drop_bit 12 v), char_of (0x80 OR (drop_bit 6 v AND 0x3F)),
         char_of (0x80 OR (v AND 0x3F))]
      else [])"

definition simple_escape :: "char \<Rightarrow> char option" where
  "simple_escape esc =
     (if esc = quote_char \<or> esc = backslash \<or> esc = CHR ''/'' then Some esc
      else if esc = CHR ''b'' then Some (CHR 0x08)
      else if esc = CHR ''f'' then Some (CHR 0x0C)
      else if esc = CHR ''n'' then Some (CHR 0x0A)
      else if esc = CHR ''r'' then Some (CHR 0x0D)
      else if esc = CHR ''t'' then Some (CHR 0x09)
      else None)"

text \<open>The \<open>switch\<close> on the character after a backslash: what it appends to \<open>out\<close>.\<close>

definition parse_escape :: "string reader" where
  "parse_escape cs =
     (case cs of
        [] \<Rightarrow> (None, [])
      | esc # ds \<Rightarrow>
          (case simple_escape esc of
             Some c \<Rightarrow> (Some [c], ds)
           | None \<Rightarrow>
               if esc = CHR ''u'' then
                 (if length ds < 4 then (None, ds)
                  else (case read_hex 4 0 ds of
                          (None, r) \<Rightarrow> (None, r)
                        | (Some v, r) \<Rightarrow> (Some (utf8_bytes v), r)))
               else (None, ds)))"

lemma read_hex_length: "length (snd (read_hex k v s)) \<le> length s"
  by (induction k v s rule: read_hex.induct) (auto split: option.splits)

lemma parse_escape_length: "parse_escape cs = (t, r) \<Longrightarrow> length r \<le> length cs"
proof (cases cs)
  case (Cons esc ds)
  moreover assume "parse_escape cs = (t, r)"
  moreover have "length (snd (read_hex 4 0 ds)) \<le> length ds" by (rule read_hex_length)
  ultimately show ?thesis
    by (auto simp: parse_escape_def split: option.splits if_splits prod.splits)
qed (simp add: parse_escape_def)

function parse_chars :: "string \<Rightarrow> string \<Rightarrow> string option \<times> string" where
  "parse_chars out [] = (None, [])"
| "parse_chars out (ch # cs) =
     (if ch = quote_char then (Some out, cs)
      else if ch = backslash then
        (case parse_escape cs of
           (None, r) \<Rightarrow> (None, r)
         | (Some t, r) \<Rightarrow> parse_chars (out @ t) r)
      else parse_chars (out @ [ch]) cs)"
  by pat_completeness auto
termination
  by (relation "measure (\<lambda>(out, s). length s)") (auto simp: le_imp_less_Suc dest!: parse_escape_length [OF sym])

definition parse_string :: "string reader" where
  "parse_string s =
     (case skip_ws s of
        [] \<Rightarrow> (None, [])
      | c # cs \<Rightarrow> if c \<noteq> quote_char then (None, c # cs) else parse_chars [] cs)"

fun scan_number :: "bool \<Rightarrow> string \<Rightarrow> string \<times> string" where
  "scan_number dot [] = ([], [])"
| "scan_number dot (c # cs) =
     (if isdigit c then (case scan_number dot cs of (a, r) \<Rightarrow> (c # a, r))
      else if c = CHR ''.'' \<and> \<not> dot then (case scan_number True cs of (a, r) \<Rightarrow> (c # a, r))
      else ([], c # cs))"

definition parse_number :: "double reader" where
  "parse_number s =
     (let s1 = skip_ws s;
          (sign, s2) = (case s1 of
              [] \<Rightarrow> ([], [])
            | c # cs \<Rightarrow> if c = CHR ''-'' \<or> c = CHR ''+'' then ([c], cs) else ([], s1));
          (body, r) = scan_number False s2;
          num = sign @ body
      in if num = [] then (None, r)
         else (case stod num of None \<Rightarrow> (None, r) | Some d \<Rightarrow> (Some d, r)))"

lemma scan_number_append: "fst (scan_number dot s) @ snd (scan_number dot s) = s"
  by (induction dot s rule: scan_number.induct) (auto split: prod.splits)

lemma parse_chars_length: "length (snd (parse_chars out s)) \<le> length s"
proof (induction out s rule: parse_chars.induct)
  case (2 out ch cs)
  obtain t r where e: "parse_escape cs = (t, r)" by force
  then have "length r \<le> length cs" by (rule parse_escape_length)
  with 2 e show ?case by (cases t) auto
qed simp

lemma skip_ws_length: "length (skip_ws s) \<le> length s"
  by (simp add: skip_ws_def length_dropWhile_le)

lemma match_char_True: "match_char ch s = (True, r) \<Longrightarrow> length r < length s"
  using skip_ws_length [of s] by (auto simp: match_char_def split: list.splits if_splits)

lemma match_char_length: "match_char ch s = (b, r) \<Longrightarrow> length r \<le> length s"
proof (cases "skip_ws s")
  case (Cons c cs)
  then have "Suc (length cs) \<le> length s" using skip_ws_length [of s] by simp
  moreover assume "match_char ch s = (b, r)"
  ultimately show ?thesis by (cases "c = ch") (auto simp: match_char_def Cons)
qed (simp add: match_char_def)

lemma parse_string_Some: "parse_string s = (Some t, r) \<Longrightarrow> length r < length s"
  using skip_ws_length [of s] parse_chars_length
  by (auto simp: parse_string_def split: list.splits if_splits)
    (metis Suc_le_lessD le_trans not_less_eq_eq snd_conv)

lemma parse_number_Some: "parse_number s = (Some d, r) \<Longrightarrow> length r < length s"
proof -
  assume p: "parse_number s = (Some d, r)"
  define s1 where "s1 = skip_ws s"
  define ss where "ss = (case s1 of [] \<Rightarrow> ([], [])
              | c # cs \<Rightarrow> if c = CHR ''-'' \<or> c = CHR ''+'' then ([c], cs) else ([], s1))"
  obtain sign s2 where ss2: "ss = (sign, s2)" by force
  obtain body r2 where b: "scan_number False s2 = (body, r2)" by force
  have s1: "s1 = sign @ s2" using ss2 by (auto simp: ss_def split: list.splits if_splits)
  have s2: "s2 = body @ r2" using scan_number_append [of False s2] b by simp
  from p have "sign @ body \<noteq> []" and "r = r2"
    using ss2 b by (auto simp: parse_number_def Let_def s1_def [symmetric] ss_def [symmetric]
        split: if_splits option.splits)
  then have "length r < length s1" using s1 s2 by auto
  then show ?thesis using skip_ws_length [of s] by (simp add: s1_def)
qed

text \<open>
  \<open>parse_value\<close>, \<open>parse_array\<close> and \<open>parse_object\<close> with the bodies of the two \<open>while (true)\<close> loops.
\<close>

function (sequential)
  parse_value :: "dv reader" and
  parse_array :: "dv reader" and
  parse_elements :: "dv list \<Rightarrow> dv reader" and
  parse_object :: "dv reader" and
  parse_members :: "(string \<times> dv) list \<Rightarrow> dv reader"
where
  "parse_value s =
     (case skip_ws s of
        [] \<Rightarrow> (None, [])
      | ch # cs \<Rightarrow>
          let s1 = ch # cs in
          if ch = quote_char then
            (case parse_string s1 of (None, r) \<Rightarrow> (None, r) | (Some tmp, r) \<Rightarrow> (Some (make_string tmp), r))
          else if ch = CHR ''{'' then parse_object s1
          else if ch = CHR ''['' then parse_array s1
          else if ch = CHR ''t'' \<and> take 4 s1 = ''true'' then (Some (make_bool True), drop 4 s1)
          else if ch = CHR ''f'' \<and> take 5 s1 = ''false'' then (Some (make_bool False), drop 5 s1)
          else if ch = CHR ''n'' \<and> take 4 s1 = ''null'' then (Some make_null, drop 4 s1)
          else (case parse_number s1 of
                  (None, r) \<Rightarrow> (None, r)
                | (Some num, r) \<Rightarrow> (Some (make_number num), r)))"
| "parse_array s =
     (case match_char (CHR ''['') s of
        (False, r) \<Rightarrow> (None, r)
      | (True, r) \<Rightarrow>
          (case match_char (CHR '']'') (skip_ws r) of
             (True, r') \<Rightarrow> (Some (ARRAY []), r')
           | (False, r') \<Rightarrow> parse_elements [] r'))"
| "parse_elements acc s =
     (case parse_value s of
        (None, r) \<Rightarrow> (None, r)
      | (Some elem, r) \<Rightarrow>
          (case match_char (CHR '']'') (skip_ws r) of
             (True, r1) \<Rightarrow> (Some (ARRAY (acc @ [elem])), r1)
           | (False, r1) \<Rightarrow>
               (case match_char (CHR '','') r1 of
                  (False, r2) \<Rightarrow> (None, r2)
                | (True, r2) \<Rightarrow> parse_elements (acc @ [elem]) r2)))"
| "parse_object s =
     (case match_char (CHR ''{'') s of
        (False, r) \<Rightarrow> (None, r)
      | (True, r) \<Rightarrow>
          (case match_char (CHR ''}'') (skip_ws r) of
             (True, r') \<Rightarrow> (Some (OBJECT []), r')
           | (False, r') \<Rightarrow> parse_members [] r'))"
| "parse_members acc s =
     (case parse_string s of
        (None, r) \<Rightarrow> (None, r)
      | (Some key, r) \<Rightarrow>
          (case match_char (CHR '':'') r of
             (False, r1) \<Rightarrow> (None, r1)
           | (True, r1) \<Rightarrow>
               (case parse_value r1 of
                  (None, r2) \<Rightarrow> (None, r2)
                | (Some val, r2) \<Rightarrow>
                    (case match_char (CHR ''}'') (skip_ws r2) of
                       (True, r3) \<Rightarrow> (Some (OBJECT (emplace key val acc)), r3)
                     | (False, r3) \<Rightarrow>
                         (case match_char (CHR '','') r3 of
                            (False, r4) \<Rightarrow> (None, r4)
                          | (True, r4) \<Rightarrow> parse_members (emplace key val acc) r4)))))"
  by pat_completeness auto

abbreviation json_dom where
  "json_dom \<equiv> parse_value_parse_array_parse_elements_parse_object_parse_members_dom"

lemma skip_ws_Cons: "skip_ws s = c # cs \<Longrightarrow> Suc (length cs) \<le> length s"
  using skip_ws_length [of s] by simp

lemma match_skip_True: "match_char ch (skip_ws r) = (True, r') \<Longrightarrow> length r' < length r"
  using match_char_True [of ch "skip_ws r" r'] skip_ws_length [of r] by simp

lemma match_skip_length: "match_char ch (skip_ws r) = (b, r') \<Longrightarrow> length r' \<le> length r"
  using match_char_length [of ch "skip_ws r" b r'] skip_ws_length [of r] by simp

lemma parse_shrinks:
  "json_dom (Inl (Inl s)) \<Longrightarrow> \<forall>v r. parse_value s = (Some v, r) \<longrightarrow> length r < length s"
  "json_dom (Inl (Inr s)) \<Longrightarrow> \<forall>v r. parse_array s = (Some v, r) \<longrightarrow> length r < length s"
  "json_dom (Inr (Inl (vs, s))) \<Longrightarrow> \<forall>v r. parse_elements vs s = (Some v, r) \<longrightarrow> length r < length s"
  "json_dom (Inr (Inr (Inl s))) \<Longrightarrow> \<forall>v r. parse_object s = (Some v, r) \<longrightarrow> length r < length s"
  "json_dom (Inr (Inr (Inr (ms, s)))) \<Longrightarrow> \<forall>v r. parse_members ms s = (Some v, r) \<longrightarrow> length r < length s"
proof (induction s and s and vs s and s and ms s
    rule: parse_value_parse_array_parse_elements_parse_object_parse_members.pinduct)
  case (1 s)
  show ?case
  proof (intro allI impI)
    fix v r assume p: "parse_value s = (Some v, r)"
    show "length r < length s"
    proof (cases "skip_ws s")
      case Nil
      with p show ?thesis by (simp add: parse_value.psimps [OF 1(1)])
    next
      case (Cons ch cs)
      have le: "Suc (length cs) \<le> length s" using Cons by (rule skip_ws_Cons)
      consider (str) "ch = quote_char" | (obj) "ch \<noteq> quote_char" "ch = CHR ''{''"
        | (arr) "ch \<noteq> quote_char" "ch \<noteq> CHR ''{''" "ch = CHR ''[''"
        | (lit) "ch \<noteq> quote_char" "ch \<noteq> CHR ''{''" "ch \<noteq> CHR ''[''" by blast
      then show ?thesis
      proof cases
        case str
        with p Cons le show ?thesis
          by (auto simp: parse_value.psimps [OF 1(1)] split: prod.splits option.splits
              dest!: parse_string_Some)
      next
        case obj
        with p Cons have "parse_object (ch # cs) = (Some v, r)"
          by (simp add: parse_value.psimps [OF 1(1)])
        with 1(2) [OF Cons refl obj] le show ?thesis by fastforce
      next
        case arr
        with p Cons have "parse_array (ch # cs) = (Some v, r)"
          by (simp add: parse_value.psimps [OF 1(1)])
        with 1(3) [OF Cons refl arr] le show ?thesis by fastforce
      next
        case lit
        with p Cons le show ?thesis
          by (auto simp: parse_value.psimps [OF 1(1)] Let_def split: prod.splits option.splits if_splits
              dest!: parse_number_Some)
      qed
    qed
  qed
next
  case (2 s)
  show ?case
  proof (intro allI impI)
    fix v r assume "parse_array s = (Some v, r)"
    with 2(2) show "length r < length s"
      by (fastforce simp: parse_array.psimps [OF 2(1)] split: prod.splits bool.splits
          dest!: match_char_True match_skip_length)
  qed
next
  case (3 acc s)
  show ?case
  proof (intro allI impI)
    fix v r assume "parse_elements acc s = (Some v, r)"
    with 3(2,3) show "length r < length s"
      by (fastforce simp: parse_elements.psimps [OF 3(1)] split: prod.splits bool.splits option.splits
          dest: match_char_True match_skip_length match_skip_True)
  qed
next
  case (4 s)
  show ?case
  proof (intro allI impI)
    fix v r assume "parse_object s = (Some v, r)"
    with 4(2) show "length r < length s"
      by (fastforce simp: parse_object.psimps [OF 4(1)] split: prod.splits bool.splits
          dest!: match_char_True match_skip_length)
  qed
next
  case (5 acc s)
  show ?case
  proof (intro allI impI)
    fix v r assume "parse_members acc s = (Some v, r)"
    with 5(2,3) show "length r < length s"
      by (fastforce simp: parse_members.psimps [OF 5(1)] split: prod.splits bool.splits option.splits
          dest: match_char_True match_skip_length match_skip_True parse_string_Some)
  qed
qed

lemma match_true_sym: "(x, r) = match_char ch s \<Longrightarrow> x \<Longrightarrow> length r < length s"
  using match_char_True [of ch s r] by simp

lemma match_false_skip_sym: "(x, r) = match_char ch (skip_ws s) \<Longrightarrow> length r \<le> length s"
  using match_skip_length [of ch s x r] by simp

termination parse_value
  by (relation "measure (\<lambda>x. case x of
        Inl (Inl s) \<Rightarrow> 3 * length s + 1
      | Inl (Inr s) \<Rightarrow> 3 * length s
      | Inr (Inl (_, s)) \<Rightarrow> 3 * length s + 2
      | Inr (Inr (Inl s)) \<Rightarrow> 3 * length s
      | Inr (Inr (Inr (_, s))) \<Rightarrow> 3 * length s + 2)")
    (auto dest: skip_ws_Cons dest!: parse_string_Some [OF sym] parse_shrinks [rule_format, OF _ sym]
      match_false_skip_sym match_true_sym)

text \<open>The third component is \<open>*error_pos\<close>, written only when reading fails.\<close>

definition parse_json :: "string \<Rightarrow> dv option \<times> nat option" where
  "parse_json text =
     (case parse_value text of
        (None, r) \<Rightarrow> (None, Some (length text - length r))
      | (Some v, r) \<Rightarrow>
          (let r' = skip_ws r
           in if r' \<noteq> [] then (None, Some (length text - length r')) else (Some v, None)))"

section \<open>Writing\<close>

definition hex_lower :: "nat \<Rightarrow> char" where
  "hex_lower d = (if d < 10 then char_of (48 + d) else char_of (87 + d))"

definition hex4 :: "nat \<Rightarrow> string" where
  "hex4 n = map (\<lambda>k. hex_lower (n div 16 ^ k mod 16)) [3, 2, 1, 0]"

definition escape_char :: "char \<Rightarrow> string" where
  "escape_char ch =
     (if ch = quote_char then [backslash, quote_char]
      else if ch = backslash then [backslash, backslash]
      else if ch = CHR 0x08 then [backslash, CHR ''b'']
      else if ch = CHR 0x0C then [backslash, CHR ''f'']
      else if ch = CHR 0x0A then [backslash, CHR ''n'']
      else if ch = CHR 0x0D then [backslash, CHR ''r'']
      else if ch = CHR 0x09 then [backslash, CHR ''t'']
      else if uchar ch < 0x20 then backslash # CHR ''u'' # hex4 (uchar ch)
      else [ch])"

definition json_escape :: "string \<Rightarrow> string" where
  "json_escape s = quote_char # concat (map escape_char s) @ [quote_char]"

definition indent_fn :: "bool \<Rightarrow> nat \<Rightarrow> nat \<Rightarrow> string" where
  "indent_fn pretty indent d = (if pretty then replicate (d * indent) (CHR '' '') else [])"

definition newline :: "bool \<Rightarrow> string" where
  "newline pretty = (if pretty then [CHR 0x0A] else [])"

fun to_json_inner :: "bool \<Rightarrow> nat \<Rightarrow> nat \<Rightarrow> dv \<Rightarrow> string"
  and json_elements :: "bool \<Rightarrow> nat \<Rightarrow> nat \<Rightarrow> dv list \<Rightarrow> string"
  and json_members :: "bool \<Rightarrow> nat \<Rightarrow> nat \<Rightarrow> (string \<times> dv) list \<Rightarrow> string" where
  "to_json_inner p i d NIL = ''null''"
| "to_json_inner p i d (BOOL b) = (if b then ''true'' else ''false'')"
| "to_json_inner p i d (NUMBER x) = fmt_g x"
| "to_json_inner p i d (STRING s) = json_escape s"
| "to_json_inner p i d (ARRAY vs) =
     [CHR ''[''] @ (if vs = [] then [] else newline p @ json_elements p i d vs @ indent_fn p i d) @ [CHR '']'']"
| "to_json_inner p i d (OBJECT m) =
     [CHR ''{''] @ (if m = [] then [] else newline p @ json_members p i d m @ indent_fn p i d) @ [CHR ''}'']"
| "json_elements p i d [] = []"
| "json_elements p i d (v # vs) =
     indent_fn p i (d + 1) @ to_json_inner p i (d + 1) v @ (if vs \<noteq> [] then '','' else []) @ newline p @
     json_elements p i d vs"
| "json_members p i d [] = []"
| "json_members p i d (kv # m) =
     indent_fn p i (d + 1) @ json_escape (fst kv) @ '':'' @ (if p then '' '' else []) @
     to_json_inner p i (d + 1) (snd kv) @ (if m \<noteq> [] then '','' else []) @ newline p @
     json_members p i d m"

definition to_json :: "dv \<Rightarrow> bool \<Rightarrow> nat \<Rightarrow> string" where
  "to_json v pretty indent = to_json_inner pretty indent 0 v"

section \<open>Reading what was written\<close>

text \<open>Strings: every byte string survives, control characters and bytes above 127 included.\<close>

lemma hex_val_lower: "d < 16 \<Longrightarrow> hex_val (hex_lower d) = Some d"
  by (auto simp: hex_val_def hex_lower_def)

lemma read_hex_hex4: "n < 65536 \<Longrightarrow> read_hex 4 0 (hex4 n @ rest) = (Some n, rest)"
proof -
  assume "n < 65536"
  have "n div 256 div 16 < 16"
    using \<open>n < 65536\<close> by (simp add: div_mult2_eq [symmetric] less_mult_imp_div_less)
  then have d: "n div 4096 mod 16 = n div 256 div 16" by (simp add: div_mult2_eq [symmetric])
  have e: "n div 256 = n div 16 div 16" by (simp add: div_mult2_eq [symmetric])
  have "16 * (16 * (16 * (n div 4096 mod 16) + n div 256 mod 16) + n div 16 mod 16) + n mod 16 = n"
    by (simp only: d mult_div_mod_eq) (simp only: e mult_div_mod_eq)
  moreover have p16: "16 ^ 3 = (4096::nat)" "16 ^ 2 = (256::nat)" "16 ^ 1 = (16::nat)" "16 ^ 0 = (1::nat)"
    by simp_all
  ultimately have v: "16 * (16 * (16 * (16 * 0 + n div 16 ^ 3 mod 16) + n div 16 ^ 2 mod 16) + n div 16 ^ 1 mod 16)
      + n div 16 ^ 0 mod 16 = n"
    by (simp only: p16 div_by_1 mult_0_right add_0)
  have s4: "(4::nat) = Suc (Suc (Suc (Suc 0)))" by simp
  show ?thesis
    unfolding hex4_def s4 by (simp only: list.map append.simps read_hex.simps hex_val_lower
        mod_less_divisor zero_less_numeral option.case v)
qed

lemma parse_chars_escape:
  "parse_chars out (escape_char c @ rest) = parse_chars (out @ [c]) rest"
proof -
  have ctl: "parse_escape (CHR ''u'' # hex4 (uchar c) @ rest) = (Some [c], rest)" if "uchar c < 32"
  proof -
    have "read_hex 4 0 (hex4 (uchar c) @ rest) = (Some (uchar c), rest)"
      using that by (intro read_hex_hex4) simp
    moreover have "utf8_bytes (uchar c) = [c]" using that by (simp add: utf8_bytes_def)
    moreover have "\<not> length (hex4 (uchar c) @ rest) < 4" by (simp add: hex4_def)
    ultimately show ?thesis by (simp add: parse_escape_def simple_escape_def)
  qed
  show ?thesis
    by (simp add: escape_char_def ctl) (simp add: parse_escape_def simple_escape_def)
qed

lemma parse_chars_concat:
  "parse_chars out (concat (map escape_char s) @ quote_char # rest) = (Some (out @ s), rest)"
  by (induction s arbitrary: out) (simp_all add: parse_chars_escape)

lemma skip_ws_quote: "skip_ws (quote_char # s) = quote_char # s"
  by (simp add: skip_ws_def isspace_def)

lemma parse_string_escape: "parse_string (json_escape s @ rest) = (Some s, rest)"
  by (simp add: parse_string_def json_escape_def skip_ws_quote parse_chars_concat)

text \<open>
  Numbers: a number survives when its printed form is read back as the same double. That is so for
  the integers below a million in absolute value; what is printed with an exponent is not read
  back at all, because \<open>parse_number\<close> stops at the \<open>e\<close>.
\<close>

definition number_ok :: "double \<Rightarrow> bool" where
  "number_ok d \<longleftrightarrow> parse_number (fmt_g d) = (Some d, []) \<and> skip_ws (fmt_g d) = fmt_g d"

fun json_ok :: "dv \<Rightarrow> bool" where
  "json_ok (NUMBER d) \<longleftrightarrow> number_ok d"
| "json_ok (ARRAY vs) \<longleftrightarrow> (\<forall>v\<in>set vs. json_ok v)"
| "json_ok (OBJECT m) \<longleftrightarrow> distinct (map fst m) \<and> (\<forall>kv\<in>set m. json_ok (snd kv))"
| "json_ok _ \<longleftrightarrow> True"

text \<open>What may follow a number without being taken for a part of it.\<close>

definition stops :: "string \<Rightarrow> bool" where
  "stops rest \<longleftrightarrow> (case rest of [] \<Rightarrow> True | c # _ \<Rightarrow> \<not> isdigit c \<and> c \<noteq> CHR ''.'')"

lemma stops_simps [simp]: "stops []" "stops (c # cs) \<longleftrightarrow> \<not> isdigit c \<and> c \<noteq> CHR ''.''"
  by (simp_all add: stops_def)

lemma scan_number_append_stops:
  "scan_number dot s = (s, []) \<Longrightarrow> stops rest \<Longrightarrow> scan_number dot (s @ rest) = (s, rest)"
proof (induction dot s rule: scan_number.induct)
  case (1 dot)
  then show ?case by (cases rest) auto
next
  case (2 dot c cs)
  then show ?case by (auto split: if_splits prod.splits)
qed

lemma parse_number_append:
  assumes "parse_number s = (Some d, [])" "skip_ws s = s" "stops rest"
  shows "parse_number (s @ rest) = (Some d, rest)"
proof -
  define split where "split t = (case t of [] \<Rightarrow> ([], [])
      | c # cs \<Rightarrow> if c = CHR ''-'' \<or> c = CHR ''+'' then ([c], cs) else ([], t))" for t :: string
  obtain sign s2 where sp: "split s = (sign, s2)" by force
  obtain body r where sc: "scan_number False s2 = (body, r)" by force
  have p: "sign @ body \<noteq> []" "stod (sign @ body) = Some d" "r = []"
    using assms(1) sp sc
    by (auto simp: parse_number_def assms(2) split_def [symmetric] Let_def split: if_splits option.splits)
  have s2: "s2 = body" using scan_number_append [of False s2] sc p(3) by simp
  have ne: "s \<noteq> []" using sp p(1) s2 by (auto simp: split_def)
  then obtain c cs where c: "s = c # cs" by (cases s) auto
  have ws: "skip_ws (s @ rest) = s @ rest"
  proof -
    have "\<not> isspace c"
    proof
      assume "isspace c"
      then have "skip_ws s = skip_ws cs" by (simp add: c skip_ws_def)
      then have "length (skip_ws s) \<le> length cs" by (simp only: skip_ws_length)
      then have "length s \<le> length cs" by (simp only: assms(2))
      then show False by (simp add: c)
    qed
    then show ?thesis by (simp add: c skip_ws_def)
  qed
  have "split (s @ rest) = (sign, s2 @ rest)" using sp by (auto simp: c split_def)
  moreover have "scan_number False (s2 @ rest) = (body, rest)"
    using scan_number_append_stops [of False s2 rest] sc s2 p(3) assms(3) by simp
  ultimately show ?thesis using p(1,2)
    by (simp add: parse_number_def ws split_def [symmetric] Let_def)
qed

lemma number_ok_head:
  assumes "number_ok d"
  obtains c cs where "fmt_g d = c # cs" "isdigit c \<or> c = CHR ''.'' \<or> c = CHR ''-'' \<or> c = CHR ''+''"
proof -
  have p: "parse_number (fmt_g d) = (Some d, [])" and w: "skip_ws (fmt_g d) = fmt_g d"
    using assms by (simp_all add: number_ok_def)
  obtain c cs where c: "fmt_g d = c # cs"
    using p by (cases "fmt_g d") (simp_all add: parse_number_def skip_ws_def)
  have "isdigit c \<or> c = CHR ''.'' \<or> c = CHR ''-'' \<or> c = CHR ''+''"
    using p w by (auto simp: c parse_number_def Let_def split: if_splits option.splits prod.splits)
  with c that show thesis by blast
qed

lemma isspace_no_digit: "isspace c \<Longrightarrow> \<not> isdigit c \<and> c \<noteq> CHR ''.'' \<and> c \<noteq> CHR '','' \<and> c \<noteq> CHR '']'' \<and> c \<noteq> CHR ''}''"
  by (auto simp: isspace_def isdigit_def)

lemma skip_ws_append: "(\<forall>c\<in>set w. isspace c) \<Longrightarrow> skip_ws (w @ s) = skip_ws s"
  by (simp add: skip_ws_def dropWhile_append2)

lemma skip_ws_nonspace: "\<not> isspace c \<Longrightarrow> skip_ws (c # s) = c # s"
  by (simp add: skip_ws_def)

lemma skip_ws_idem [simp]: "skip_ws (skip_ws s) = skip_ws s"
  by (simp add: skip_ws_def)

lemma match_char_skip [simp]: "match_char c (skip_ws s) = match_char c s"
  by (simp add: match_char_def)

lemma parse_value_skip [simp]: "parse_value (skip_ws s) = parse_value s"
  by (simp add: parse_value.simps)

lemma parse_elements_skip [simp]: "parse_elements acc (skip_ws s) = parse_elements acc s"
  by (simp add: parse_elements.simps [of acc s] parse_elements.simps [of acc "skip_ws s"])

lemma parse_string_skip [simp]: "parse_string (skip_ws s) = parse_string s"
  by (simp add: parse_string_def)

lemma parse_members_skip [simp]: "parse_members acc (skip_ws s) = parse_members acc s"
  by (simp add: parse_members.simps [of acc s] parse_members.simps [of acc "skip_ws s"])

lemma indent_spaces: "\<forall>c\<in>set (indent_fn p i d). isspace c" "\<forall>c\<in>set (newline p). isspace c"
  by (auto simp: indent_fn_def newline_def isspace_def)

declare parse_value.simps [simp del] parse_elements.simps [simp del] parse_members.simps [simp del]
  parse_array.simps [simp del] parse_object.simps [simp del]

lemma match_char_ws: "(\<forall>c\<in>set w. isspace c) \<Longrightarrow> match_char ch (w @ s) = match_char ch s"
  by (simp add: match_char_def skip_ws_append)

lemma parse_value_ws: "(\<forall>c\<in>set w. isspace c) \<Longrightarrow> parse_value (w @ s) = parse_value s"
  by (metis parse_value_skip skip_ws_append)

lemma parse_string_ws: "(\<forall>c\<in>set w. isspace c) \<Longrightarrow> parse_string (w @ s) = parse_string s"
  by (metis parse_string_skip skip_ws_append)

lemma match_char_hit: "\<not> isspace c \<Longrightarrow> match_char c (c # s) = (True, s)"
  by (simp add: match_char_def skip_ws_nonspace)

lemma match_char_miss: "\<not> isspace c \<Longrightarrow> c \<noteq> ch \<Longrightarrow> match_char ch (c # s) = (False, c # s)"
  by (simp add: match_char_def skip_ws_nonspace)

lemma not_space_simps [simp]:
  "\<not> isspace (CHR ''['')" "\<not> isspace (CHR '']'')" "\<not> isspace (CHR ''{'')" "\<not> isspace (CHR ''}'')"
  "\<not> isspace (CHR '','')" "\<not> isspace (CHR '':'')" "\<not> isspace quote_char" "\<not> isspace (CHR ''n'')"
  "\<not> isspace (CHR ''t'')" "\<not> isspace (CHR ''f'')" "isspace (CHR '' '')"
  by (simp_all add: isspace_def)

text \<open>The first character of a value's text is neither a closing bracket nor a space.\<close>

lemma to_json_head:
  assumes "json_ok v"
  obtains c cs where "to_json_inner p i d v = c # cs" "\<not> isspace c" "c \<noteq> CHR '']''" "c \<noteq> CHR ''}''"
proof (cases v)
  case (NUMBER x)
  with assms obtain c cs where "fmt_g x = c # cs" "isdigit c \<or> c = CHR ''.'' \<or> c = CHR ''-'' \<or> c = CHR ''+''"
    by (auto elim: number_ok_head)
  moreover from this(2) have "c \<noteq> CHR '']''" "c \<noteq> CHR ''}''" "\<not> isspace c"
    by (auto simp: isspace_def isdigit_def)
  ultimately show ?thesis using that NUMBER by simp
next
  case (BOOL b)
  then show ?thesis using that by (cases b) (auto simp: isspace_def)
qed (use that in \<open>auto simp: json_escape_def isspace_def\<close>)

lemma match_close_miss:
  assumes "json_ok v" "\<forall>c\<in>set w. isspace c" "ch = CHR '']'' \<or> ch = CHR ''}''"
  shows "match_char ch (w @ to_json_inner p i d v @ rest) = (False, to_json_inner p i d v @ rest)"
proof -
  from assms(1) obtain c cs where c: "to_json_inner p i d v = c # cs" "\<not> isspace c" "c \<noteq> CHR '']''" "c \<noteq> CHR ''}''"
    by (rule to_json_head)
  then show ?thesis using assms(2,3) by (auto simp: match_char_ws match_char_miss)
qed

lemma parse_number_value:
  assumes "number_ok d" "stops rest"
  shows "parse_value (fmt_g d @ rest) = (Some (NUMBER d), rest)"
proof -
  from assms(1) obtain c cs where c: "fmt_g d = c # cs"
    "isdigit c \<or> c = CHR ''.'' \<or> c = CHR ''-'' \<or> c = CHR ''+''" by (rule number_ok_head)
  have n: "parse_number (fmt_g d @ rest) = (Some d, rest)"
    using assms by (intro parse_number_append) (simp_all add: number_ok_def)
  have sp: "skip_ws (fmt_g d @ rest) = fmt_g d @ rest"
    using c by (auto simp: skip_ws_def isspace_def isdigit_def)
  have ne: "c \<noteq> quote_char" "c \<noteq> CHR ''{''" "c \<noteq> CHR ''[''" "c \<noteq> CHR ''t''" "c \<noteq> CHR ''f''" "c \<noteq> CHR ''n''"
    using c(2) by (auto simp: isdigit_def)
  show ?thesis
    unfolding parse_value.simps sp using n ne by (simp add: c(1) Let_def)
qed

lemma parse_literals:
  "parse_value (''null'' @ rest) = (Some NIL, rest)"
  "parse_value (''true'' @ rest) = (Some (BOOL True), rest)"
  "parse_value (''false'' @ rest) = (Some (BOOL False), rest)"
  by (simp_all add: parse_value.simps skip_ws_nonspace)

lemma parse_value_string: "parse_value (json_escape s @ rest) = (Some (STRING s), rest)"
  using parse_string_escape [of s rest] by (simp add: parse_value.simps json_escape_def skip_ws_quote)

lemma stops_ws: "(\<forall>c\<in>set w. isspace c) \<Longrightarrow> stops rest \<Longrightarrow> stops (w @ rest)"
  by (cases w) (use isspace_no_digit in auto)

lemma stops_bracket [simp]: "stops (CHR '']'' # rest)" "stops (CHR ''}'' # rest)" "stops (CHR '','' # rest)"
  by (simp_all add: isdigit_def)

lemma spaces_append: "(\<forall>c\<in>set v. isspace c) \<Longrightarrow> (\<forall>c\<in>set w. isspace c) \<Longrightarrow> \<forall>c\<in>set (v @ w). isspace c"
  by auto

lemma match_ws_hit:
  "(\<forall>c\<in>set w. isspace c) \<Longrightarrow> \<not> isspace c \<Longrightarrow> match_char c (w @ c # s) = (True, s)"
  by (simp add: match_char_ws match_char_hit)

lemma read_back:
  "json_ok v \<Longrightarrow> stops rest \<Longrightarrow> parse_value (to_json_inner p i d v @ rest) = (Some v, rest)"
  "vs \<noteq> [] \<Longrightarrow> (\<forall>v\<in>set vs. json_ok v) \<Longrightarrow> (\<forall>c\<in>set w. isspace c) \<Longrightarrow>
     parse_elements acc (json_elements p i d vs @ w @ CHR '']'' # rest) = (Some (ARRAY (acc @ vs)), rest)"
  "m \<noteq> [] \<Longrightarrow> (\<forall>kv\<in>set m. json_ok (snd kv)) \<Longrightarrow> distinct (map fst (macc @ m)) \<Longrightarrow> (\<forall>c\<in>set w. isspace c) \<Longrightarrow>
     parse_members macc (json_members p i d m @ w @ CHR ''}'' # rest) = (Some (OBJECT (macc @ m)), rest)"
proof (induction p i d v and p i d vs and p i d m arbitrary: rest and acc w rest and macc w rest
    rule: to_json_inner_json_elements_json_members.induct)
  case (1 p i d)
  then show ?case using parse_literals(1) [of rest] by simp
next
  case (2 p i d b)
  then show ?case using parse_literals(2,3) [of rest] by simp
next
  case (3 p i d x)
  then show ?case by (simp add: parse_number_value)
next
  case (4 p i d s)
  then show ?case by (simp add: parse_value_string)
next
  case (5 p i d vs)
  let ?body = "json_elements p i d vs @ indent_fn p i d @ CHR '']'' # rest"
  have top: "parse_value (CHR ''['' # t) = parse_array (CHR ''['' # t)" for t
    by (simp add: parse_value.simps skip_ws_nonspace)
  show ?case
  proof (cases vs)
    case Nil
    then show ?thesis by (simp add: top parse_array.simps match_char_hit)
  next
    case (Cons v vs')
    have "match_char (CHR '']'') (newline p @ ?body) =
        (False, to_json_inner p i (d + 1) v @ (if vs' \<noteq> [] then '','' else []) @ newline p @
          json_elements p i d vs' @ indent_fn p i d @ CHR '']'' # rest)"
      using match_close_miss [of v "newline p @ indent_fn p i (d + 1)" "CHR '']''" p i "d + 1"] 5(2) Cons
        spaces_append [OF indent_spaces(2) indent_spaces(1)] by simp
    moreover have "parse_elements [] (to_json_inner p i (d + 1) v @ (if vs' \<noteq> [] then '','' else []) @ newline p @
          json_elements p i d vs' @ indent_fn p i d @ CHR '']'' # rest) = parse_elements [] ?body"
    proof -
      have "parse_value (indent_fn p i (d + 1) @ t) = parse_value t" for t
        using indent_spaces(1) by (rule parse_value_ws)
      then show ?thesis by (simp add: Cons parse_elements.simps)
    qed
    moreover have "parse_elements [] ?body = (Some (ARRAY vs), rest)"
      using 5(1) [of "indent_fn p i d" "[]" rest] 5(2) Cons indent_spaces(1) by simp
    ultimately show ?thesis using Cons by (simp add: top parse_array.simps match_char_hit)
  qed
next
  case (8 p i d v vs)
  have v: "json_ok v" using 8(4) by simp
  show ?case
  proof (cases vs)
    case Nil
    have "parse_value (to_json_inner p i (d + 1) v @ newline p @ w @ CHR '']'' # rest)
        = (Some v, newline p @ w @ CHR '']'' # rest)"
      using 8(1) [of "newline p @ w @ CHR '']'' # rest"] v
        stops_ws [OF spaces_append [OF indent_spaces(2) 8(5)] stops_bracket(1)] by simp
    moreover have "match_char (CHR '']'') (newline p @ w @ CHR '']'' # rest) = (True, rest)"
      using match_ws_hit [OF spaces_append [OF indent_spaces(2) 8(5)]] by simp
    ultimately show ?thesis
      using parse_value_ws [OF indent_spaces(1)] by (simp add: Nil parse_elements.simps)
  next
    case (Cons v' vs')
    let ?r = "newline p @ json_elements p i d vs @ w @ CHR '']'' # rest"
    have "parse_value (to_json_inner p i (d + 1) v @ CHR '','' # ?r) = (Some v, CHR '','' # ?r)"
      using 8(1) [of "CHR '','' # ?r"] v by (simp add: isdigit_def)
    moreover have "match_char (CHR '']'') (CHR '','' # ?r) = (False, CHR '','' # ?r)"
      by (simp add: match_char_miss)
    moreover have "match_char (CHR '','') (CHR '','' # ?r) = (True, ?r)" by (simp add: match_char_hit)
    moreover have "parse_elements (acc @ [v]) ?r = (Some (ARRAY (acc @ v # vs)), rest)"
    proof -
      have "parse_elements (acc @ [v]) ?r = parse_elements (acc @ [v]) (json_elements p i d vs @ w @ CHR '']'' # rest)"
        by (metis indent_spaces(2) parse_elements_skip skip_ws_append)
      then show ?thesis using 8(2) [of w "acc @ [v]" rest] 8(4,5) Cons by simp
    qed
    ultimately show ?thesis
      using parse_value_ws [OF indent_spaces(1)] Cons by (simp add: parse_elements.simps [of acc])
  qed
next
  case (6 p i d m)
  let ?body = "json_members p i d m @ indent_fn p i d @ CHR ''}'' # rest"
  have top: "parse_value (CHR ''{'' # t) = parse_object (CHR ''{'' # t)" for t
    by (simp add: parse_value.simps skip_ws_nonspace)
  show ?case
  proof (cases m)
    case Nil
    then show ?thesis by (simp add: top parse_object.simps match_char_hit)
  next
    case (Cons kv m')
    have body: "?body = indent_fn p i (d + 1) @ quote_char # drop (Suc (length (indent_fn p i (d + 1)))) ?body"
      by (simp add: Cons json_escape_def)
    define t where "t = drop (Suc (length (indent_fn p i (d + 1)))) ?body"
    have body: "?body = indent_fn p i (d + 1) @ quote_char # t" unfolding t_def by (rule body)
    have "match_char (CHR ''}'') (newline p @ ?body) = (False, quote_char # t)"
      unfolding body by (simp add: match_char_ws indent_spaces match_char_miss)
    moreover have "parse_members [] (quote_char # t) = parse_members [] ?body"
      unfolding body by (metis indent_spaces(1) parse_members_skip skip_ws_append)
    moreover have "parse_members [] ?body = (Some (OBJECT m), rest)"
      using 6(1) [of "[]" "indent_fn p i d" rest] 6(2) Cons indent_spaces(1) by simp
    ultimately show ?thesis using Cons by (simp add: top parse_object.simps match_char_hit)
  qed
next
  case (10 p i d kv m)
  have v: "json_ok (snd kv)" using 10(4) by simp
  define sp where "sp = (if p then '' '' else [])"
  let ?val = "to_json_inner p i (d + 1) (snd kv)"
  have fresh: "emplace (fst kv) (snd kv) macc = macc @ [kv]"
    using 10(5) by (subst emplace_fresh) (auto simp: image_iff)
  have key: "parse_string (indent_fn p i (d + 1) @ json_escape (fst kv) @ u) = (Some (fst kv), u)" for u
    using parse_string_ws [OF indent_spaces(1)] parse_string_escape by simp
  have colon: "match_char (CHR '':'') (CHR '':'' # u) = (True, u)" for u by (simp add: match_char_hit)
  have val: "parse_value (sp @ u) = parse_value u" for u
    using parse_value_ws [of "'' ''" u] by (simp add: sp_def)
  have jm: "json_members p i d (kv # m) = indent_fn p i (d + 1) @ json_escape (fst kv) @ CHR '':'' # sp @
      ?val @ (if m \<noteq> [] then '','' else []) @ newline p @ json_members p i d m"
    by (simp add: sp_def)
  show ?case
  proof (cases m)
    case Nil
    have "parse_value (?val @ newline p @ w @ CHR ''}'' # rest) = (Some (snd kv), newline p @ w @ CHR ''}'' # rest)"
      using 10(1) [of "newline p @ w @ CHR ''}'' # rest"] v
        stops_ws [OF spaces_append [OF indent_spaces(2) 10(6)] stops_bracket(2)] by simp
    moreover have "match_char (CHR ''}'') (newline p @ w @ CHR ''}'' # rest) = (True, rest)"
      using match_ws_hit [OF spaces_append [OF indent_spaces(2) 10(6)]] by simp
    ultimately show ?thesis
      by (simp add: jm parse_members.simps key [simplified] colon val fresh del: json_members.simps(2)) (simp add: Nil)
  next
    case (Cons kv' m')
    let ?r = "newline p @ json_members p i d m @ w @ CHR ''}'' # rest"
    have "parse_value (?val @ CHR '','' # ?r) = (Some (snd kv), CHR '','' # ?r)"
      using 10(1) [of "CHR '','' # ?r"] v by (simp add: isdigit_def)
    moreover have "match_char (CHR ''}'') (CHR '','' # ?r) = (False, CHR '','' # ?r)"
      by (simp add: match_char_miss)
    moreover have "match_char (CHR '','') (CHR '','' # ?r) = (True, ?r)" by (simp add: match_char_hit)
    moreover have "parse_members (macc @ [kv]) ?r = (Some (OBJECT (macc @ kv # m)), rest)"
    proof -
      have "parse_members (macc @ [kv]) ?r = parse_members (macc @ [kv]) (json_members p i d m @ w @ CHR ''}'' # rest)"
        by (metis indent_spaces(2) parse_members_skip skip_ws_append)
      then show ?thesis using 10(2) [of "macc @ [kv]" w rest] 10(4,5,6) Cons by simp
    qed
    moreover have "m \<noteq> []" using Cons by simp
    ultimately show ?thesis
      by (simp add: jm parse_members.simps [of macc] key [simplified] colon val fresh del: json_members.simps(2))
  qed
qed simp_all

lemma number_ok_int:
  assumes "\<bar>i\<bar> < 10 ^ 6"
  shows "number_ok (double_of_int i)"
proof -
  define n where "n = nat \<bar>i\<bar>"
  have dig: "\<forall>c\<in>set (show_nat n). isdigit c" by (rule show_nat_digits)
  obtain c cs where c: "show_nat n = c # cs" by (cases "show_nat n") simp_all
  have cd: "isdigit c" using dig c by simp
  then have ns: "c \<noteq> CHR ''-''" "c \<noteq> CHR ''+''" "\<not> isspace c" by (auto simp: isdigit_def isspace_def)
  have sc: "scan_number False (show_nat n) = (show_nat n, [])"
  proof -
    have "scan_number b s = (s, [])" if "\<forall>c\<in>set s. isdigit c" for b s
      using that by (induction s) auto
    with dig show ?thesis by blast
  qed
  have sd: "stod (show_int i) = Some (double_of_int i)" using assms by (intro stod_show_int) simp
  have si: "show_int i = (if i < 0 then CHR ''-'' # show_nat n else show_nat n)"
    by (simp add: show_int_def n_def)
  have ws: "skip_ws (show_int i) = show_int i"
    using ns c by (auto simp: si skip_ws_def isspace_def)
  have "parse_number (show_int i) = (Some (double_of_int i), [])"
  proof (cases "i < 0")
    case True
    then show ?thesis using sc sd by (simp add: parse_number_def ws) (simp add: si)
  next
    case False
    then have "show_int i = c # cs" using c si by simp
    moreover from this ws have "skip_ws (c # cs) = c # cs" by simp
    ultimately show ?thesis using sc [unfolded c] sd ns False
      by (simp add: parse_number_def del: scan_number.simps)
  qed
  then show ?thesis using ws fmt_g_double_of_int [OF assms] by (simp add: number_ok_def)
qed

text \<open>
  The numbers of which this is proved: the whole numbers of less than seven digits. From a million on
  a number does not survive, as the last theorem of this file shows.
\<close>

definition whole_part :: "double \<Rightarrow> int" where
  "whole_part d = (if dbl_neg d then - (dbl_num d div dbl_den d) else dbl_num d div dbl_den d)"

definition small_whole :: "double \<Rightarrow> bool" where
  "small_whole d \<longleftrightarrow> \<bar>whole_part d\<bar> < 10 ^ 6 \<and> d = double_of_int (whole_part d)"

text \<open>A variable whose numbers are all of this kind, with one entry per key in every object.\<close>

fun json_plain :: "dv \<Rightarrow> bool" where
  "json_plain (NUMBER d) \<longleftrightarrow> small_whole d"
| "json_plain (ARRAY vs) \<longleftrightarrow> (\<forall>v\<in>set vs. json_plain v)"
| "json_plain (OBJECT m) \<longleftrightarrow> distinct (map fst m) \<and> (\<forall>kv\<in>set m. json_plain (snd kv))"
| "json_plain _ \<longleftrightarrow> True"

lemma whole_part_of_int:
  assumes "\<bar>i\<bar> < 2 ^ 53"
  shows "whole_part (double_of_int i) = i"
proof (cases "i = 0")
  case True
  then show ?thesis by (simp add: double_of_int_def round_double_def whole_part_def dbl_num_def)
next
  case False
  then obtain k where "round_double (i < 0) \<bar>i\<bar> 1 = Some (Dbl (i < 0) (\<bar>i\<bar> * 2 ^ k) (- int k))"
    using round_double_int [of "\<bar>i\<bar>" "i < 0"] assms by auto
  moreover have "- (i * 2 ^ k) div 2 ^ k = - i" using nonzero_mult_div_cancel_right [of "2 ^ k" "- i"] by simp
  ultimately show ?thesis
    by (cases "k = 0") (auto simp: double_of_int_def whole_part_def dbl_num_def dbl_den_def)
qed

lemma small_whole_int: "\<bar>i\<bar> < 10 ^ 6 \<Longrightarrow> small_whole (double_of_int i)"
  by (simp add: small_whole_def whole_part_of_int)

lemma small_whole_ok: "small_whole d \<Longrightarrow> number_ok d"
  by (metis small_whole_def number_ok_int)

lemma json_plain_ok: "json_plain v \<Longrightarrow> json_ok v"
  by (induction v rule: json_plain.induct) (auto intro: small_whole_ok)

section \<open>Properties\<close>

text \<open>C5: a variable whose numbers are whole numbers below a million in absolute value, and whose objects
  have one entry per key, is written by \<open>to_json\<close>, pretty or compact and with any indentation, as a text
  that \<open>parse_json\<close> reads back as the same variable, whatever bytes its strings and keys hold and
  however deeply it is nested.\<close>

theorem json_roundtrip:
  assumes "json_plain v"
  shows "parse_json (to_json v pretty indent) = (Some v, None)"
  using read_back(1) [OF json_plain_ok [OF assms], of "[]" pretty indent 0]
  by (simp add: parse_json_def to_json_def skip_ws_def)

theorem json_roundtrip_witness:
  "parse_json (to_json (OBJECT [([CHR 0x22, CHR 0x01, CHR 0xC3], ARRAY [NUMBER (double_of_int (- 42)), NIL]),
       (''b'', STRING ''x'')]) True 2)
   = (Some (OBJECT [([CHR 0x22, CHR 0x01, CHR 0xC3], ARRAY [NUMBER (double_of_int (- 42)), NIL]),
       (''b'', STRING ''x'')]), None)"
proof -
  have "small_whole (double_of_int (- 42))" by (rule small_whole_int) simp
  then show ?thesis by (intro json_roundtrip) simp
qed

text \<open>Every reader leaves a suffix of what it was given.\<close>

lemma suffix_drop: "suffix (drop n s) s"
  by (metis append_take_drop_id suffix_def)

lemma suffix_skip_ws: "suffix (skip_ws s) s"
  by (simp add: skip_ws_def suffix_dropWhile)

lemma suffix_trans2: "suffix a b \<Longrightarrow> suffix b c \<Longrightarrow> suffix a c"
  by (rule suffix_order.trans)

lemma suffix_match: "match_char ch s = (b, r) \<Longrightarrow> suffix r s"
proof (cases "skip_ws s")
  case (Cons c cs)
  moreover assume "match_char ch s = (b, r)"
  moreover from Cons have "suffix (c # cs) s" by (metis suffix_skip_ws)
  ultimately show ?thesis
    by (cases "c = ch") (auto simp: match_char_def suffix_Cons intro: suffix_trans2 [of _ "c # cs"])
qed (auto simp: match_char_def)

lemma suffix_read_hex: "suffix (snd (read_hex k v s)) s"
  by (induction k v s rule: read_hex.induct) (auto simp: suffix_Cons split: option.splits)

lemma suffix_escape: "parse_escape cs = (t, r) \<Longrightarrow> suffix r cs"
proof (cases cs)
  case (Cons esc ds)
  moreover assume "parse_escape cs = (t, r)"
  moreover have "suffix (snd (read_hex 4 0 ds)) ds" by (rule suffix_read_hex)
  ultimately show ?thesis
    by (auto simp: parse_escape_def suffix_Cons split: option.splits if_splits prod.splits)
qed (simp add: parse_escape_def)

lemma suffix_chars: "parse_chars out s = (t, r) \<Longrightarrow> suffix r s"
proof (induction out s arbitrary: t r rule: parse_chars.induct)
  case (2 out ch cs)
  obtain t' r' where e: "parse_escape cs = (t', r')" by force
  then have "suffix r' cs" by (rule suffix_escape)
  with 2 e show ?case
    by (cases t') (auto simp: suffix_Cons split: if_splits intro: suffix_trans2)
qed simp

lemma suffix_string: "parse_string s = (t, r) \<Longrightarrow> suffix r s"
proof (cases "skip_ws s")
  case (Cons c cs)
  assume p: "parse_string s = (t, r)"
  have suf: "suffix (c # cs) s" by (metis Cons suffix_skip_ws)
  show ?thesis
  proof (cases "c = quote_char")
    case True
    with p Cons have "suffix r cs" by (auto simp: parse_string_def dest: suffix_chars)
    then have "suffix r (c # cs)" by (rule suffix_ConsI)
    then show ?thesis using suf by (rule suffix_trans2)
  next
    case False
    with p Cons suf show ?thesis by (simp add: parse_string_def)
  qed
qed (auto simp: parse_string_def)

lemma suffix_number: "parse_number s = (t, r) \<Longrightarrow> suffix r s"
proof -
  assume p: "parse_number s = (t, r)"
  have sc: "suffix (snd (scan_number b u)) u" for b u
    using scan_number_append [of b u] by (metis suffix_def)
  have "suffix r (skip_ws s)"
    using p sc [of False "skip_ws s"] sc [of False "tl (skip_ws s)"]
    by (cases "skip_ws s")
      (auto simp: parse_number_def Let_def suffix_Cons split: if_splits option.splits prod.splits)
  then show ?thesis using suffix_skip_ws by (rule suffix_trans2)
qed

lemma dv_ok_emplace:
  "dv_ok (OBJECT acc) \<Longrightarrow> dv_ok v \<Longrightarrow> dv_ok (OBJECT (emplace k v acc))"
  by (auto simp: emplace_def umap_ok_def map_of_eq_None_iff)

text \<open>
  \<open>well_read s (v, r)\<close>: the cursor only moved forward and a value that was read is well formed.
\<close>

definition well_read :: "string \<Rightarrow> dv option \<times> string \<Rightarrow> bool" where
  "well_read s = (\<lambda>(v, r). suffix r s \<and> (case v of None \<Rightarrow> True | Some x \<Rightarrow> dv_ok x))"

lemma well_read_mono: "well_read r res \<Longrightarrow> suffix r s \<Longrightarrow> well_read s res"
  by (auto simp: well_read_def intro: suffix_trans2)

lemma well_read_fail: "suffix r s \<Longrightarrow> well_read s (None, r)"
  by (simp add: well_read_def)

lemma well_read_done: "suffix r s \<Longrightarrow> dv_ok v \<Longrightarrow> well_read s (Some v, r)"
  by (simp add: well_read_def)

lemma well_read_value: "well_read s (parse_value s)"
  and well_read_array: "well_read s (parse_array s)"
  and well_read_elements: "(\<forall>v\<in>set vs. dv_ok v) \<Longrightarrow> well_read s (parse_elements vs s)"
  and well_read_object: "well_read s (parse_object s)"
  and well_read_members: "dv_ok (OBJECT ms) \<Longrightarrow> well_read s (parse_members ms s)"
proof (induction s and s and vs s and s and ms s
    rule: parse_value_parse_array_parse_elements_parse_object_parse_members.induct)
  case (1 s)
  show ?case
  proof (cases "skip_ws s")
    case Nil
    then show ?thesis by (simp add: parse_value.simps well_read_fail)
  next
    case (Cons ch cs)
    have suf: "suffix (ch # cs) s" by (metis Cons suffix_skip_ws)
    have str: "well_read (ch # cs) (case parse_string (ch # cs) of (None, r) \<Rightarrow> (None, r)
        | (Some tmp, r) \<Rightarrow> (Some (make_string tmp), r))"
      by (auto split: prod.splits option.splits intro: well_read_fail well_read_done dest: suffix_string)
    have num: "well_read (ch # cs) (case parse_number (ch # cs) of (None, r) \<Rightarrow> (None, r)
        | (Some num, r) \<Rightarrow> (Some (make_number num), r))"
      by (auto split: prod.splits option.splits intro: well_read_fail well_read_done dest: suffix_number)
    have lit: "well_read (ch # cs) (Some v, drop n (ch # cs))" if "dv_ok v" for v n
      using that suffix_drop by (intro well_read_done)
    have "well_read (ch # cs) (parse_value s)"
      unfolding parse_value.simps [of s] Cons list.case Let_def if_split [of "well_read (ch # cs)"]
      using 1(1) [OF Cons refl] 1(2) [OF Cons refl] lit [of "make_bool True" 4]
        lit [of "make_bool False" 5] lit [of make_null 4] str num by (intro conjI impI) (assumption | simp only: dv_make_defs dv_ok.simps)+
    then show ?thesis using suf by (rule well_read_mono)
  qed
next
  case (2 s)
  obtain b r where m: "match_char (CHR ''['') s = (b, r)" by force
  obtain b' r' where m': "match_char (CHR '']'') r = (b', r')" by force
  have suf: "suffix r s" "suffix r' r" using m m' by (auto dest: suffix_match)
  then have suf2: "suffix r' s" by (blast intro: suffix_trans2)
  show ?case
  proof (cases "b \<and> \<not> b'")
    case True
    with m m' have "well_read r' (parse_elements [] r')" using 2 [OF m [symmetric]] by simp blast
    then have "well_read s (parse_elements [] r')" using suf2 by (rule well_read_mono)
    with True m m' show ?thesis by (simp add: parse_array.simps)
  next
    case False
    with m m' suf suf2 show ?thesis
      by (cases b) (auto simp: parse_array.simps intro: well_read_fail well_read_done)
  qed
next
  case (3 acc s)
  obtain v r where pv: "parse_value s = (v, r)" by force
  obtain b r1 where m1: "match_char (CHR '']'') r = (b, r1)" by force
  obtain b2 r2 where m2: "match_char (CHR '','') r1 = (b2, r2)" by force
  have suf: "suffix r s" using 3(1) pv by (simp add: well_read_def)
  then have suf1: "suffix r1 s" using m1 suffix_match suffix_trans2 by blast
  then have suf2: "suffix r2 s" using m2 suffix_match suffix_trans2 by blast
  show ?case
  proof (cases v)
    case None
    with pv suf show ?thesis by (simp add: parse_elements.simps well_read_fail)
  next
    case (Some e)
    have e: "dv_ok e" using 3(1) pv Some by (simp add: well_read_def)
    show ?thesis
    proof (cases "\<not> b \<and> b2")
      case True
      have "well_read r2 (parse_elements (acc @ [e]) r2)"
        using 3(2) [OF pv [symmetric] Some] m1 m2 True e 3(3) by simp blast
      then have "well_read s (parse_elements (acc @ [e]) r2)" using suf2 by (rule well_read_mono)
      with True pv Some m1 m2 show ?thesis by (simp add: parse_elements.simps [of acc])
    next
      case False
      with pv Some m1 m2 suf1 suf2 e 3(3) show ?thesis
        by (cases b) (auto simp: parse_elements.simps [of acc] intro!: well_read_fail well_read_done)
    qed
  qed
next
  case (4 s)
  obtain b r where m: "match_char (CHR ''{'') s = (b, r)" by force
  obtain b' r' where m': "match_char (CHR ''}'') r = (b', r')" by force
  have suf: "suffix r s" "suffix r' r" using m m' by (auto dest: suffix_match)
  then have suf2: "suffix r' s" by (blast intro: suffix_trans2)
  show ?case
  proof (cases "b \<and> \<not> b'")
    case True
    with m m' have "well_read r' (parse_members [] r')" using 4 [OF m [symmetric]] by simp blast
    then have "well_read s (parse_members [] r')" using suf2 by (rule well_read_mono)
    with True m m' show ?thesis by (simp add: parse_object.simps)
  next
    case False
    with m m' suf suf2 show ?thesis
      by (cases b) (auto simp: parse_object.simps intro: well_read_fail well_read_done)
  qed
next
  case (5 acc s)
  obtain k r where ps: "parse_string s = (k, r)" by force
  obtain b r1 where m1: "match_char (CHR '':'') r = (b, r1)" by force
  obtain v r2 where pv: "parse_value r1 = (v, r2)" by force
  obtain b3 r3 where m3: "match_char (CHR ''}'') r2 = (b3, r3)" by force
  obtain b4 r4 where m4: "match_char (CHR '','') r3 = (b4, r4)" by force
  have suf: "suffix r s" using ps by (rule suffix_string)
  then have suf1: "suffix r1 s" using m1 suffix_match suffix_trans2 by blast
  show ?case
  proof (cases "k = None \<or> \<not> b")
    case True
    with ps m1 suf suf1 show ?thesis
      by (cases k) (auto simp: parse_members.simps [of acc] intro: well_read_fail)
  next
    case False
    then obtain key where k: "k = Some key" and b: "b = True" by auto
    have wv: "well_read r1 (v, r2)" using 5(1) [OF ps [symmetric] k m1 [symmetric] b] pv by simp
    then have suf2: "suffix r2 s" using suf1 by (auto simp: well_read_def intro: suffix_trans2)
    then have suf3: "suffix r3 s" using m3 suffix_match suffix_trans2 by blast
    then have suf4: "suffix r4 s" using m4 suffix_match suffix_trans2 by blast
    show ?thesis
    proof (cases v)
      case None
      with ps k m1 b pv suf2 show ?thesis by (simp add: parse_members.simps [of acc] well_read_fail)
    next
      case (Some x)
      have ok: "dv_ok (OBJECT (emplace key x acc))"
        using wv Some 5(3) by (intro dv_ok_emplace) (simp_all add: well_read_def)
      show ?thesis
      proof (cases "\<not> b3 \<and> b4")
        case True
        have "well_read r4 (parse_members (emplace key x acc) r4)"
          using 5(2) [OF ps [symmetric] k m1 [symmetric] b pv [symmetric] Some] m3 m4 True ok by simp blast
        then have "well_read s (parse_members (emplace key x acc) r4)" using suf4 by (rule well_read_mono)
        with True ps k m1 b pv Some m3 m4 show ?thesis by (simp add: parse_members.simps [of acc])
      next
        case False
        with ps k m1 b pv Some m3 m4 suf3 suf4 ok show ?thesis
          by (cases b3) (auto simp: parse_members.simps [of acc] simp del: dv_ok.simps
              intro!: well_read_fail well_read_done)
      qed
    qed
  qed
qed

text \<open>Whatever text it is given, \<open>parse_json\<close> either succeeds with a well-formed variable (every
  object with one entry per key, at every depth) and no error position, or fails with a position
  inside the text behind which nothing was consumed.\<close>

theorem parse_json_total:
  "case parse_json s of
     (Some v, pos) \<Rightarrow> dv_ok v \<and> pos = None
   | (None, pos) \<Rightarrow> (\<exists>n \<le> length s. pos = Some n)"
proof -
  obtain v r where pv: "parse_value s = (v, r)" by force
  have "well_read s (v, r)" using well_read_value [of s] pv by simp
  then have "case v of None \<Rightarrow> True | Some x \<Rightarrow> dv_ok x" by (simp add: well_read_def)
  then show ?thesis using pv by (cases v) (auto simp: parse_json_def Let_def)
qed

text \<open>Numbers of a million and more do not survive: they are written with an exponent, and the
  reader stops at the \<open>e\<close>, so a session that holds one cannot be loaded again.\<close>

theorem million_not_read_back:
  "to_json (NUMBER (double_of_int 1000000)) pretty indent = ''1e+06'' \<and>
   parse_json (to_json (NUMBER (double_of_int 1000000)) pretty indent) = (None, Some 1)"
proof -
  have "skip_ws ''1e+06'' = ''1e+06''" by (simp add: skip_ws_def isspace_def)
  then have "parse_value ''1e+06'' = (Some (NUMBER (double_of_int 1)), ''e+06'')"
    by (simp add: parse_value.simps parse_number_def isdigit_def stod_1)
  then show ?thesis by (simp add: to_json_def fmt_g_million parse_json_def skip_ws_def isspace_def)
qed

end
