(* ===== verification/Grammar.thy ===== *)
theory Grammar
  imports Json
begin

text \<open>
  The texts that \<open>parse_json\<close> accepts, as a grammar, and the proof that it accepts exactly these and
  reads each as the variable the grammar gives it. The grammar is that of JSON with these
  differences: numbers may have a plus sign, leading zeros, no digits on one side of the point, and
  no exponent; strings may hold any raw bytes, and a surrogate pair is two characters of three bytes;
  a key that comes twice keeps its first value.
\<close>

section \<open>The grammar\<close>

definition blank :: "string \<Rightarrow> bool" where
  "blank w \<longleftrightarrow> (\<forall>c\<in>set w. isspace c)"

definition digits :: "string \<Rightarrow> bool" where
  "digits ds \<longleftrightarrow> (\<forall>c\<in>set ds. isdigit c)"

text \<open>What stands between the quotes, and the bytes it stands for.\<close>

inductive string_text :: "string \<Rightarrow> string \<Rightarrow> bool" where
  empty_text: "string_text [] []"
| plain_char: "c \<noteq> quote_char \<Longrightarrow> c \<noteq> backslash \<Longrightarrow> string_text t s \<Longrightarrow> string_text (c # t) (c # s)"
| escaped_char: "simple_escape e = Some c \<Longrightarrow> string_text t s \<Longrightarrow> string_text (backslash # e # t) (c # s)"
| unicode_char: "length h = 4 \<Longrightarrow> those (map hex_val h) = Some ds \<Longrightarrow> string_text t s \<Longrightarrow>
    string_text (backslash # CHR ''u'' # h @ t) (utf8_bytes (foldl (\<lambda>a d. 16 * a + d) 0 ds) @ s)"

definition number_text :: "string \<Rightarrow> double \<Rightarrow> bool" where
  "number_text t d \<longleftrightarrow> (\<exists>sg ip fr. t = sg @ ip @ fr \<and> sg \<in> {[], ''-'', ''+''} \<and> digits ip \<and>
     (fr = [] \<or> (\<exists>fp. fr = CHR ''.'' # fp \<and> digits fp))) \<and> stod t = Some d"

inductive value_text :: "string \<Rightarrow> dv \<Rightarrow> bool"
  and elements_text :: "string \<Rightarrow> dv list \<Rightarrow> bool"
  and members_text :: "string \<Rightarrow> (string \<times> dv) list \<Rightarrow> bool" where
  text_string: "string_text t s \<Longrightarrow> value_text (quote_char # t @ [quote_char]) (STRING s)"
| text_number: "number_text t d \<Longrightarrow> value_text t (NUMBER d)"
| text_true: "value_text ''true'' (BOOL True)"
| text_false: "value_text ''false'' (BOOL False)"
| text_null: "value_text ''null'' NIL"
| text_no_elements: "blank w \<Longrightarrow> value_text (CHR ''['' # w @ [CHR '']'']) (ARRAY [])"
| text_array: "elements_text t vs \<Longrightarrow> value_text (CHR ''['' # t @ [CHR '']'']) (ARRAY vs)"
| text_no_members: "blank w \<Longrightarrow> value_text (CHR ''{'' # w @ [CHR ''}'']) (OBJECT [])"
| text_object: "members_text t kvs \<Longrightarrow>
    value_text (CHR ''{'' # t @ [CHR ''}'']) (OBJECT (fold (\<lambda>(k, v). emplace k v) kvs []))"
| last_element: "blank w \<Longrightarrow> value_text t v \<Longrightarrow> blank w' \<Longrightarrow> elements_text (w @ t @ w') [v]"
| next_element: "blank w \<Longrightarrow> value_text t v \<Longrightarrow> blank w' \<Longrightarrow> elements_text u vs \<Longrightarrow>
    elements_text (w @ t @ w' @ CHR '','' # u) (v # vs)"
| last_member: "blank w1 \<Longrightarrow> string_text k s \<Longrightarrow> blank w2 \<Longrightarrow> blank w3 \<Longrightarrow> value_text t v \<Longrightarrow> blank w4 \<Longrightarrow>
    members_text (w1 @ quote_char # k @ quote_char # w2 @ CHR '':'' # w3 @ t @ w4) [(s, v)]"
| next_member: "blank w1 \<Longrightarrow> string_text k s \<Longrightarrow> blank w2 \<Longrightarrow> blank w3 \<Longrightarrow> value_text t v \<Longrightarrow> blank w4 \<Longrightarrow>
    members_text u kvs \<Longrightarrow>
    members_text (w1 @ quote_char # k @ quote_char # w2 @ CHR '':'' # w3 @ t @ w4 @ CHR '','' # u) ((s, v) # kvs)"

section \<open>Strings and numbers\<close>

lemma blank_simps [simp]: "blank []" "blank (v @ w) \<longleftrightarrow> blank v \<and> blank w"
  by (auto simp: blank_def)

lemma read_hex_digits:
  "length h = k \<Longrightarrow> those (map hex_val h) = Some ds \<Longrightarrow>
     read_hex k v (h @ r) = (Some (foldl (\<lambda>a d. 16 * a + d) v ds), r)"
  by (induction k v h arbitrary: ds rule: read_hex.induct) (auto split: option.splits)

lemma read_hex_some:
  "read_hex k v s = (Some n, r) \<Longrightarrow>
     \<exists>h ds. s = h @ r \<and> length h = k \<and> those (map hex_val h) = Some ds \<and> n = foldl (\<lambda>a d. 16 * a + d) v ds"
proof (induction k v s rule: read_hex.induct)
  case (3 k v c s)
  then obtain d h ds where "hex_val c = Some d" "s = h @ r" "length h = k" "those (map hex_val h) = Some ds"
    "n = foldl (\<lambda>a d. 16 * a + d) (16 * v + d) ds" by (auto split: option.splits)
  then show ?case by (intro exI [of _ "c # h"] exI [of _ "d # ds"]) simp
qed simp_all

lemma string_text_read: "string_text t s \<Longrightarrow> parse_chars out (t @ quote_char # rest) = (Some (out @ s), rest)"
proof (induction arbitrary: out rule: string_text.induct)
  case (unicode_char h ds t s)
  have "simple_escape (CHR ''u'') = None" by (simp add: simple_escape_def)
  then show ?case using unicode_char read_hex_digits [OF unicode_char(1,2), of 0 "t @ quote_char # rest"]
    by (simp add: parse_escape_def)
next
  case (escaped_char e c t s)
  then show ?case by (simp add: parse_escape_def)
qed simp_all

lemma parse_chars_text:
  "parse_chars out u = (Some w, r) \<Longrightarrow> \<exists>t s. u = t @ quote_char # r \<and> w = out @ s \<and> string_text t s"
proof (induction out u rule: parse_chars.induct)
  case (2 out ch cs)
  consider "ch = quote_char" | "ch = backslash" | "ch \<noteq> quote_char" "ch \<noteq> backslash" by blast
  then show ?case
  proof cases
    case 1
    with 2(3) show ?thesis by (intro exI [of _ "[]"]) (auto intro: empty_text)
  next
    case b: 2
    then obtain x u where e: "parse_escape cs = (Some x, u)" "parse_chars (out @ x) u = (Some w, r)"
      using 2(3) by (auto split: prod.splits option.splits)
    obtain t s where ts: "u = t @ quote_char # r" "w = (out @ x) @ s" "string_text t s"
      using 2(1) [OF _ b e(1) [symmetric] refl e(2)] b by auto
    obtain esc ds where c: "cs = esc # ds" using e(1) by (cases cs) (auto simp: parse_escape_def)
    show ?thesis
    proof (cases "simple_escape esc")
      case (Some y)
      then have "x = [y]" "u = ds" using e(1) by (simp_all add: parse_escape_def c)
      then show ?thesis using ts escaped_char [OF Some ts(3)] b c by (intro exI [of _ "backslash # esc # t"] exI [of _ "y # s"]) auto
    next
      case None
      then obtain n where n: "esc = CHR ''u''" "read_hex 4 0 ds = (Some n, u)" "x = utf8_bytes n"
        using e(1) by (auto simp: parse_escape_def c split: if_splits prod.splits option.splits)
      obtain h hs where h: "ds = h @ u" "length h = 4" "those (map hex_val h) = Some hs" "n = foldl (\<lambda>a d. 16 * a + d) 0 hs"
        using read_hex_some [OF n(2)] by blast
      show ?thesis using unicode_char [OF h(2,3) ts(3)] ts(1,2) b c n h
        by (intro exI [of _ "backslash # CHR ''u'' # h @ t"] exI [of _ "x @ s"]) auto
    qed
  next
    case 3
    then obtain t s where "cs = t @ quote_char # r" "w = (out @ [ch]) @ s" "string_text t s"
      using 2(2) 2(3) by fastforce
    then show ?thesis using plain_char [OF 3] by (intro exI [of _ "ch # t"] exI [of _ "ch # s"]) auto
  qed
qed simp

lemma scan_digits: "digits ds \<Longrightarrow> stops rest \<Longrightarrow> scan_number b (ds @ rest) = (ds, rest)"
proof (induction ds)
  case Nil
  then show ?case by (cases rest) auto
next
  case (Cons c ds)
  then show ?case by (auto simp: digits_def)
qed

lemma scan_point: "digits ip \<Longrightarrow> digits fp \<Longrightarrow> stops rest \<Longrightarrow>
    scan_number False (ip @ CHR ''.'' # fp @ rest) = (ip @ CHR ''.'' # fp, rest)"
  by (induction ip) (auto simp: digits_def scan_digits [unfolded digits_def] isdigit_def)

lemma scan_shape:
  "scan_number dot s = (b, r) \<Longrightarrow>
     s = b @ r \<and> (\<exists>ip fr. b = ip @ fr \<and> digits ip \<and> (fr = [] \<or> \<not> dot \<and> (\<exists>fp. fr = CHR ''.'' # fp \<and> digits fp)))"
proof (induction dot s arbitrary: b r rule: scan_number.induct)
  case (2 dot c cs)
  consider "isdigit c" | "\<not> isdigit c" "c = CHR ''.''" "\<not> dot" | "\<not> isdigit c" "\<not> (c = CHR ''.'' \<and> \<not> dot)" by blast
  then show ?case
  proof cases
    case 1
    then obtain b' where b': "scan_number dot cs = (b', r)" "b = c # b'" using 2(3) by (auto split: prod.splits)
    from 2(1) [OF 1 b'(1)] obtain ip fr where "cs = b' @ r" "b' = ip @ fr" "digits ip"
      "fr = [] \<or> \<not> dot \<and> (\<exists>fp. fr = CHR ''.'' # fp \<and> digits fp)" by blast
    then show ?thesis using 1 b'(2) by (intro conjI exI [of _ "c # ip"] exI [of _ fr]) (auto simp: digits_def)
  next
    case c: 2
    then obtain b' where b': "scan_number True cs = (b', r)" "b = c # b'" using 2(3) by (auto split: prod.splits)
    from 2(2) [OF c(1) conjI [OF c(2,3)] b'(1)] have "cs = b' @ r" "digits b'" by auto
    then show ?thesis using c b'(2) by (intro conjI exI [of _ "[]"] exI [of _ b]) (auto simp: digits_def)
  next
    case 3
    then show ?thesis using 2(3) by (auto simp: digits_def)
  qed
qed (simp add: digits_def)

lemma number_text_head:
  assumes "number_text t d"
  obtains c cs where "t = c # cs" "isdigit c \<or> c = CHR ''.'' \<or> c = CHR ''-'' \<or> c = CHR ''+''"
proof -
  obtain sg ip fr where t: "t = sg @ ip @ fr" "sg \<in> {[], ''-'', ''+''}" "digits ip"
    "fr = [] \<or> (\<exists>fp. fr = CHR ''.'' # fp \<and> digits fp)" "stod t = Some d" using assms by (auto simp: number_text_def)
  then have "t \<noteq> []" by (auto simp: stod_def)
  then show thesis using that t by (cases ip) (auto simp: digits_def)
qed

lemma number_text_read:
  assumes "number_text t d" "stops rest"
  shows "parse_number (t @ rest) = (Some d, rest)"
proof -
  obtain sg ip fr where t: "t = sg @ ip @ fr" "sg \<in> {[], ''-'', ''+''}" "digits ip"
    "fr = [] \<or> (\<exists>fp. fr = CHR ''.'' # fp \<and> digits fp)" "stod t = Some d" using assms(1) by (auto simp: number_text_def)
  obtain c cs where c: "t = c # cs" "isdigit c \<or> c = CHR ''.'' \<or> c = CHR ''-'' \<or> c = CHR ''+''"
    by (rule number_text_head [OF assms(1)])
  have ws: "skip_ws (t @ rest) = t @ rest" using c by (auto simp: skip_ws_def isspace_def isdigit_def)
  have sc: "scan_number False ((ip @ fr) @ rest) = (ip @ fr, rest)"
    using t(3,4) assms(2) by (auto simp: scan_digits scan_point)
  have sp: "(case t @ rest of [] \<Rightarrow> ([], []) | c # cs \<Rightarrow> if c = CHR ''-'' \<or> c = CHR ''+'' then ([c], cs) else ([], t @ rest)) =
      (sg, (ip @ fr) @ rest)"
  proof (cases sg)
    case Nil
    then have "c \<noteq> CHR ''-'' \<and> c \<noteq> CHR ''+''" using t(1,3,4) c(1) by (cases ip) (auto simp: digits_def isdigit_def)
    moreover have "t @ rest = c # cs @ rest" "(ip @ fr) @ rest = c # cs @ rest" using t(1) Nil c(1) by simp_all
    ultimately show ?thesis unfolding Nil by simp
  next
    case (Cons x xs)
    then show ?thesis using t(1,2) by auto
  qed
  show ?thesis using t(1,5) c(1) unfolding parse_number_def ws sp Let_def prod.case sc by auto
qed

lemma blank_skip: "\<exists>w. blank w \<and> s = w @ skip_ws s"
  unfolding skip_ws_def blank_def
  by (rule exI [of _ "takeWhile isspace s"]) (auto dest: set_takeWhileD)

lemma parse_number_text:
  assumes "parse_number s = (Some d, r)"
  shows "\<exists>w t. blank w \<and> s = w @ t @ r \<and> number_text t d"
proof -
  define ss where "ss = (case skip_ws s of [] \<Rightarrow> ([], [])
      | c # cs \<Rightarrow> if c = CHR ''-'' \<or> c = CHR ''+'' then ([c], cs) else ([], skip_ws s))"
  obtain sg u where u: "ss = (sg, u)" by force
  obtain b r' where b: "scan_number False u = (b, r')" by force
  have sg: "skip_ws s = sg @ u" "sg \<in> {[], ''-'', ''+''}" using u by (auto simp: ss_def split: list.splits if_splits)
  have p: "stod (sg @ b) = Some d" "r' = r"
    using assms u b by (auto simp: parse_number_def Let_def ss_def [symmetric] split: if_splits option.splits)
  obtain w where w: "blank w" "s = w @ skip_ws s" using blank_skip by blast
  have "number_text (sg @ b) d" using scan_shape [OF b] sg(2) p(1) unfolding number_text_def by blast
  then show ?thesis using scan_shape [OF b] sg(1) w p(2) by (metis append.assoc)
qed

lemma blank_alt: "blank w \<Longrightarrow> \<forall>c\<in>set w. isspace c"
  by (simp add: blank_def)

lemma parse_string_read:
  "blank w \<Longrightarrow> string_text t s \<Longrightarrow> parse_string (w @ quote_char # t @ quote_char # rest) = (Some s, rest)"
  using string_text_read [of t s "[]" rest]
  by (simp add: parse_string_ws [OF blank_alt]) (simp add: parse_string_def skip_ws_quote)

lemma parse_string_text:
  assumes "parse_string s = (Some k, r)"
  shows "\<exists>w t. blank w \<and> s = w @ quote_char # t @ quote_char # r \<and> string_text t k"
proof -
  obtain w where w: "blank w" "s = w @ skip_ws s" using blank_skip by blast
  obtain cs where cs: "skip_ws s = quote_char # cs" "parse_chars [] cs = (Some k, r)"
    using assms by (auto simp: parse_string_def split: list.splits if_splits)
  from parse_chars_text [OF cs(2)] obtain t where "cs = t @ quote_char # r" "string_text t k" by auto
  then show ?thesis using w cs(1) by metis
qed

section \<open>Every text of the grammar is read\<close>

definition starts_value :: "string \<Rightarrow> bool" where
  "starts_value t \<longleftrightarrow> (\<exists>w c cs. blank w \<and> t = w @ c # cs \<and> \<not> isspace c \<and> c \<noteq> CHR '']'' \<and> c \<noteq> CHR ''}'')"

lemma starts_value_blank: "blank w \<Longrightarrow> starts_value t \<Longrightarrow> starts_value (w @ t @ u)"
  unfolding starts_value_def by (metis append.assoc append_Cons blank_simps(2))

lemma starts_value_blank_Cons: "blank w \<Longrightarrow> starts_value (c # t) \<Longrightarrow> starts_value (w @ c # t)"
  using starts_value_blank [of w "c # t" "[]"] by simp

lemma starts_value_Cons: "\<not> isspace c \<Longrightarrow> c \<noteq> CHR '']'' \<Longrightarrow> c \<noteq> CHR ''}'' \<Longrightarrow> starts_value (c # cs)"
  unfolding starts_value_def by (intro exI [of _ "[]"]) auto

lemma text_heads:
  "value_text t v \<Longrightarrow> starts_value t"
  "elements_text t vs \<Longrightarrow> starts_value t"
  "members_text t kvs \<Longrightarrow> starts_value t"
proof (induction rule: value_text_elements_text_members_text.inducts)
  case (text_number t d)
  then show ?case
    by (rule number_text_head) (auto simp: isspace_def isdigit_def intro!: starts_value_Cons)
qed (auto intro!: starts_value_Cons starts_value_blank starts_value_blank_Cons)

lemma match_false_skip: "match_char ch s = (False, r) \<Longrightarrow> r = skip_ws s"
  by (auto simp: match_char_def split: list.splits if_splits)

lemma no_close:
  assumes "starts_value t" "ch = CHR '']'' \<or> ch = CHR ''}''"
  shows "match_char ch (t @ u) = (False, skip_ws (t @ u))"
proof -
  obtain w c cs where t: "blank w" "t = w @ c # cs" "\<not> isspace c" "c \<noteq> CHR '']''" "c \<noteq> CHR ''}''"
    using assms(1) unfolding starts_value_def by blast
  then show ?thesis using assms(2)
    by (auto simp: match_char_ws [OF blank_alt] skip_ws_append [OF blank_alt] match_char_miss skip_ws_nonspace)
qed

lemma value_array: "parse_value (CHR ''['' # t) = parse_array (CHR ''['' # t)"
  by (simp add: parse_value.simps skip_ws_nonspace)

lemma value_object: "parse_value (CHR ''{'' # t) = parse_object (CHR ''{'' # t)"
  by (simp add: parse_value.simps skip_ws_nonspace)

lemma value_number:
  assumes "number_text t d" "stops rest"
  shows "parse_value (t @ rest) = (Some (NUMBER d), rest)"
proof -
  obtain c cs where c: "t = c # cs" "isdigit c \<or> c = CHR ''.'' \<or> c = CHR ''-'' \<or> c = CHR ''+''"
    by (rule number_text_head [OF assms(1)])
  have ws: "skip_ws (t @ rest) = t @ rest" using c by (auto simp: skip_ws_def isspace_def isdigit_def)
  have ne: "c \<noteq> quote_char" "c \<noteq> CHR ''{''" "c \<noteq> CHR ''[''" "c \<noteq> CHR ''t''" "c \<noteq> CHR ''f''" "c \<noteq> CHR ''n''"
    using c(2) by (auto simp: isdigit_def)
  show ?thesis
    unfolding parse_value.simps ws using number_text_read [OF assms] ne by (simp add: c(1) Let_def)
qed

lemma stops_blank: "blank w \<Longrightarrow> stops rest \<Longrightarrow> stops (w @ rest)"
  by (rule stops_ws [OF blank_alt])

lemma text_is_read:
  "value_text t v \<Longrightarrow> stops rest \<Longrightarrow> parse_value (t @ rest) = (Some v, rest)"
  "elements_text t vs \<Longrightarrow> parse_elements acc (t @ CHR '']'' # rest) = (Some (ARRAY (acc @ vs)), rest)"
  "members_text t kvs \<Longrightarrow> parse_members macc (t @ CHR ''}'' # rest) =
     (Some (OBJECT (fold (\<lambda>(k, v). emplace k v) kvs macc)), rest)"
proof (induction arbitrary: rest and acc rest and macc rest rule: value_text_elements_text_members_text.inducts)
  case (text_string t s)
  then show ?case using parse_string_read [of "[]" t s rest]
    by (simp add: parse_value.simps skip_ws_quote)
next
  case (text_number t d)
  then show ?case by (simp add: value_number)
next
  case (text_no_elements w)
  then show ?case
    by (simp add: value_array parse_array.simps match_char_hit match_ws_hit [OF blank_alt])
next
  case (text_array t vs)
  then show ?case using no_close [OF text_heads(2) [OF text_array(1)], of "CHR '']''" "CHR '']'' # rest"] text_array(2) [of "[]" rest]
    by (simp add: value_array parse_array.simps match_char_hit)
next
  case (text_no_members w)
  then show ?case
    by (simp add: value_object parse_object.simps match_char_hit match_ws_hit [OF blank_alt])
next
  case (text_object t kvs)
  then show ?case using no_close [OF text_heads(3) [OF text_object(1)], of "CHR ''}''" "CHR ''}'' # rest"] text_object(2) [of "[]" rest]
    by (simp add: value_object parse_object.simps match_char_hit)
next
  case (last_element w t v w')
  then show ?case using last_element.IH [OF stops_blank [OF last_element.hyps(3) stops_bracket(1)], of rest]
    by (simp add: parse_elements.simps [of acc] parse_value_ws [OF blank_alt] match_ws_hit [OF blank_alt])
next
  case (next_element w t v w' u vs)
  then show ?case using next_element.IH(1) [OF stops_blank [OF next_element.hyps(3) stops_bracket(3)], of "u @ CHR '']'' # rest"]
    by (simp add: parse_elements.simps [of acc "w @ x" for x] parse_value_ws [OF blank_alt] match_char_ws [OF blank_alt]
        match_char_hit match_char_miss)
next
  case (last_member w1 k s w2 w3 t v w4)
  then show ?case using last_member.IH [OF stops_blank [OF last_member.hyps(6) stops_bracket(2)], of rest]
    by (simp add: parse_members.simps [of macc] parse_string_read match_ws_hit [OF blank_alt] parse_value_ws [OF blank_alt])
next
  case (next_member w1 k s w2 w3 t v w4 u kvs)
  then show ?case using next_member.IH(1) [OF stops_blank [OF next_member.hyps(6) stops_bracket(3)], of "u @ CHR ''}'' # rest"]
    by (simp add: parse_members.simps [of macc "w1 @ x" for x] parse_string_read match_ws_hit [OF blank_alt]
        parse_value_ws [OF blank_alt] match_char_ws [OF blank_alt] match_char_hit match_char_miss)
qed (use parse_literals in simp_all)

section \<open>What is read is a text of the grammar\<close>

lemma match_true_text:
  assumes "match_char ch s = (True, r)"
  shows "\<exists>w. blank w \<and> s = w @ ch # r"
proof -
  obtain w where w: "blank w" "s = w @ skip_ws s" using blank_skip by blast
  have "skip_ws s = ch # r" using assms by (auto simp: match_char_def split: list.splits if_splits)
  then show ?thesis using w by metis
qed

lemma match_false_text:
  assumes "match_char ch s = (False, r)"
  shows "\<exists>w. blank w \<and> s = w @ r"
  using blank_skip [of s] match_false_skip [OF assms] by auto

text \<open>A blank in front of the first element or member is part of the text.\<close>

lemma blank_elements:
  assumes "elements_text t vs" "blank w"
  shows "elements_text (w @ t) vs"
  using assms(1)
proof cases
  case (last_element w1 t1 v w2)
  then show ?thesis using value_text_elements_text_members_text.last_element [of "w @ w1" t1 v w2] assms(2) by simp
next
  case (next_element w1 t1 v w2 u vs')
  then show ?thesis
    using value_text_elements_text_members_text.next_element [of "w @ w1" t1 v w2 u vs'] assms(2) by simp
qed

lemma blank_members:
  assumes "members_text t kvs" "blank w"
  shows "members_text (w @ t) kvs"
  using assms(1)
proof cases
  case (last_member w1 k s w2 w3 t1 v w4)
  then show ?thesis
    using value_text_elements_text_members_text.last_member [of "w @ w1" k s w2 w3 t1 v w4] assms(2) by simp
next
  case (next_member w1 k s w2 w3 t1 v w4 u kvs')
  then show ?thesis
    using value_text_elements_text_members_text.next_member [of "w @ w1" k s w2 w3 t1 v w4 u kvs'] assms(2) by simp
qed

text \<open>
  \<open>value_at s x r\<close>: between some blanks and \<open>r\<close> the text \<open>s\<close> holds a value that stands for \<open>x\<close>.
\<close>

definition value_at :: "string \<Rightarrow> dv \<Rightarrow> string \<Rightarrow> bool" where
  "value_at s x r \<longleftrightarrow> (\<exists>w t. blank w \<and> s = w @ t @ r \<and> value_text t x)"

definition elements_at :: "dv list \<Rightarrow> string \<Rightarrow> dv \<Rightarrow> string \<Rightarrow> bool" where
  "elements_at acc s x r \<longleftrightarrow> (\<exists>t vs. s = t @ CHR '']'' # r \<and> elements_text t vs \<and> x = ARRAY (acc @ vs))"

definition members_at :: "(string \<times> dv) list \<Rightarrow> string \<Rightarrow> dv \<Rightarrow> string \<Rightarrow> bool" where
  "members_at acc s x r \<longleftrightarrow> (\<exists>t kvs. s = t @ CHR ''}'' # r \<and> members_text t kvs \<and>
     x = OBJECT (fold (\<lambda>(k, v). emplace k v) kvs acc))"

lemma value_atI: "blank w \<Longrightarrow> value_text t x \<Longrightarrow> value_at (w @ t @ r) x r"
  unfolding value_at_def by blast

lemma value_at_blank: "blank w \<Longrightarrow> value_at s x r \<Longrightarrow> value_at (w @ s) x r"
  unfolding value_at_def by (metis append.assoc blank_simps(2))

lemma value_at_skip: "value_at (skip_ws s) x r \<Longrightarrow> value_at s x r"
  using value_at_blank blank_skip by metis

lemma value_at_empty_array: "blank w \<Longrightarrow> blank w' \<Longrightarrow> value_at (w @ CHR ''['' # w' @ CHR '']'' # r) (ARRAY []) r"
  using value_atI [OF _ text_no_elements, of w w' r] by simp

lemma value_at_array:
  assumes "blank w" "blank w'" "elements_at [] s x r"
  shows "value_at (w @ CHR ''['' # w' @ s) x r"
proof -
  obtain t vs where t: "s = t @ CHR '']'' # r" "elements_text t vs" "x = ARRAY vs"
    using assms(3) by (auto simp: elements_at_def)
  then show ?thesis using value_atI [OF assms(1) text_array [OF blank_elements [OF t(2) assms(2)]], of r] by simp
qed

lemma value_at_empty_object: "blank w \<Longrightarrow> blank w' \<Longrightarrow> value_at (w @ CHR ''{'' # w' @ CHR ''}'' # r) (OBJECT []) r"
  using value_atI [OF _ text_no_members, of w w' r] by simp

lemma value_at_object:
  assumes "blank w" "blank w'" "members_at [] s x r"
  shows "value_at (w @ CHR ''{'' # w' @ s) x r"
proof -
  obtain t kvs where t: "s = t @ CHR ''}'' # r" "members_text t kvs" "x = OBJECT (fold (\<lambda>(k, v). emplace k v) kvs [])"
    using assms(3) by (auto simp: members_at_def)
  then show ?thesis using value_atI [OF assms(1) text_object [OF blank_members [OF t(2) assms(2)]], of r] by simp
qed

lemma elements_at_last:
  assumes "value_at s v r" "match_char (CHR '']'') r = (True, r1)"
  shows "elements_at acc s (ARRAY (acc @ [v])) r1"
proof -
  obtain w t where t: "blank w" "s = w @ t @ r" "value_text t v" using assms(1) by (auto simp: value_at_def)
  obtain w' where w': "blank w'" "r = w' @ CHR '']'' # r1" using match_true_text [OF assms(2)] by blast
  show ?thesis using last_element [OF t(1,3) w'(1)] t(2) w'(2)
    unfolding elements_at_def by (intro exI [of _ "w @ t @ w'"] exI [of _ "[v]"]) simp
qed

lemma elements_at_next:
  assumes "value_at s v r" "match_char (CHR '']'') r = (False, r1)" "match_char (CHR '','') r1 = (True, r2)"
    "elements_at (acc @ [v]) r2 x r3"
  shows "elements_at acc s x r3"
proof -
  obtain w t where t: "blank w" "s = w @ t @ r" "value_text t v" using assms(1) by (auto simp: value_at_def)
  obtain v1 v2 where b: "blank v1" "r = v1 @ r1" "blank v2" "r1 = v2 @ CHR '','' # r2"
    using match_false_text [OF assms(2)] match_true_text [OF assms(3)] by blast
  then have w': "blank (v1 @ v2)" by simp
  obtain u vs where u: "r2 = u @ CHR '']'' # r3" "elements_text u vs" "x = ARRAY (acc @ v # vs)"
    using assms(4) by (auto simp: elements_at_def)
  show ?thesis using next_element [OF t(1,3) w' u(2)] t(2) b u
    unfolding elements_at_def by (intro exI [of _ "w @ t @ (v1 @ v2) @ CHR '','' # u"] exI [of _ "v # vs"]) simp
qed

lemma members_at_last:
  assumes "parse_string s = (Some k, r)" "match_char (CHR '':'') r = (True, r1)" "value_at r1 v r2"
    "match_char (CHR ''}'') r2 = (True, r3)"
  shows "members_at acc s (OBJECT (emplace k v acc)) r3"
proof -
  obtain v1 kt where k: "blank v1" "s = v1 @ quote_char # kt @ quote_char # r" "string_text kt k"
    using parse_string_text [OF assms(1)] by blast
  obtain v2 where c: "blank v2" "r = v2 @ CHR '':'' # r1" using match_true_text [OF assms(2)] by blast
  obtain v3 t where t: "blank v3" "r1 = v3 @ t @ r2" "value_text t v" using assms(3) by (auto simp: value_at_def)
  obtain v4 where e: "blank v4" "r2 = v4 @ CHR ''}'' # r3" using match_true_text [OF assms(4)] by blast
  show ?thesis using last_member [OF k(1,3) c(1) t(1,3) e(1)] k(2) c(2) t(2) e(2) unfolding members_at_def
    by (intro exI [of _ "v1 @ quote_char # kt @ quote_char # v2 @ CHR '':'' # v3 @ t @ v4"] exI [of _ "[(k, v)]"]) simp
qed

lemma members_at_next:
  assumes "parse_string s = (Some k, r)" "match_char (CHR '':'') r = (True, r1)" "value_at r1 v r2"
    "match_char (CHR ''}'') r2 = (False, r3)" "match_char (CHR '','') r3 = (True, r4)"
    "members_at (emplace k v acc) r4 x r5"
  shows "members_at acc s x r5"
proof -
  obtain v1 kt where k: "blank v1" "s = v1 @ quote_char # kt @ quote_char # r" "string_text kt k"
    using parse_string_text [OF assms(1)] by blast
  obtain v2 where c: "blank v2" "r = v2 @ CHR '':'' # r1" using match_true_text [OF assms(2)] by blast
  obtain v3 t where t: "blank v3" "r1 = v3 @ t @ r2" "value_text t v" using assms(3) by (auto simp: value_at_def)
  obtain v4 v6 where e: "blank v4" "r2 = v4 @ r3" "blank v6" "r3 = v6 @ CHR '','' # r4"
    using match_false_text [OF assms(4)] match_true_text [OF assms(5)] by blast
  then have v46: "blank (v4 @ v6)" by simp
  obtain u kvs where u: "r4 = u @ CHR ''}'' # r5" "members_text u kvs"
    "x = OBJECT (fold (\<lambda>(k, v). emplace k v) kvs (emplace k v acc))" using assms(6) by (auto simp: members_at_def)
  show ?thesis using next_member [OF k(1,3) c(1) t(1,3) v46 u(2)] k(2) c(2) t(2) e u unfolding members_at_def
    by (intro exI [of _ "v1 @ quote_char # kt @ quote_char # v2 @ CHR '':'' # v3 @ t @ (v4 @ v6) @ CHR '','' # u"]
        exI [of _ "(k, v) # kvs"]) simp
qed

lemma read_is_text:
  "parse_value s = (Some x, r) \<Longrightarrow> value_at s x r"
  "parse_array s = (Some x, r) \<Longrightarrow> value_at s x r"
  "parse_elements vs s = (Some x, r) \<Longrightarrow> elements_at vs s x r"
  "parse_object s = (Some x, r) \<Longrightarrow> value_at s x r"
  "parse_members ms s = (Some x, r) \<Longrightarrow> members_at ms s x r"
proof (induction s and s and vs s and s and ms s arbitrary: x r and x r and x r and x r and x r
    rule: parse_value_parse_array_parse_elements_parse_object_parse_members.induct)
  case (1 s)
  obtain ch cs where sk: "skip_ws s = ch # cs" using 1(3) by (auto simp: parse_value.simps split: list.splits)
  have lit: "value_at (skip_ws s) v (drop (length t) (ch # cs))" if "take (length t) (ch # cs) = t" "value_text t v" for t v
    using value_atI [of "[]" t v "drop (length t) (ch # cs)"] that by (metis append.left_neutral append_take_drop_id blank_simps(1) sk)
  consider (str) "ch = quote_char" | (obj) "ch \<noteq> quote_char" "ch = CHR ''{''"
    | (arr) "ch \<noteq> quote_char" "ch \<noteq> CHR ''{''" "ch = CHR ''[''"
    | (other) "ch \<noteq> quote_char" "ch \<noteq> CHR ''{''" "ch \<noteq> CHR ''[''" by blast
  then have "value_at (skip_ws s) x r"
  proof cases
    case str
    then obtain tmp where p: "parse_string (skip_ws s) = (Some tmp, r)" "x = STRING tmp"
      using 1(3) sk by (auto simp: parse_value.simps dv_make_defs split: prod.splits option.splits)
    then obtain w t where "blank w" "skip_ws s = w @ quote_char # t @ quote_char # r" "string_text t tmp"
      using parse_string_text [OF p(1)] by blast
    then show ?thesis using value_atI [OF _ text_string, of w t tmp r] p(2) by simp
  next
    case obj
    then show ?thesis using 1(1) [OF sk refl] 1(3) sk by (simp add: parse_value.simps)
  next
    case arr
    then show ?thesis using 1(2) [OF sk refl] 1(3) sk by (simp add: parse_value.simps)
  next
    case other
    have e: "parse_value s = (if take 4 (ch # cs) = ''true'' then (Some (BOOL True), drop 4 (ch # cs))
        else if take 5 (ch # cs) = ''false'' then (Some (BOOL False), drop 5 (ch # cs))
        else if take 4 (ch # cs) = ''null'' then (Some NIL, drop 4 (ch # cs))
        else (case parse_number (ch # cs) of (None, r) \<Rightarrow> (None, r) | (Some num, r) \<Rightarrow> (Some (NUMBER num), r)))"
      unfolding parse_value.simps [of s] sk list.case Let_def dv_make_defs using other by simp
    have num: "value_at (skip_ws s) (NUMBER d) u" if "parse_number (ch # cs) = (Some d, u)" for d u
      using parse_number_text [OF that] sk unfolding value_at_def by (metis text_number)
    have "length ''true'' = 4" "length ''false'' = 5" "length ''null'' = 4" by simp_all
    then show ?thesis using 1(3) num lit [OF _ text_true] lit [OF _ text_false] lit [OF _ text_null] unfolding e
      by (simp only: split: if_splits prod.splits option.splits) auto
  qed
  then show ?case by (rule value_at_skip)
next
  case (2 s)
  obtain r1 where m: "match_char (CHR ''['') s = (True, r1)"
    using 2(2) by (auto simp: parse_array.simps split: prod.splits bool.splits)
  obtain w where w: "blank w" "s = w @ CHR ''['' # r1" using match_true_text [OF m] by blast
  obtain b r2 where m2: "match_char (CHR '']'') r1 = (b, r2)" by force
  show ?case
  proof (cases b)
    case True
    then show ?thesis using 2(2) m m2 w match_true_text [of "CHR '']''" r1 r2] value_at_empty_array [OF w(1)]
      by (auto simp: parse_array.simps)
  next
    case False
    then obtain w' where "blank w'" "r1 = w' @ r2" using match_false_text [of _ r1 r2] m2 by (metis (full_types))
    then show ?thesis using 2 m m2 False w value_at_array [OF w(1)] by (simp add: parse_array.simps)
  qed
next
  case (3 acc s)
  obtain v r1 where v: "parse_value s = (Some v, r1)"
    using 3(3) by (auto simp: parse_elements.simps [of acc] split: prod.splits option.splits)
  obtain b r2 where m: "match_char (CHR '']'') r1 = (b, r2)" by force
  have at: "value_at s v r1" using 3(1) v by blast
  show ?case
  proof (cases b)
    case True
    then show ?thesis using 3(3) v m elements_at_last [OF at] by (auto simp: parse_elements.simps [of acc])
  next
    case False
    obtain r3 where m3: "match_char (CHR '','') r2 = (True, r3)"
      using 3(3) v m False by (auto simp: parse_elements.simps [of acc] split: prod.splits bool.splits)
    have "elements_at (acc @ [v]) r3 x r"
      using 3(2) [OF v [symmetric] refl _ _ _] 3(3) v m m3 False by (simp add: parse_elements.simps [of acc])
    then show ?thesis using elements_at_next [OF at _ m3] m False by simp
  qed
next
  case (4 s)
  obtain r1 where m: "match_char (CHR ''{'') s = (True, r1)"
    using 4(2) by (auto simp: parse_object.simps split: prod.splits bool.splits)
  obtain w where w: "blank w" "s = w @ CHR ''{'' # r1" using match_true_text [OF m] by blast
  obtain b r2 where m2: "match_char (CHR ''}'') r1 = (b, r2)" by force
  show ?case
  proof (cases b)
    case True
    then show ?thesis using 4(2) m m2 w match_true_text [of "CHR ''}''" r1 r2] value_at_empty_object [OF w(1)]
      by (auto simp: parse_object.simps)
  next
    case False
    then obtain w' where "blank w'" "r1 = w' @ r2" using match_false_text [of _ r1 r2] m2 by (metis (full_types))
    then show ?thesis using 4 m m2 False w value_at_object [OF w(1)] by (simp add: parse_object.simps)
  qed
next
  case (5 acc s)
  obtain k r1 where k: "parse_string s = (Some k, r1)"
    using 5(3) by (auto simp: parse_members.simps [of acc] split: prod.splits option.splits)
  obtain r2 where c: "match_char (CHR '':'') r1 = (True, r2)"
    using 5(3) k by (auto simp: parse_members.simps [of acc] split: prod.splits bool.splits)
  obtain v r3 where v: "parse_value r2 = (Some v, r3)"
    using 5(3) k c by (auto simp: parse_members.simps [of acc] split: prod.splits option.splits)
  obtain b r4 where m: "match_char (CHR ''}'') r3 = (b, r4)" by force
  have at: "value_at r2 v r3" using 5(1) [OF k [symmetric] refl c [symmetric] refl] v by blast
  show ?case
  proof (cases b)
    case True
    then show ?thesis using 5(3) k c v m members_at_last [OF k c at] by (auto simp: parse_members.simps [of acc])
  next
    case False
    obtain r5 where m5: "match_char (CHR '','') r4 = (True, r5)"
      using 5(3) k c v m False by (auto simp: parse_members.simps [of acc] split: prod.splits bool.splits)
    have "members_at (emplace k v acc) r5 x r"
      using 5(2) [OF k [symmetric] refl c [symmetric] refl v [symmetric] refl _ _ _] 5(3) k c v m m5 False
      by (simp add: parse_members.simps [of acc])
    then show ?thesis using members_at_next [OF k c at _ m5] m False by simp
  qed
qed

section \<open>Property\<close>

lemma stops_all_blank: "blank w \<Longrightarrow> stops w"
  using stops_blank [of w "[]"] by simp

lemma skip_ws_all: "blank w \<Longrightarrow> skip_ws w = []"
  by (simp add: skip_ws_def blank_def)

lemma all_skipped: "skip_ws s = [] \<Longrightarrow> blank s"
  by (simp add: skip_ws_def blank_def dropWhile_eq_Nil_conv)

lemma parse_json_done:
  "parse_json s = (Some v, pos) \<longleftrightarrow> pos = None \<and> (\<exists>r. parse_value s = (Some v, r) \<and> skip_ws r = [])"
  by (auto simp: parse_json_def Let_def split: prod.splits option.splits)

lemma parse_json_fails:
  "(\<nexists>v. parse_json s = (Some v, None)) \<Longrightarrow> \<exists>n \<le> length s. parse_json s = (None, Some n)"
  by (cases "parse_json s") (auto simp: parse_json_def Let_def split: prod.splits option.splits if_splits)

text \<open>C32: \<open>parse_json\<close> accepts exactly the texts of the grammar above and reads each as the variable
  the grammar gives it: a text is accepted with the result \<open>v\<close> if and only if it is, between blanks,
  a text of a value that stands for \<open>v\<close>, and in every other case it is refused with a position inside
  the text.\<close>

theorem parse_json_grammar:
  "(parse_json s = (Some v, None) \<longleftrightarrow>
      (\<exists>w t w'. blank w \<and> blank w' \<and> s = w @ t @ w' \<and> value_text t v)) \<and>
   ((\<nexists>w t w' x. blank w \<and> blank w' \<and> s = w @ t @ w' \<and> value_text t x) \<longleftrightarrow>
      (\<exists>n \<le> length s. parse_json s = (None, Some n)))"
proof -
  have eq: "parse_json s = (Some x, None) \<longleftrightarrow> (\<exists>w t w'. blank w \<and> blank w' \<and> s = w @ t @ w' \<and> value_text t x)" for x
  proof
    assume "parse_json s = (Some x, None)"
    then obtain r where r: "parse_value s = (Some x, r)" "skip_ws r = []" by (auto simp: parse_json_done)
    then show "\<exists>w t w'. blank w \<and> blank w' \<and> s = w @ t @ w' \<and> value_text t x"
      using read_is_text(1) [OF r(1)] all_skipped [OF r(2)] unfolding value_at_def by blast
  next
    assume "\<exists>w t w'. blank w \<and> blank w' \<and> s = w @ t @ w' \<and> value_text t x"
    then obtain w t w' where t: "blank w" "blank w'" "s = w @ t @ w'" "value_text t x" by blast
    then have "parse_value s = (Some x, w')"
      using text_is_read(1) [OF t(4) stops_all_blank [OF t(2)]] by (simp add: parse_value_ws [OF blank_alt])
    then show "parse_json s = (Some x, None)" using skip_ws_all [OF t(2)] by (simp add: parse_json_done)
  qed
  have "(\<nexists>x. parse_json s = (Some x, None)) \<longleftrightarrow> (\<exists>n \<le> length s. parse_json s = (None, Some n))"
    using parse_json_fails [of s] by auto
  then show ?thesis using eq by (intro conjI) blast+
qed

end
