(* ===== verification/Printers.thy ===== *)
theory Printers
  imports DynVar
begin

text \<open>
  The debugging printers of dynamic_variable.cpp, lines 803 to 934: \<open>print_r\<close> and
  \<open>print_any_limited\<close>, whose limit applies to the elements of the outermost container only (nested
  calls pass \<open>0\<close>, no limit). The output stream is the string that is returned; indentation is a
  natural number (a negative one makes \<open>std::string(d * indent, ' ')\<close> throw).
\<close>

definition spaces :: "nat \<Rightarrow> string" where
  "spaces n = replicate n (CHR '' '')"

definition endl :: string where
  "endl = [CHR 0x0A]"

fun print_r_inner :: "nat \<Rightarrow> nat \<Rightarrow> dv \<Rightarrow> string"
  and print_r_elements :: "nat \<Rightarrow> nat \<Rightarrow> dv list \<Rightarrow> string"
  and print_r_members :: "nat \<Rightarrow> nat \<Rightarrow> (string \<times> dv) list \<Rightarrow> string" where
  "print_r_inner i d NIL = ''null''"
| "print_r_inner i d (STRING s) = [CHR 0x22] @ s @ [CHR 0x22]"
| "print_r_inner i d (NUMBER x) = fmt_g x"
| "print_r_inner i d (BOOL b) = (if b then ''true'' else ''false'')"
| "print_r_inner i d (ARRAY vs) = ''['' @ endl @ print_r_elements i d vs @ spaces (d * i) @ '']''"
| "print_r_inner i d (OBJECT m) = ''{'' @ endl @ print_r_members i d m @ spaces (d * i) @ ''}''"
| "print_r_elements i d [] = []"
| "print_r_elements i d (v # vs) =
     spaces ((d + 1) * i) @ print_r_inner i (d + 1) v @ (if vs \<noteq> [] then '','' else []) @ endl @
     print_r_elements i d vs"
| "print_r_members i d [] = []"
| "print_r_members i d (kv # m) =
     spaces ((d + 1) * i) @ fst kv @ '': '' @ print_r_inner i (d + 1) (snd kv) @
     (if m \<noteq> [] then '','' else []) @ endl @ print_r_members i d m"

definition print_r :: "dv \<Rightarrow> nat \<Rightarrow> string" where
  "print_r v indent =
     (let out = print_r_inner indent 0 v
      in if out \<noteq> [] \<and> last out \<noteq> CHR 0x0A then out @ endl else out)"

text \<open>\<open>printed\<close> counts the elements before the current one.\<close>

fun print_any_limited :: "nat \<Rightarrow> nat \<Rightarrow> nat \<Rightarrow> dv \<Rightarrow> string"
  and any_elements :: "nat \<Rightarrow> nat \<Rightarrow> nat \<Rightarrow> nat \<Rightarrow> dv list \<Rightarrow> string"
  and any_members :: "nat \<Rightarrow> nat \<Rightarrow> nat \<Rightarrow> nat \<Rightarrow> (string \<times> dv) list \<Rightarrow> string" where
  "print_any_limited limit i d NIL = ''null'' @ endl"
| "print_any_limited limit i d (STRING s) = [CHR 0x22] @ s @ [CHR 0x22] @ endl"
| "print_any_limited limit i d (NUMBER x) = fmt_g x @ endl"
| "print_any_limited limit i d (BOOL b) = (if b then ''true'' else ''false'') @ endl"
| "print_any_limited limit i d (ARRAY vs) =
     ''['' @ endl @ any_elements limit 0 i d vs @ spaces (d * i) @ '']'' @ endl"
| "print_any_limited limit i d (OBJECT m) =
     ''{'' @ endl @ any_members limit 0 i d m @ spaces (d * i) @ ''}'' @ endl"
| "any_elements limit printed i d [] = []"
| "any_elements limit printed i d (v # vs) =
     (if limit \<noteq> 0 \<and> limit \<le> printed then spaces ((d + 1) * i) @ ''... (truncated)'' @ endl
      else spaces ((d + 1) * i) @ print_any_limited 0 i (d + 1) v @ any_elements limit (printed + 1) i d vs)"
| "any_members limit printed i d [] = []"
| "any_members limit printed i d (kv # m) =
     (if limit \<noteq> 0 \<and> limit \<le> printed then spaces ((d + 1) * i) @ ''... (truncated)'' @ endl
      else spaces ((d + 1) * i) @ fst kv @ '': '' @ print_any_limited 0 i (d + 1) (snd kv) @
        any_members limit (printed + 1) i d m)"

section \<open>The limit\<close>

text \<open>What the elements print to without a limit, one line group each.\<close>

definition element_text :: "nat \<Rightarrow> nat \<Rightarrow> dv \<Rightarrow> string" where
  "element_text i d v = spaces ((d + 1) * i) @ print_any_limited 0 i (d + 1) v"

definition member_text :: "nat \<Rightarrow> nat \<Rightarrow> string \<times> dv \<Rightarrow> string" where
  "member_text i d kv = spaces ((d + 1) * i) @ fst kv @ '': '' @ print_any_limited 0 i (d + 1) (snd kv)"

definition cut :: "nat \<Rightarrow> nat \<Rightarrow> nat \<Rightarrow> ('a \<Rightarrow> string) \<Rightarrow> 'a list \<Rightarrow> string" where
  "cut limit i d f xs =
     (if limit = 0 \<or> length xs \<le> limit then concat (map f xs)
      else concat (map f (take limit xs)) @ spaces ((d + 1) * i) @ ''... (truncated)'' @ endl)"

lemma any_elements_cut:
  "limit = 0 \<or> printed < limit \<Longrightarrow> any_elements limit printed i d vs =
     cut (if limit = 0 then 0 else limit - printed) i d (element_text i d) vs"
proof (induction vs arbitrary: printed)
  case (Cons v vs)
  show ?case
  proof (cases "limit = 0 \<or> printed + 1 < limit")
    case True
    then have "limit = 0 \<or> limit - printed = Suc (limit - (printed + 1))" by auto
    then show ?thesis using Cons True by (auto simp: cut_def element_text_def)
  next
    case False
    then have "limit = Suc printed" using Cons.prems by simp
    then show ?thesis by (cases vs) (simp_all add: cut_def element_text_def)
  qed
qed (simp add: cut_def)

lemma any_members_cut:
  "limit = 0 \<or> printed < limit \<Longrightarrow> any_members limit printed i d m =
     cut (if limit = 0 then 0 else limit - printed) i d (member_text i d) m"
proof (induction m arbitrary: printed)
  case (Cons kv m)
  show ?case
  proof (cases "limit = 0 \<or> printed + 1 < limit")
    case True
    then have "limit = 0 \<or> limit - printed = Suc (limit - (printed + 1))" by auto
    then show ?thesis using Cons True by (auto simp: cut_def member_text_def)
  next
    case False
    then have "limit = Suc printed" using Cons.prems by simp
    then show ?thesis by (cases m) (simp_all add: cut_def member_text_def)
  qed
qed (simp add: cut_def)

section \<open>Properties\<close>

text \<open>\<open>print_any_limited\<close> shows the first \<open>limit\<close> elements of a container in full, whatever is
  inside them, and one truncation line for the rest; a limit of zero, or one that is not exceeded,
  shows everything.\<close>

theorem print_limit:
  "print_any_limited limit i d (ARRAY vs) =
     ''['' @ endl @ cut limit i d (element_text i d) vs @ spaces (d * i) @ '']'' @ endl \<and>
   print_any_limited limit i d (OBJECT m) =
     ''{'' @ endl @ cut limit i d (member_text i d) m @ spaces (d * i) @ ''}'' @ endl"
  using any_elements_cut [of limit 0 i d vs] any_members_cut [of limit 0 i d m]
  by (cases "limit = 0") simp_all

end
