(* ===== verification/Codec.thy ===== *)
theory Codec
  imports Prelude
begin

text \<open>
  The encoders and decoders of http.cpp, lines 11 to 181: base64, percent encoding and query
  strings, with the trimming helpers. Loops over an index are kept as such where the code looks
  ahead with \<open>find\<close>; a loop that only walks forward is a recursion on the rest of the string.
\<close>

section \<open>Base64\<close>

definition b64_tbl :: string where
  "b64_tbl = ''ABCDEFGHIJKLMNOPQRSTUVWXYZabcdefghijklmnopqrstuvwxyz0123456789+/''"

definition b64_char :: "u32 \<Rightarrow> char" where
  "b64_char w = b64_tbl ! unat (w AND 63)"

text \<open>The word \<open>v\<close> of three bytes, the missing ones of the last group being zero.\<close>

definition b64_word :: "bytes \<Rightarrow> nat \<Rightarrow> u32" where
  "b64_word data i =
     push_bit 16 (ucast (data ! i)) OR
     (if i + 1 < length data then push_bit 8 (ucast (data ! (i + 1))) else 0) OR
     (if i + 2 < length data then ucast (data ! (i + 2)) else 0)"

function base64_loop :: "bytes \<Rightarrow> nat \<Rightarrow> string \<Rightarrow> string" where
  "base64_loop data i out =
     (if i < length data then
        (let v = b64_word data i
         in base64_loop data (i + 3)
              (out @ [b64_char (drop_bit 18 v), b64_char (drop_bit 12 v),
                      if i + 1 < length data then b64_char (drop_bit 6 v) else CHR ''='',
                      if i + 2 < length data then b64_char v else CHR ''='']))
      else out)"
  by pat_completeness auto
termination by (relation "measure (\<lambda>(data, i, out). length data - i)") auto

declare base64_loop.simps [simp del]

definition base64_encode :: "bytes \<Rightarrow> string" where
  "base64_encode data = base64_loop data 0 []"

section \<open>Trimming\<close>

definition trim_spaces :: "string \<Rightarrow> string" where
  "trim_spaces s = trim_by (\<lambda>c. c = CHR '' '' \<or> c = CHR 0x09) s"

definition trim_ascii_ws :: "string \<Rightarrow> string" where
  "trim_ascii_ws s = trim_by (\<lambda>c. uchar c \<le> 32) s"

section \<open>Percent encoding\<close>

definition hexval :: "char \<Rightarrow> int" where
  "hexval c =
     (if 48 \<le> uchar c \<and> uchar c \<le> 57 then int (uchar c) - 48
      else if 97 \<le> uchar c \<and> uchar c \<le> 102 then 10 + (int (uchar c) - 97)
      else if 65 \<le> uchar c \<and> uchar c \<le> 70 then 10 + (int (uchar c) - 65)
      else - 1)"

fun url_decode :: "string \<Rightarrow> string" where
  "url_decode [] = []"
| "url_decode (c # s) =
     (if c = CHR ''+'' then CHR '' '' # url_decode s
      else if c = CHR ''%'' \<and> 2 \<le> length s \<and> 0 \<le> hexval (s ! 0) \<and> 0 \<le> hexval (s ! 1) then
        char_of (nat (16 * hexval (s ! 0) + hexval (s ! 1))) # url_decode (drop 2 s)
      else c # url_decode s)"

definition unreserved :: "char \<Rightarrow> bool" where
  "unreserved c \<longleftrightarrow>
     65 \<le> uchar c \<and> uchar c \<le> 90 \<or> 97 \<le> uchar c \<and> uchar c \<le> 122 \<or> 48 \<le> uchar c \<and> uchar c \<le> 57 \<or>
     c = CHR ''-'' \<or> c = CHR ''_'' \<or> c = CHR ''.'' \<or> c = CHR ''~''"

definition hex_digit :: "nat \<Rightarrow> char" where
  "hex_digit v = (if v < 10 then char_of (48 + v) else char_of (65 + (v - 10)))"

definition url_encode :: "string \<Rightarrow> string" where
  "url_encode s = concat (map (\<lambda>c.
     if unreserved c then [c]
     else [CHR ''%'', hex_digit (uchar c div 16), hex_digit (uchar c mod 16)]) s)"

section \<open>Query strings\<close>

fun build_query_loop :: "bool \<Rightarrow> string umap \<Rightarrow> string" where
  "build_query_loop first [] = []"
| "build_query_loop first (kv # m) =
     (if first then [] else ''&'') @ url_encode (fst kv) @ ''='' @ url_encode (snd kv) @
     build_query_loop False m"

definition build_query :: "string umap \<Rightarrow> string" where
  "build_query params = build_query_loop True params"

text \<open>\<open>out[key] = val\<close> for a key that is not empty.\<close>

definition put_nonempty :: "string \<Rightarrow> string \<Rightarrow> string umap \<Rightarrow> string umap" where
  "put_nonempty key val out = (if key \<noteq> [] then AList.update key val out else out)"

text \<open>One turn of the loop: the segment between \<open>start\<close> and \<open>amp\<close>.\<close>

definition query_segment :: "string \<Rightarrow> nat \<Rightarrow> nat \<Rightarrow> string umap \<Rightarrow> string umap" where
  "query_segment input start amp out =
     (case str_find_char input (CHR ''='') start of
        None \<Rightarrow>
          if start < amp then put_nonempty (url_decode (substr input start (amp - start))) [] out else out
      | Some eq \<Rightarrow>
          if amp < eq then
            (if start < amp then put_nonempty (url_decode (substr input start (amp - start))) [] out else out)
          else
            put_nonempty (url_decode (substr input start (eq - start)))
              (url_decode (substr input (eq + 1) (amp - (eq + 1)))) out)"

definition or_end :: "nat \<Rightarrow> nat option \<Rightarrow> nat" where
  "or_end n p = (case p of None \<Rightarrow> n | Some i \<Rightarrow> i)"

function query_loop :: "string \<Rightarrow> nat \<Rightarrow> string umap \<Rightarrow> string umap" where
  "query_loop input start out =
     (if start \<le> length input then
        (let amp = or_end (length input) (str_find_char input (CHR ''&'') start);
             out' = query_segment input start amp out
         in if amp = length input then out' else query_loop input (amp + 1) out')
      else out)"
  by pat_completeness auto
termination
  by (relation "measure (\<lambda>(input, start, out). Suc (length input) - start)")
    (auto simp: or_end_def dest: str_find_char_Some split: option.splits)

declare query_loop.simps [simp del]

definition parse_query_string :: "string \<Rightarrow> string umap \<Rightarrow> string umap" where
  "parse_query_string input out = query_loop input 0 out"

section \<open>Percent encoding is undone by decoding\<close>

lemma hexval_hex_digit [simp]: "v < 16 \<Longrightarrow> hexval (hex_digit v) = int v"
  by (auto simp: hexval_def hex_digit_def)

lemma unreserved_not_special: "unreserved c \<Longrightarrow> c \<noteq> CHR ''+'' \<and> c \<noteq> CHR ''%'' \<and> c \<noteq> CHR ''&'' \<and> c \<noteq> CHR ''=''"
  by (auto simp: unreserved_def)

lemma nibbles: "nat (16 * int (n div 16) + int (n mod 16)) = n"
proof -
  have "16 * int (n div 16) + int (n mod 16) = int n" by (metis mult_div_mod_eq of_nat_add of_nat_mult of_nat_numeral)
  then show ?thesis by simp
qed

lemma url_encode_Nil [simp]: "url_encode [] = []"
  by (simp add: url_encode_def)

lemma url_encode_Cons: "url_encode (c # s) =
    (if unreserved c then [c] else [CHR ''%'', hex_digit (uchar c div 16), hex_digit (uchar c mod 16)]) @ url_encode s"
  by (simp add: url_encode_def)

lemma url_decode_encode_append: "url_decode (url_encode s @ r) = s @ url_decode r"
proof (induction s)
  case (Cons c s)
  have "uchar c div 16 < 16" by (simp add: less_mult_imp_div_less)
  then show ?case using Cons unreserved_not_special [of c]
    by (simp add: url_encode_Cons nibbles)
qed simp

lemma url_decode_encode: "url_decode (url_encode s) = s"
  using url_decode_encode_append [of s "[]"] by simp

lemma hex_digit_not_special: "v < 16 \<Longrightarrow> hex_digit v \<noteq> CHR ''&'' \<and> hex_digit v \<noteq> CHR ''=''"
  by (auto simp: hex_digit_def uchar_inj [symmetric])

lemma url_encode_no_special: "CHR ''&'' \<notin> set (url_encode s) \<and> CHR ''='' \<notin> set (url_encode s)"
proof (induction s)
  case (Cons c s)
  have "uchar c div 16 < 16" by (simp add: less_mult_imp_div_less)
  then show ?case
    using Cons unreserved_not_special [of c] hex_digit_not_special [of "uchar c div 16"]
      hex_digit_not_special [of "uchar c mod 16"]
    by (auto simp: url_encode_Cons)
qed simp

section \<open>Query strings against splitting at separators\<close>

fun split_on :: "'a \<Rightarrow> 'a list \<Rightarrow> 'a list list" where
  "split_on c [] = [[]]"
| "split_on c (x # xs) =
     (if x = c then [] # split_on c xs
      else (case split_on c xs of [] \<Rightarrow> [[x]] | seg # segs \<Rightarrow> (x # seg) # segs))"

definition query_pair :: "string \<Rightarrow> string \<times> string" where
  "query_pair seg =
     (url_decode (takeWhile (\<lambda>c. c \<noteq> CHR ''='') seg), url_decode (drop 1 (dropWhile (\<lambda>c. c \<noteq> CHR ''='') seg)))"

definition put_segment :: "string \<Rightarrow> string umap \<Rightarrow> string umap" where
  "put_segment seg out = (case query_pair seg of (k, v) \<Rightarrow> put_nonempty k v out)"

lemma split_on_neq_Nil [simp]: "split_on c xs \<noteq> []"
  by (induction xs) (auto split: list.splits)

lemma split_on_find:
  "split_on c xs = (case find_idx (\<lambda>x. x = c) xs of
     None \<Rightarrow> [xs] | Some k \<Rightarrow> take k xs # split_on c (drop (Suc k) xs))"
  by (induction xs) (auto split: option.splits)

lemma split_on_append: "c \<notin> set xs \<Longrightarrow> split_on c (xs @ c # ys) = xs # split_on c ys"
  by (induction xs) auto

lemma split_on_free: "c \<notin> set xs \<Longrightarrow> split_on c xs = [xs]"
  by (induction xs) auto

lemma put_segment_split:
  "put_segment seg out = (case find_idx (\<lambda>c. c = CHR ''='') seg of
     None \<Rightarrow> put_nonempty (url_decode seg) [] out
   | Some k \<Rightarrow> put_nonempty (url_decode (take k seg)) (url_decode (drop (Suc k) seg)) out)"
proof (cases "\<exists>c\<in>set seg. c = CHR ''=''")
  case True
  let ?t = "takeWhile (\<lambda>c. c \<noteq> CHR ''='') seg"
  have t: "take (length ?t) seg = ?t" by (metis takeWhile_eq_take)
  have "drop (length ?t) seg = dropWhile (\<lambda>c. c \<noteq> CHR ''='') seg" by (metis dropWhile_eq_drop)
  then have "drop (Suc (length ?t)) seg = drop (Suc 0) (dropWhile (\<lambda>c. c \<noteq> CHR ''='') seg)"
    by (metis drop_drop plus_1_eq_Suc One_nat_def)
  then show ?thesis using True t
    by (simp add: put_segment_def query_pair_def find_idx_takeWhile)
next
  case False
  then have "query_pair seg = (url_decode seg, [])"
    unfolding query_pair_def
    by (subst takeWhile_eq_all_conv [THEN iffD2], force, subst dropWhile_eq_Nil_conv [THEN iffD2], force, simp)
  with False show ?thesis by (simp add: put_segment_def find_idx_takeWhile)
qed

lemma find_idx_take:
  "find_idx P (take k xs) = (case find_idx P xs of None \<Rightarrow> None | Some j \<Rightarrow> if j < k then Some j else None)"
proof (induction xs arbitrary: k)
  case (Cons x xs)
  then show ?case by (cases k) (auto split: option.splits)
qed simp

lemma put_nonempty_Nil [simp]: "put_nonempty [] v out = out"
  by (simp add: put_nonempty_def)

lemma query_segment_eq:
  assumes "start \<le> length input" and amp: "amp = or_end (length input) (str_find_char input (CHR ''&'') start)"
  shows "query_segment input start amp out = put_segment (take (amp - start) (drop start input)) out"
proof -
  let ?d = "drop start input"
  define k where "k = amp - start"
  have le: "start \<le> amp" "amp \<le> length input"
    using assms str_find_char_Some by (auto simp: or_end_def less_imp_le split: option.splits)
  have ak: "amp = start + k" using le by (simp add: k_def)
  have ne: "j \<noteq> k" if "find_idx (\<lambda>c. c = CHR ''='') ?d = Some j" for j
  proof
    assume "j = k"
    with that have a: "input ! amp = CHR ''=''" "k < length ?d" using ak le by (auto simp: find_idx_Some)
    then have "amp < length input" using ak by simp
    with amp a(1) str_find_char_Some(3) [of input "CHR ''&''" start amp] show False
      by (auto simp: or_end_def split: option.splits)
  qed
  show ?thesis
  proof (cases "find_idx (\<lambda>c. c = CHR ''='') ?d")
    case None
    then show ?thesis
      by (cases k) (simp_all add: query_segment_def str_find_char_def put_segment_split find_idx_take substr_def ak)
  next
    case (Some j)
    with ne have "j < k \<or> k < j" by fastforce
    with Some show ?thesis
      by (cases k) (auto simp: query_segment_def str_find_char_def put_segment_split find_idx_take substr_def ak
          drop_take add.commute min_def)
  qed
qed

lemma query_loop_split:
  "start \<le> length input \<Longrightarrow> query_loop input start out = fold put_segment (split_on (CHR ''&'') (drop start input)) out"
proof (induction input start out rule: query_loop.induct)
  case (1 input start out)
  define amp where "amp = or_end (length input) (str_find_char input (CHR ''&'') start)"
  have seg: "query_segment input start amp out = put_segment (take (amp - start) (drop start input)) out"
    using 1(2) amp_def by (rule query_segment_eq)
  show ?case
  proof (cases "find_idx (\<lambda>c. c = CHR ''&'') (drop start input)")
    case None
    then have "amp = length input" by (simp add: amp_def or_end_def str_find_char_def)
    with None 1(2) seg show ?thesis
      by (subst query_loop.simps) (simp add: Let_def split_on_find [of _ "drop start input"] amp_def [symmetric])
  next
    case (Some k)
    then have "amp = start + k" by (simp add: amp_def or_end_def str_find_char_def)
    moreover have "start + k < length input" using Some by (auto simp: find_idx_Some)
    ultimately have a: "amp = start + k" "amp < length input" "amp \<noteq> length input" by simp_all
    have "query_loop input (amp + 1) (query_segment input start amp out)
        = fold put_segment (split_on (CHR ''&'') (drop (amp + 1) input)) (query_segment input start amp out)"
      using 1(1) [OF 1(2) amp_def refl] a by simp
    with Some 1(2) seg a show ?thesis
      by (subst query_loop.simps)
        (simp add: Let_def split_on_find [of _ "drop start input"] amp_def [symmetric] add.commute)
  qed
qed

section \<open>Building and parsing a query\<close>

definition encode_pair :: "string \<times> string \<Rightarrow> string" where
  "encode_pair kv = url_encode (fst kv) @ ''='' @ url_encode (snd kv)"

lemma encode_pair_free: "CHR ''&'' \<notin> set (encode_pair kv)"
  using url_encode_no_special by (simp add: encode_pair_def)

lemma query_pair_encode: "query_pair (encode_pair kv) = kv"
proof -
  have "\<forall>c\<in>set (url_encode (fst kv)). c \<noteq> CHR ''=''" using url_encode_no_special by metis
  then show ?thesis
    by (simp add: query_pair_def encode_pair_def takeWhile_append2 dropWhile_append2 url_decode_encode)
qed

lemma split_build_query:
  "split_on (CHR ''&'') (encode_pair kv @ build_query_loop False m) = map encode_pair (kv # m)"
proof (induction m arbitrary: kv)
  case Nil
  then show ?case using encode_pair_free by (simp add: split_on_free)
next
  case (Cons kv' m)
  have "build_query_loop False (kv' # m) = CHR ''&'' # encode_pair kv' @ build_query_loop False m"
    by (simp add: encode_pair_def)
  then show ?case using Cons [of kv'] encode_pair_free by (simp add: split_on_append del: build_query_loop.simps)
qed

lemma fold_put_fresh:
  "distinct (map fst (acc @ m)) \<Longrightarrow> \<forall>kv\<in>set m. fst kv \<noteq> [] \<Longrightarrow>
    fold put_segment (map encode_pair m) acc = acc @ m"
proof (induction m arbitrary: acc)
  case (Cons kv m)
  have "put_segment (encode_pair kv) acc = acc @ [kv]"
    using Cons.prems by (subst put_segment_def, cases kv)
      (auto simp: query_pair_encode put_nonempty_def update_fresh)
  then show ?case using Cons.IH [of "acc @ [kv]"] Cons.prems by simp
qed simp

section \<open>Base64 against a reference decoder\<close>

text \<open>The decoder of RFC 4648: four characters to three bytes, padding only at the end.\<close>

definition b64_index :: "char \<Rightarrow> u32 option" where
  "b64_index c = map_option of_nat (find_idx (\<lambda>x. x = c) b64_tbl)"

fun b64_decode :: "string \<Rightarrow> bytes option" where
  "b64_decode [] = Some []"
| "b64_decode [c1, c2, c3, c4] =
     (case (b64_index c1, b64_index c2) of
        (Some a, Some b) \<Rightarrow>
          (let x = ucast (push_bit 2 a OR drop_bit 4 b) in
           if c3 = CHR ''='' \<and> c4 = CHR ''='' then Some [x]
           else (case b64_index c3 of
                   None \<Rightarrow> None
                 | Some c \<Rightarrow>
                     let y = ucast (push_bit 4 b OR drop_bit 2 c) in
                     if c4 = CHR ''='' then Some [x, y]
                     else map_option (\<lambda>d. [x, y, ucast (push_bit 6 c OR d)]) (b64_index c4)))
      | _ \<Rightarrow> None)"
| "b64_decode (c1 # c2 # c3 # c4 # s) =
     (case (b64_index c1, b64_index c2, b64_index c3, b64_index c4) of
        (Some a, Some b, Some c, Some d) \<Rightarrow>
          map_option (\<lambda>bs. ucast (push_bit 2 a OR drop_bit 4 b) # ucast (push_bit 4 b OR drop_bit 2 c) #
            ucast (push_bit 6 c OR d) # bs) (b64_decode s)
      | _ \<Rightarrow> None)"
| "b64_decode _ = None"

lemma b64_tbl_distinct: "distinct b64_tbl" "length b64_tbl = 64"
  by (simp_all add: b64_tbl_def)

lemma find_idx_nth: "distinct xs \<Longrightarrow> k < length xs \<Longrightarrow> find_idx (\<lambda>x. x = xs ! k) xs = Some k"
  by (auto simp: find_idx_Some nth_eq_iff_index_eq)

lemma mask_63: "(63 :: u32) = mask 6" by (simp add: mask_eq_exp_minus_1)
lemma unat_and_63: "unat (w AND 63 :: u32) < 64"
proof -
  have "take_bit 6 (unat w) < 2 ^ 6" by (rule take_bit_nat_less_exp)
  then show ?thesis by (simp add: mask_63 take_bit_eq_mask [symmetric] unsigned_take_bit_eq)
qed
lemma b64_index_char [simp]: "b64_index (b64_char w) = Some (w AND 63)"
  using find_idx_nth [OF b64_tbl_distinct(1), of "unat (w AND 63)"] unat_and_63 [of w]
  by (simp add: b64_index_def b64_char_def b64_tbl_distinct(2))

lemma b64_char_not_pad: "b64_char w \<noteq> CHR ''=''"
proof -
  have "CHR ''='' \<notin> set b64_tbl" by (simp add: b64_tbl_def)
  then show ?thesis using unat_and_63 [of w] b64_tbl_distinct(2) by (metis b64_char_def nth_mem)
qed

text \<open>The four characters of a full group and of the two partial ones.\<close>

fun b64_groups :: "bytes \<Rightarrow> string" where
  "b64_groups [] = []"
| "b64_groups [a] =
     (let v = push_bit 16 (ucast a) in
      [b64_char (drop_bit 18 v), b64_char (drop_bit 12 v), CHR ''='', CHR ''=''])"
| "b64_groups [a, b] =
     (let v = push_bit 16 (ucast a) OR push_bit 8 (ucast b) in
      [b64_char (drop_bit 18 v), b64_char (drop_bit 12 v), b64_char (drop_bit 6 v), CHR ''=''])"
| "b64_groups (a # b # c # r) =
     (let v = push_bit 16 (ucast a) OR push_bit 8 (ucast b) OR ucast c in
      [b64_char (drop_bit 18 v), b64_char (drop_bit 12 v), b64_char (drop_bit 6 v), b64_char v] @ b64_groups r)"

lemma drop_nth_Cons: "drop i data = a # r \<Longrightarrow> i < length data \<and> data ! i = a \<and> drop (Suc i) data = r"
  by (metis Cons_nth_drop_Suc drop_all list.inject list.simps(3) not_less)

lemma base64_loop_groups: "base64_loop data i out = out @ b64_groups (drop i data)"
proof (induction data i out rule: base64_loop.induct)
  case (1 data i out)
  show ?case
  proof (cases "drop i data" rule: b64_groups.cases)
    case 1
    then show ?thesis by (simp add: base64_loop.simps)
  next
    case (2 a)
    then have "i < length data" "data ! i = a" "length data = Suc i"
      using drop_nth_Cons [OF 2] length_drop [of i data] by auto
    with 2 "1.IH" [OF _ refl] show ?thesis
      by (subst base64_loop.simps) (simp add: Let_def b64_word_def)
  next
    case (3 a b)
    from drop_nth_Cons [OF 3] have s: "i < length data" "data ! i = a" "drop (Suc i) data = [b]" by auto
    from drop_nth_Cons [OF s(3)] have "data ! Suc i = b" "length data = Suc (Suc i)"
      using length_drop [of "Suc i" data] s(3) by auto
    with 3 s "1.IH" [OF _ refl] show ?thesis
      by (subst base64_loop.simps) (simp add: Let_def b64_word_def)
  next
    case (4 a b c r)
    from drop_nth_Cons [OF 4] have s: "i < length data" "data ! i = a" "drop (Suc i) data = b # c # r" by auto
    from drop_nth_Cons [OF s(3)] have t: "Suc i < length data" "data ! Suc i = b" "drop (Suc (Suc i)) data = c # r" by auto
    from drop_nth_Cons [OF t(3)] have u: "Suc (Suc i) < length data" "data ! Suc (Suc i) = c" "drop (i + 3) data = r"
      by (auto simp: numeral_3_eq_3)
    with 4 s t u "1.IH" [OF _ refl] show ?thesis
      by (subst base64_loop.simps) (simp add: Let_def b64_word_def)
  qed
qed

lemma b64_bits:
  fixes a b c :: u8
  assumes v: "v = (push_bit 16 (ucast a) OR push_bit 8 (ucast b) OR ucast c :: u32)"
  shows "ucast (push_bit 2 (drop_bit 18 v AND 63) OR drop_bit 4 (drop_bit 12 v AND 63)) = a"
    and "ucast (push_bit 4 (drop_bit 12 v AND 63) OR drop_bit 2 (drop_bit 6 v AND 63)) = b"
    and "ucast (push_bit 6 (drop_bit 6 v AND 63) OR (v AND 63)) = c"
  by (rule byte_eqI; simp add: v mask_63 bit_simps)+

lemma length_b64_groups: "length (b64_groups bs) = 4 * ((length bs + 2) div 3)"
proof (induction bs rule: b64_groups.induct)
  case (4 a b c r)
  have "(length r + 5) div 3 = Suc ((length r + 2) div 3)" by presburger
  with 4 show ?case by (simp add: Let_def add.commute)
qed (simp_all add: Let_def)

lemma b64_decode_groups: "b64_decode (b64_groups bs) = Some bs"
proof (induction bs rule: b64_groups.induct)
  case (2 a)
  show ?case using b64_bits(1) [of _ a 0 0, OF refl] by (simp add: Let_def)
next
  case (3 a b)
  show ?case using b64_bits(1,2) [of _ a b 0, OF refl] by (simp add: Let_def b64_char_not_pad)
next
  case (4 a b c r)
  have bits: "b64_decode (b64_char (drop_bit 18 v) # b64_char (drop_bit 12 v) # b64_char (drop_bit 6 v) # b64_char v # t)
    = map_option (\<lambda>bs. a # b # c # bs) (b64_decode t)"
    if "v = push_bit 16 (ucast a) OR push_bit 8 (ucast b) OR ucast c" for v t
    using b64_bits [OF that] by (cases t) (simp_all add: Let_def b64_char_not_pad)
  with 4 show ?case by (simp add: Let_def)
qed simp

section \<open>Properties\<close>

text \<open>\<open>base64_encode\<close> writes what the decoder of RFC 4648 reads back as the same bytes, four
  characters for every three bytes begun, for every length.\<close>

theorem base64_roundtrip:
  "b64_decode (base64_encode data) = Some data \<and> length (base64_encode data) = 4 * ((length data + 2) div 3)"
  by (simp add: base64_encode_def base64_loop_groups b64_decode_groups length_b64_groups)

text \<open>\<open>parse_query_string\<close>, whose loop searches for separators by index, splits the input at
  every ampersand, each segment at its first equals sign, decodes both sides and stores the pairs
  with a nonempty key in order, a later pair replacing an earlier one.\<close>

theorem parse_query_string_splits:
  "parse_query_string input out = fold put_segment (split_on (CHR ''&'') input) out"
  using query_loop_split [of 0 input out] by (simp add: parse_query_string_def)

text \<open>C17: a map with nonempty keys survives \<open>build_query\<close> and \<open>parse_query_string\<close>, whatever bytes
  its keys and values hold.\<close>

theorem query_roundtrip:
  assumes "umap_ok params" "\<forall>kv\<in>set params. fst kv \<noteq> []"
  shows "parse_query_string (build_query params) [] = params"
proof (cases params)
  case Nil
  then show ?thesis
    using query_loop_split [of 0 "[]" "[]"]
    by (simp add: build_query_def parse_query_string_def put_segment_def query_pair_def)
next
  case (Cons kv m)
  then have "build_query params = encode_pair kv @ build_query_loop False m"
    by (simp add: build_query_def encode_pair_def)
  then have "parse_query_string (build_query params) [] = fold put_segment (map encode_pair (kv # m)) []"
    using query_loop_split [of 0 "build_query params" "[]"] split_build_query [of kv m]
    by (simp add: parse_query_string_def)
  also have "\<dots> = [] @ kv # m" using assms Cons by (intro fold_put_fresh) (simp_all add: umap_ok_def)
  finally show ?thesis using Cons by simp
qed

theorem query_roundtrip_witness:
  "parse_query_string (build_query [(''a&b'', ''x=y z''), ([CHR 0xFF], [])]) [] =
     [(''a&b'', ''x=y z''), ([CHR 0xFF], [])]"
  by (rule query_roundtrip) (simp_all add: umap_ok_def)

end
