(* ===== verification/Request.thy ===== *)
theory Request
  imports DynVar
begin

text \<open>
  request.h and request.cpp. \<open>arena\<close> is the index of the arena in the manager, which is also its
  \<open>management_flag\<close> and identifies the request while it lives, since the request is placed in that
  arena; \<open>conn_ptr\<close> is the descriptor of the owning connection. The monotonic clock is read in
  nanoseconds. \<open>params_bytes\<close> and \<open>body_bytes\<close> count bytes that are in memory.
\<close>

record request =
  req_id :: u16
  arena :: nat
  conn_ptr :: "int option"
  worker_active :: bool
  start_time :: nat
  flags :: u64
  env :: dv
  params :: dv
  cookies :: dv
  headers :: dv
  files :: dv
  session :: dv
  req_context :: dv
  session_id :: string
  body :: string
  params_bytes :: nat
  body_bytes :: nat

definition INITIALIZED :: u64 where "INITIALIZED = flag 0"
definition KEEP_CONNECTION :: u64 where "KEEP_CONNECTION = flag 1"
definition PARAMS_COMPLETE :: u64 where "PARAMS_COMPLETE = flag 2"
definition INPUT_COMPLETE :: u64 where "INPUT_COMPLETE = flag 3"
definition RESPONDED :: u64 where "RESPONDED = flag 4"
definition ABORTED :: u64 where "ABORTED = flag 5"
definition FAILED :: u64 where "FAILED = flag 6"

lemmas flag_defs = INITIALIZED_def KEEP_CONNECTION_def PARAMS_COMPLETE_def INPUT_COMPLETE_def
  RESPONDED_def ABORTED_def FAILED_def

text \<open>\<open>r->flags & f\<close> and \<open>r->flags |= f\<close>.\<close>

definition has :: "u64 \<Rightarrow> request \<Rightarrow> bool" where
  "has f r = has_flag (flags r) f"

definition set_flag :: "u64 \<Rightarrow> request \<Rightarrow> request" where
  "set_flag f r = r\<lparr>flags := flags r OR f\<rparr>"

definition request_new :: "nat \<Rightarrow> nat \<Rightarrow> request" where
  "request_new ar now =
     \<lparr>req_id = 0, arena = ar, conn_ptr = None, worker_active = False, start_time = now, flags = 0,
      env = dv_put ''DBG_ARENA'' (make_number (double_of_int (int ar))) make_object,
      params = make_object, cookies = make_object, headers = make_object, files = make_array,
      session = make_object, req_context = make_object, session_id = [], body = [],
      params_bytes = 0, body_bytes = 0\<rparr>"

lemma has_set_flag [simp]: "has f (set_flag g r) \<longleftrightarrow> has f r \<or> has_flag g f"
  by (simp add: has_def set_flag_def)

lemma set_flag_simps [simp]:
  "req_id (set_flag f r) = req_id r" "arena (set_flag f r) = arena r" "env (set_flag f r) = env r"
  "body (set_flag f r) = body r" "params_bytes (set_flag f r) = params_bytes r"
  "body_bytes (set_flag f r) = body_bytes r" "worker_active (set_flag f r) = worker_active r"
  "conn_ptr (set_flag f r) = conn_ptr r"
  by (simp_all add: set_flag_def)

lemma has_updates [simp]:
  "has f (r\<lparr>env := e\<rparr>) = has f r" "has f (r\<lparr>body := b\<rparr>) = has f r"
  "has f (r\<lparr>params_bytes := n\<rparr>) = has f r" "has f (r\<lparr>body_bytes := n\<rparr>) = has f r"
  by (simp_all add: has_def)

text \<open>The seven flags are different bits.\<close>

lemma flags_distinct [simp]:
  "has_flag INITIALIZED INITIALIZED" "has_flag KEEP_CONNECTION KEEP_CONNECTION"
  "has_flag PARAMS_COMPLETE PARAMS_COMPLETE" "has_flag INPUT_COMPLETE INPUT_COMPLETE"
  "has_flag RESPONDED RESPONDED" "has_flag ABORTED ABORTED" "has_flag FAILED FAILED"
  "\<not> has_flag INITIALIZED FAILED" "\<not> has_flag KEEP_CONNECTION FAILED" "\<not> has_flag PARAMS_COMPLETE FAILED"
  "\<not> has_flag INPUT_COMPLETE FAILED" "\<not> has_flag RESPONDED FAILED" "\<not> has_flag ABORTED FAILED"
  "\<not> has_flag INITIALIZED RESPONDED" "\<not> has_flag KEEP_CONNECTION RESPONDED"
  "\<not> has_flag PARAMS_COMPLETE RESPONDED" "\<not> has_flag INPUT_COMPLETE RESPONDED"
  "\<not> has_flag ABORTED RESPONDED" "\<not> has_flag FAILED RESPONDED"
  "\<not> has_flag INITIALIZED PARAMS_COMPLETE" "\<not> has_flag KEEP_CONNECTION PARAMS_COMPLETE"
  "\<not> has_flag INPUT_COMPLETE PARAMS_COMPLETE" "\<not> has_flag ABORTED PARAMS_COMPLETE"
  "\<not> has_flag RESPONDED PARAMS_COMPLETE" "\<not> has_flag FAILED PARAMS_COMPLETE"
  "\<not> has_flag INITIALIZED INPUT_COMPLETE" "\<not> has_flag KEEP_CONNECTION INPUT_COMPLETE"
  "\<not> has_flag PARAMS_COMPLETE INPUT_COMPLETE" "\<not> has_flag ABORTED INPUT_COMPLETE"
  "\<not> has_flag RESPONDED INPUT_COMPLETE" "\<not> has_flag FAILED INPUT_COMPLETE"
  by (simp_all add: flag_defs)

lemma request_new_empty [simp]:
  "params_bytes (request_new ar now) = 0" "body_bytes (request_new ar now) = 0" "body (request_new ar now) = []"
  "arena (request_new ar now) = ar"
  by (simp_all add: request_new_def)

lemma request_new_flags [simp]: "\<not> has f (request_new ar now)"
  by (simp add: has_def request_new_def)

end
