(* ===== verification/Fileio.thy ===== *)
theory Fileio
  imports Prelude
begin

text \<open>
  fileio.cpp: the cache of whole files that sessions and endpoint files are read through. The disk
  is a function from names to modification time and contents; a reader is given the disk as
  \<open>stat\<close> saw it and as \<open>read\<close> saw it, because another process may write in between. Times are
  nanoseconds of the steady clock; \<open>now\<close> is taken at the start of the call and \<open>later\<close> when the
  entry is built. The calls run one after the other; theory Caching has the other behaviours of the
  code, whose mutex is released between looking up, reading and inserting.
\<close>

type_synonym disk = "string \<Rightarrow> (int \<times> string) option"

record cached_file =
  content :: string
  mtime :: int
  last_check :: int
  fsize :: nat

record file_store =
  file_cache :: "(string \<times> cached_file) list"
  total_cache_size :: nat
  call_counter :: u32

record cache_config =
  file_cache_ttl :: int
  file_cache_max_size :: nat

section \<open>The operations\<close>

definition remove_entry :: "string \<Rightarrow> file_store \<Rightarrow> file_store" where
  "remove_entry filename st =
     (case map_of (file_cache st) filename of
        None \<Rightarrow> st
      | Some e \<Rightarrow> st\<lparr>total_cache_size := total_cache_size st - fsize e,
                     file_cache := AList.delete filename (file_cache st)\<rparr>)"

definition insert_entry :: "string \<Rightarrow> string \<Rightarrow> int \<Rightarrow> int \<Rightarrow> file_store \<Rightarrow> file_store" where
  "insert_entry filename cont mt now st =
     (let st1 = remove_entry filename st;
          cf = \<lparr>content = cont, mtime = mt, last_check = now, fsize = length cont\<rparr>
      in st1\<lparr>total_cache_size := total_cache_size st1 + fsize cf,
             file_cache := emplace filename cf (file_cache st1)\<rparr>)"

text \<open>The loop over the map with \<open>it = file_cache.erase(it)\<close>.\<close>

fun ttl_loop :: "int \<Rightarrow> int \<Rightarrow> (string \<times> cached_file) list \<Rightarrow> nat \<Rightarrow> (string \<times> cached_file) list \<times> nat" where
  "ttl_loop now ttl [] tot = ([], tot)"
| "ttl_loop now ttl (e # es) tot =
     (if now - last_check (snd e) > ttl then ttl_loop now ttl es (tot - fsize (snd e))
      else (case ttl_loop now ttl es tot of (kept, t) \<Rightarrow> (e # kept, t)))"

definition evict_ttl :: "cache_config \<Rightarrow> int \<Rightarrow> file_store \<Rightarrow> file_store" where
  "evict_ttl cfg now st =
     (case ttl_loop now (file_cache_ttl cfg) (file_cache st) (total_cache_size st) of
        (kept, t) \<Rightarrow> st\<lparr>file_cache := kept, total_cache_size := t\<rparr>)"

text \<open>\<open>std::min_element\<close>: the first of the entries checked longest ago.\<close>

fun oldest_entry :: "(string \<times> cached_file) list \<Rightarrow> string \<times> cached_file \<Rightarrow> string \<times> cached_file" where
  "oldest_entry [] best = best"
| "oldest_entry (e # es) best =
     oldest_entry es (if last_check (snd e) < last_check (snd best) then e else best)"

lemma oldest_entry_in: "oldest_entry es best \<in> insert best (set es)"
  by (induction es arbitrary: best) (auto split: if_splits)

lemma length_delete_less: "k \<in> fst ` set m \<Longrightarrow> length (AList.delete k m) < length m"
  by (induction m) (auto simp: le_imp_less_Suc length_delete_le)

function size_loop :: "nat \<Rightarrow> (string \<times> cached_file) list \<Rightarrow> nat \<Rightarrow> (string \<times> cached_file) list \<times> nat" where
  "size_loop maxi [] tot = ([], tot)"
| "size_loop maxi (e # es) tot =
     (if maxi < tot then
        (let oldest = oldest_entry es e
         in size_loop maxi (AList.delete (fst oldest) (e # es)) (tot - fsize (snd oldest)))
      else (e # es, tot))"
  by pat_completeness auto
termination
proof (relation "measure (\<lambda>(maxi, es, tot). length es)", simp)
  fix maxi tot :: nat and e and es :: "(string \<times> cached_file) list" and oldest
  assume "oldest = oldest_entry es e"
  then have "fst oldest \<in> fst ` set (e # es)" using oldest_entry_in [of es e] by auto
  then have "length (AList.delete (fst oldest) (e # es)) < length (e # es)" by (rule length_delete_less)
  then show "((maxi, AList.delete (fst oldest) (e # es), tot - fsize (snd oldest)), maxi, e # es, tot)
      \<in> measure (\<lambda>(maxi, es, tot). length es)" by simp
qed

definition evict_size :: "cache_config \<Rightarrow> file_store \<Rightarrow> file_store" where
  "evict_size cfg st =
     (case size_loop (file_cache_max_size cfg) (file_cache st) (total_cache_size st) of
        (kept, t) \<Rightarrow> st\<lparr>file_cache := kept, total_cache_size := t\<rparr>)"

definition maybe_maintain :: "cache_config \<Rightarrow> int \<Rightarrow> u32 \<Rightarrow> file_store \<Rightarrow> file_store" where
  "maybe_maintain cfg now call_count st =
     (if call_count mod 10 = 0 then evict_size cfg (evict_ttl cfg now st) else st)"

text \<open>\<open>read_file_binary\<close> with a known size: a shorter file fails, of a longer one the front is read.\<close>

definition read_file_binary :: "disk \<Rightarrow> string \<Rightarrow> nat \<Rightarrow> string option" where
  "read_file_binary d filename known_size =
     (case d filename of
        None \<Rightarrow> None
      | Some (_, c) \<Rightarrow> if known_size \<le> length c then Some (take known_size c) else None)"

text \<open>The three locked sections of \<open>read_entire_file_cached\<close> and what is between them.\<close>

definition cache_lookup :: "cache_config \<Rightarrow> int \<Rightarrow> string \<Rightarrow> file_store \<Rightarrow> string option \<times> file_store" where
  "cache_lookup cfg now filename st =
     (let n = call_counter st + 1;
          st1 = maybe_maintain cfg now n (st\<lparr>call_counter := n\<rparr>)
      in (case map_of (file_cache st1) filename of
            Some e \<Rightarrow> if now - last_check e < 1000000000 then (Some (content e), st1) else (None, st1)
          | None \<Rightarrow> (None, st1)))"

definition cache_revalidate :: "int \<Rightarrow> int \<Rightarrow> string \<Rightarrow> file_store \<Rightarrow> string option \<times> file_store" where
  "cache_revalidate now new_mtime filename st =
     (case map_of (file_cache st) filename of
        None \<Rightarrow> (None, st)
      | Some e \<Rightarrow>
          if mtime e = new_mtime then
            (Some (content e), st\<lparr>file_cache := AList.update filename (e\<lparr>last_check := now\<rparr>) (file_cache st)\<rparr>)
          else
            (None, st\<lparr>total_cache_size := total_cache_size st - fsize e,
                      file_cache := AList.delete filename (file_cache st)\<rparr>))"

text \<open>\<open>file_cache[filename].content\<close> adds an empty entry when the file was evicted at once.\<close>

definition blank_entry :: "int \<Rightarrow> cached_file" where
  "blank_entry now = \<lparr>content = [], mtime = 0, last_check = now, fsize = 0\<rparr>"

definition cache_fill ::
  "cache_config \<Rightarrow> int \<Rightarrow> string \<Rightarrow> string \<Rightarrow> int \<Rightarrow> file_store \<Rightarrow> string \<times> file_store" where
  "cache_fill cfg later filename cont mt st =
     (if file_cache_max_size cfg < length cont then (cont, st)
      else
        (let st1 = evict_size cfg (insert_entry filename cont mt later st)
         in (case map_of (file_cache st1) filename of
               Some e \<Rightarrow> (content e, st1)
             | None \<Rightarrow> ([], st1\<lparr>file_cache := emplace filename (blank_entry later) (file_cache st1)\<rparr>))))"

definition read_entire_file_cached ::
  "cache_config \<Rightarrow> int \<Rightarrow> int \<Rightarrow> disk \<Rightarrow> disk \<Rightarrow> string \<Rightarrow> file_store \<Rightarrow> string \<times> file_store" where
  "read_entire_file_cached cfg now later dstat dread filename st =
     (case cache_lookup cfg now filename st of
        (Some c, st1) \<Rightarrow> (c, st1)
      | (None, st1) \<Rightarrow>
          (case dstat filename of
             None \<Rightarrow> ([], st1)
           | Some (mt, old) \<Rightarrow>
               (case cache_revalidate now mt filename st1 of
                  (Some c, st2) \<Rightarrow> (c, st2)
                | (None, st2) \<Rightarrow>
                    (case read_file_binary dread filename (length old) of
                       None \<Rightarrow> ([], st2)
                     | Some c \<Rightarrow> cache_fill cfg later filename c mt st2))))"

text \<open>
  Writing: \<open>opened\<close> says whether the file could be opened, \<open>cut_off\<close> is what reached the disk when a
  write failed (\<open>None\<close> when none did); \<open>wall\<close> is \<open>std::time\<close>, which
  the entry remembers as the modification time, and \<open>mt\<close> the one the disk records.
\<close>

definition write_entire_file ::
  "cache_config \<Rightarrow> bool \<Rightarrow> string option \<Rightarrow> int \<Rightarrow> int \<Rightarrow> int \<Rightarrow> string \<Rightarrow> string \<Rightarrow> disk \<times> file_store \<Rightarrow> bool \<times> disk \<times> file_store" where
  "write_entire_file cfg opened cut_off mt wall now filename cont = (\<lambda>(d, st).
     if \<not> opened then (False, d, st)
     else
       (case cut_off of
          Some part \<Rightarrow> (False, d(filename \<mapsto> (mt, part)), st)
        | None \<Rightarrow>
            if file_cache_max_size cfg < length cont then
              (True, d(filename \<mapsto> (mt, cont)), remove_entry filename st)
            else (True, d(filename \<mapsto> (mt, cont)), evict_size cfg (insert_entry filename cont wall now st))))"

definition get_cache_stats :: "cache_config \<Rightarrow> file_store \<Rightarrow> nat \<times> nat \<times> nat" where
  "get_cache_stats cfg st = (length (file_cache st), total_cache_size st, file_cache_max_size cfg)"

section \<open>The accounting invariant\<close>

definition entry_sizes :: "(string \<times> cached_file) list \<Rightarrow> nat" where
  "entry_sizes es = (\<Sum>e\<leftarrow>es. fsize (snd e))"

definition entries_ok :: "(string \<times> cached_file) list \<Rightarrow> bool" where
  "entries_ok es \<longleftrightarrow> umap_ok es \<and> (\<forall>e\<in>set es. fsize (snd e) = length (content (snd e)))"

definition store_ok :: "file_store \<Rightarrow> bool" where
  "store_ok st \<longleftrightarrow> entries_ok (file_cache st) \<and> total_cache_size st = entry_sizes (file_cache st)"

lemma entry_sizes_delete:
  "umap_ok es \<Longrightarrow> map_of es k = Some e \<Longrightarrow> entry_sizes (AList.delete k es) = entry_sizes es - fsize e"
proof (induction es)
  case (Cons x es)
  show ?case
  proof (cases "fst x = k")
    case True
    then have "AList.delete k es = es" using Cons.prems by (simp add: umap_ok_def delete_id)
    then show ?thesis using True Cons.prems by (cases x) (simp add: entry_sizes_def)
  next
    case False
    then have m: "map_of es k = Some e" "umap_ok es" using Cons.prems by (auto simp: umap_ok_def split: if_splits)
    have "fsize e \<le> entry_sizes es"
      using map_of_SomeD [OF m(1)] by (force simp: entry_sizes_def intro: member_le_sum_list)
    then show ?thesis using False Cons.IH [OF m(2,1)] by (cases x) (simp add: entry_sizes_def)
  qed
qed simp

lemma entry_sizes_append [simp]: "entry_sizes (a @ b) = entry_sizes a + entry_sizes b"
  by (simp add: entry_sizes_def)

lemma set_delete: "set (AList.delete k es) = {e \<in> set es. fst e \<noteq> k}"
  by (induction es) auto

lemma entries_ok_delete: "entries_ok es \<Longrightarrow> entries_ok (AList.delete k es)"
  by (simp add: entries_ok_def set_delete)

lemma map_of_emplace:
  "map_of (emplace k v m) k' = (if k' = k then (case map_of m k of None \<Rightarrow> Some v | w \<Rightarrow> w) else map_of m k')"
  by (auto simp: emplace_def map_add_def split: option.splits)

lemma set_emplace: "set (emplace k v m) \<subseteq> insert (k, v) (set m)"
  by (auto simp: emplace_def split: if_splits)

lemma entries_ok_emplace: "entries_ok es \<Longrightarrow> fsize e = length (content e) \<Longrightarrow> entries_ok (emplace k e es)"
  using set_emplace [of k e es] by (auto simp: entries_ok_def)

lemma entry_sizes_emplace:
  "map_of es k = None \<Longrightarrow> entry_sizes (emplace k e es) = entry_sizes es + fsize e"
  by (simp add: emplace_def) (simp add: entry_sizes_def)

lemma ttl_loop_filter:
  "ttl_loop now ttl es tot =
     (filter (\<lambda>e. now - last_check (snd e) \<le> ttl) es,
      tot - entry_sizes (filter (\<lambda>e. \<not> now - last_check (snd e) \<le> ttl) es))"
  by (induction es arbitrary: tot) (auto simp: entry_sizes_def)

lemma entry_sizes_split: "entry_sizes es = entry_sizes (filter P es) + entry_sizes (filter (\<lambda>e. \<not> P e) es)"
  by (induction es) (auto simp: entry_sizes_def)

lemma entries_ok_filter: "entries_ok es \<Longrightarrow> entries_ok (filter P es)"
  by (auto simp: entries_ok_def umap_ok_def distinct_map_filter)

lemma evict_ttl_ok: "store_ok st \<Longrightarrow> store_ok (evict_ttl cfg now st)"
  using entry_sizes_split [of "file_cache st" "\<lambda>e. now - last_check (snd e) \<le> file_cache_ttl cfg"]
  by (simp add: store_ok_def evict_ttl_def ttl_loop_filter entries_ok_filter)

lemma oldest_entry_least: "e \<in> insert best (set es) \<Longrightarrow> last_check (snd (oldest_entry es best)) \<le> last_check (snd e)"
proof (induction es arbitrary: best e)
  case (Cons x es)
  define b where "b = (if last_check (snd x) < last_check (snd best) then x else best)"
  have o: "oldest_entry (x # es) best = oldest_entry es b" by (simp add: b_def)
  have IH: "last_check (snd (oldest_entry es b)) \<le> last_check (snd y)" if "y = b \<or> y \<in> set es" for y
    using that by (intro Cons.IH) auto
  have "last_check (snd b) \<le> last_check (snd e)" if "e = best \<or> e = x" using that by (auto simp: b_def)
  then have "last_check (snd (oldest_entry es b)) \<le> last_check (snd e)" if "e = best \<or> e = x"
    using IH [of b] that by fastforce
  then show ?case using Cons.prems IH [of e] unfolding o by auto
qed simp

lemma oldest_entry_map_of:
  "umap_ok (e # es) \<Longrightarrow> map_of (e # es) (fst (oldest_entry es e)) = Some (snd (oldest_entry es e))"
  using oldest_entry_in [of es e] by (intro map_of_is_SomeI) (auto simp: umap_ok_def)

text \<open>
  Evicting by size: it keeps the accounts, ends within the limit, leaves nothing that was not there,
  and spares an entry that is newer than all others and fits by itself.
\<close>

lemma size_loop_spec:
  "entries_ok es \<Longrightarrow> tot = entry_sizes es \<Longrightarrow> size_loop maxi es tot = (kept, t) \<Longrightarrow>
     entries_ok kept \<and> t = entry_sizes kept \<and> t \<le> maxi \<and> set kept \<subseteq> set es"
proof (induction maxi es tot rule: size_loop.induct)
  case (1 maxi tot)
  then show ?case by (simp add: entry_sizes_def)
next
  case (2 maxi e es tot)
  let ?o = "oldest_entry es e"
  have ok: "umap_ok (e # es)" using 2(2) by (simp add: entries_ok_def)
  show ?case
  proof (cases "maxi < tot")
    case True
    have "entry_sizes (AList.delete (fst ?o) (e # es)) = tot - fsize (snd ?o)"
      unfolding 2(3) by (rule entry_sizes_delete [OF ok oldest_entry_map_of [OF ok]])
    moreover have "size_loop maxi (AList.delete (fst ?o) (e # es)) (tot - fsize (snd ?o)) = (kept, t)"
      using 2(4) True by (simp add: Let_def del: delete_simps)
    ultimately have "entries_ok kept \<and> t = entry_sizes kept \<and> t \<le> maxi \<and>
        set kept \<subseteq> set (AList.delete (fst ?o) (e # es))"
      using 2(1) [OF True refl] entries_ok_delete [OF 2(2)] by simp
    then show ?thesis by (auto simp: set_delete simp del: delete_simps)
  next
    case False
    then have "kept = e # es" "t = tot" using 2(4) by simp_all
    then show ?thesis using 2(2,3) False by simp
  qed
qed

lemma size_loop_newest:
  "entries_ok es \<Longrightarrow> tot = entry_sizes es \<Longrightarrow> size_loop maxi es tot = (kept, t) \<Longrightarrow>
    map_of es f = Some c \<Longrightarrow> fsize c \<le> maxi \<Longrightarrow>
    \<forall>e\<in>set es. fst e \<noteq> f \<longrightarrow> last_check (snd e) < last_check c \<Longrightarrow> map_of kept f = Some c"
proof (induction maxi es tot rule: size_loop.induct)
  case (1 maxi tot)
  then show ?case by simp
next
  case (2 maxi e es tot)
  let ?o = "oldest_entry es e"
  have ok: "umap_ok (e # es)" using 2(2) by (simp add: entries_ok_def)
  show ?case
  proof (cases "maxi < tot")
    case True
    have "fst ?o \<noteq> f"
    proof
      assume f: "fst ?o = f"
      then have c: "snd ?o = c" using oldest_entry_map_of [OF ok] 2(5) by simp
      have "fst x = f" if "x \<in> set (e # es)" for x
        using oldest_entry_least [of x e es] 2(7) that c by force
      then have "es = []" using ok by (cases es) (auto simp: umap_ok_def)
      then show False using True 2(3,6) c by (simp add: entry_sizes_def)
    qed
    then have "map_of (AList.delete (fst ?o) (e # es)) f = Some c" using 2(5) by (simp del: delete_simps)
    moreover have "entry_sizes (AList.delete (fst ?o) (e # es)) = tot - fsize (snd ?o)"
      unfolding 2(3) by (rule entry_sizes_delete [OF ok oldest_entry_map_of [OF ok]])
    moreover have "size_loop maxi (AList.delete (fst ?o) (e # es)) (tot - fsize (snd ?o)) = (kept, t)"
      using 2(4) True by (simp add: Let_def del: delete_simps)
    moreover have "\<forall>x\<in>set (AList.delete (fst ?o) (e # es)). fst x \<noteq> f \<longrightarrow> last_check (snd x) < last_check c"
      using 2(7) by (auto simp: set_delete simp del: delete_simps)
    ultimately show ?thesis
      using 2(1) [OF True refl entries_ok_delete [OF 2(2)]] 2(6) by simp
  next
    case False
    then show ?thesis using 2 by simp
  qed
qed

definition store_inv :: "cache_config \<Rightarrow> file_store \<Rightarrow> bool" where
  "store_inv cfg st \<longleftrightarrow> store_ok st \<and> total_cache_size st \<le> file_cache_max_size cfg"

lemma evict_size_inv:
  assumes "store_ok st"
  shows "store_inv cfg (evict_size cfg st)" "set (file_cache (evict_size cfg st)) \<subseteq> set (file_cache st)"
proof -
  obtain kept t where l: "size_loop (file_cache_max_size cfg) (file_cache st) (total_cache_size st) = (kept, t)" by force
  then have E: "evict_size cfg st = st\<lparr>file_cache := kept, total_cache_size := t\<rparr>" by (simp add: evict_size_def)
  from size_loop_spec [OF _ _ l] assms
  show "store_inv cfg (evict_size cfg st)" "set (file_cache (evict_size cfg st)) \<subseteq> set (file_cache st)"
    unfolding E by (simp_all add: store_ok_def store_inv_def)
qed

lemma evict_size_newest:
  assumes "store_ok st" "map_of (file_cache st) f = Some c" "fsize c \<le> file_cache_max_size cfg"
    "\<forall>e\<in>set (file_cache st). fst e \<noteq> f \<longrightarrow> last_check (snd e) < last_check c"
  shows "map_of (file_cache (evict_size cfg st)) f = Some c"
proof -
  obtain kept t where l: "size_loop (file_cache_max_size cfg) (file_cache st) (total_cache_size st) = (kept, t)" by force
  then have E: "evict_size cfg st = st\<lparr>file_cache := kept, total_cache_size := t\<rparr>" by (simp add: evict_size_def)
  from size_loop_newest [OF _ _ l assms(2-)] assms(1)
  show ?thesis unfolding E by (simp add: store_ok_def)
qed

lemma remove_entry_ok: "store_ok st \<Longrightarrow> store_ok (remove_entry f st)"
  by (auto simp: remove_entry_def store_ok_def entries_ok_delete entry_sizes_delete entries_ok_def set_delete split: option.splits)

lemma remove_entry_cache: "file_cache (remove_entry f st) = AList.delete f (file_cache st)"
  by (auto simp: remove_entry_def map_of_eq_None_iff split: option.splits)

lemma remove_entry_total: "total_cache_size (remove_entry f st) \<le> total_cache_size st"
  by (auto simp: remove_entry_def split: option.splits)

lemma insert_entry_cache:
  "file_cache (insert_entry f c mt now st) =
     emplace f \<lparr>content = c, mtime = mt, last_check = now, fsize = length c\<rparr> (AList.delete f (file_cache st))"
  by (simp add: insert_entry_def Let_def remove_entry_cache)

lemma insert_entry_ok:
  assumes "store_ok st"
  shows "store_ok (insert_entry f c mt now st)"
proof -
  have "map_of (AList.delete f (file_cache st)) f = None" by (simp add: delete_conv')
  moreover have "store_ok (remove_entry f st)" using assms by (rule remove_entry_ok)
  ultimately show ?thesis
    by (simp add: store_ok_def insert_entry_def Let_def remove_entry_cache entry_sizes_emplace entries_ok_emplace)
qed

lemma maybe_maintain_inv:
  assumes "store_inv cfg st"
  shows "store_inv cfg (maybe_maintain cfg now n st)" "set (file_cache (maybe_maintain cfg now n st)) \<subseteq> set (file_cache st)"
proof -
  have "store_ok (evict_ttl cfg now st)" using assms by (simp add: store_inv_def evict_ttl_ok)
  moreover have "set (file_cache (evict_ttl cfg now st)) \<subseteq> set (file_cache st)"
    by (auto simp: evict_ttl_def ttl_loop_filter)
  ultimately show "store_inv cfg (maybe_maintain cfg now n st)"
    "set (file_cache (maybe_maintain cfg now n st)) \<subseteq> set (file_cache st)"
    using assms evict_size_inv [of "evict_ttl cfg now st" cfg] by (auto simp: maybe_maintain_def)
qed

lemma cache_lookup_inv:
  assumes "store_inv cfg st" "cache_lookup cfg now f st = (r, st')"
  shows "store_inv cfg st'" "set (file_cache st') \<subseteq> set (file_cache st)"
    and "case r of None \<Rightarrow> True | Some c \<Rightarrow>
      \<exists>e. map_of (file_cache st) f = Some e \<and> now - last_check e < 1000000000 \<and> c = content e"
proof -
  define st0 where "st0 = st\<lparr>call_counter := call_counter st + 1\<rparr>"
  define st1 where "st1 = maybe_maintain cfg now (call_counter st + 1) st0"
  have "store_inv cfg st0" using assms(1) by (simp add: store_inv_def store_ok_def st0_def)
  note inv = maybe_maintain_inv [OF this, of now "call_counter st + 1", folded st1_def]
  have st': "st' = st1" using assms(2)
    by (auto simp: cache_lookup_def Let_def st1_def st0_def split: option.splits if_splits)
  show "store_inv cfg st'" "set (file_cache st') \<subseteq> set (file_cache st)"
    using inv by (simp_all add: st' st0_def)
  have mono: "map_of (file_cache st) f = Some e" if "map_of (file_cache st1) f = Some e" for e
    using map_of_SomeD [OF that] inv(2) assms(1)
    by (intro map_of_is_SomeI) (auto simp: st0_def store_inv_def store_ok_def entries_ok_def umap_ok_def)
  show "case r of None \<Rightarrow> True | Some c \<Rightarrow>
      \<exists>e. map_of (file_cache st) f = Some e \<and> now - last_check e < 1000000000 \<and> c = content e"
    using assms(2) mono
    by (auto simp: cache_lookup_def Let_def st1_def [symmetric] st0_def [symmetric] split: option.splits if_splits)
qed

lemma entries_ok_update:
  "entries_ok es \<Longrightarrow> fsize e = length (content e) \<Longrightarrow> entries_ok (AList.update k e es)"
  using set_update_le [of k e es] by (auto simp: entries_ok_def)

lemma entry_sizes_update_same:
  "umap_ok es \<Longrightarrow> map_of es k = Some e \<Longrightarrow> fsize e' = fsize e \<Longrightarrow> entry_sizes (AList.update k e' es) = entry_sizes es"
  by (induction es) (auto simp: entry_sizes_def umap_ok_def split: if_splits)

lemma cache_revalidate_inv:
  assumes "store_inv cfg st" "cache_revalidate now mt f st = (r, st')"
  shows "store_inv cfg st'"
proof (cases "map_of (file_cache st) f")
  case (Some e)
  have ok: "entries_ok (file_cache st)" "umap_ok (file_cache st)" using assms(1) by (simp_all add: store_inv_def store_ok_def entries_ok_def)
  have len: "fsize e = length (content e)" using ok(1) map_of_SomeD [OF Some] by (auto simp: entries_ok_def)
  show ?thesis
  proof (cases "mtime e = mt")
    case True
    then have "st' = st\<lparr>file_cache := AList.update f (e\<lparr>last_check := now\<rparr>) (file_cache st)\<rparr>"
      using assms(2) Some by (simp add: cache_revalidate_def)
    then show ?thesis using assms(1) Some ok len
      by (simp add: store_inv_def store_ok_def entries_ok_update entry_sizes_update_same [OF ok(2) Some])
  next
    case False
    then have "st' = remove_entry f st" using assms(2) Some by (auto simp: cache_revalidate_def remove_entry_def)
    then show ?thesis using assms(1) remove_entry_ok [of st f] remove_entry_total [of f st] by (simp add: store_inv_def)
  qed
qed (use assms in \<open>simp add: cache_revalidate_def\<close>)

lemma cache_fill_inv:
  assumes "store_inv cfg st" "cache_fill cfg later f c mt st = (r, st')"
  shows "store_inv cfg st'"
proof (cases "file_cache_max_size cfg < length c")
  case False
  let ?st1 = "evict_size cfg (insert_entry f c mt later st)"
  have inv: "store_inv cfg ?st1"
    using assms(1) by (intro evict_size_inv insert_entry_ok) (simp add: store_inv_def)
  show ?thesis
  proof (cases "map_of (file_cache ?st1) f")
    case None
    then have "st' = ?st1\<lparr>file_cache := emplace f (blank_entry later) (file_cache ?st1)\<rparr>"
      using assms(2) False by (simp add: cache_fill_def Let_def)
    then show ?thesis using inv None
      by (simp add: store_inv_def store_ok_def entries_ok_emplace entry_sizes_emplace blank_entry_def)
  next
    case (Some e)
    then show ?thesis using inv assms(2) False by (simp add: cache_fill_def Let_def)
  qed
qed (use assms in \<open>simp add: cache_fill_def\<close>)

text \<open>A cache is coherent with the disk when an entry with the file's modification time has its contents.\<close>

definition coherent :: "disk \<Rightarrow> file_store \<Rightarrow> bool" where
  "coherent d st \<longleftrightarrow> (\<forall>f e m c. (f, e) \<in> set (file_cache st) \<and> d f = Some (m, c) \<and> mtime e = m \<longrightarrow> content e = c)"

lemma coherent_subset: "coherent d st \<Longrightarrow> set (file_cache st') \<subseteq> set (file_cache st) \<Longrightarrow> coherent d st'"
  by (auto simp: coherent_def)

lemma cache_fill_current:
  assumes "store_inv cfg st" "\<forall>e\<in>set (file_cache st). last_check (snd e) < later"
  shows "fst (cache_fill cfg later f c mt st) = c"
proof (cases "file_cache_max_size cfg < length c")
  case False
  let ?e = "\<lparr>content = c, mtime = mt, last_check = later, fsize = length c\<rparr>"
  have "map_of (file_cache (insert_entry f c mt later st)) f = Some ?e"
    by (simp add: insert_entry_cache map_of_emplace delete_conv')
  moreover have "\<forall>e\<in>set (file_cache (insert_entry f c mt later st)). fst e \<noteq> f \<longrightarrow> last_check (snd e) < last_check ?e"
    using assms(2) set_emplace [of f ?e "AList.delete f (file_cache st)"]
    by (auto simp: insert_entry_cache set_delete)
  ultimately have "map_of (file_cache (evict_size cfg (insert_entry f c mt later st))) f = Some ?e"
    using assms(1) False by (intro evict_size_newest insert_entry_ok) (simp_all add: store_inv_def)
  then show ?thesis using False by (simp add: cache_fill_def Let_def)
qed (simp add: cache_fill_def)

lemma read_inv:
  assumes "store_inv cfg st"
  shows "store_inv cfg (snd (read_entire_file_cached cfg now later d d' f st))"
proof -
  obtain r1 st1 where l: "cache_lookup cfg now f st = (r1, st1)" by force
  note i1 = cache_lookup_inv(1) [OF assms l]
  show ?thesis
  proof (cases "r1 \<noteq> None \<or> d f = None")
    case True
    then show ?thesis using l i1 by (cases r1) (simp_all add: read_entire_file_cached_def)
  next
    case False
    then obtain mt old where dm: "r1 = None" "d f = Some (mt, old)" by force
    obtain r2 st2 where v: "cache_revalidate now mt f st1 = (r2, st2)" by force
    note i2 = cache_revalidate_inv [OF i1 v]
    show ?thesis
    proof (cases "r2 = None \<and> (\<exists>c. read_file_binary d' f (length old) = Some c)")
      case True
      then obtain c where c: "r2 = None" "read_file_binary d' f (length old) = Some c" by blast
      obtain r3 st3 where fl: "cache_fill cfg later f c mt st2 = (r3, st3)" by force
      show ?thesis using l dm v c fl cache_fill_inv [OF i2 fl] by (simp add: read_entire_file_cached_def)
    next
      case False
      then show ?thesis using l dm v i2
        by (cases r2; cases "read_file_binary d' f (length old)") (simp_all add: read_entire_file_cached_def)
    qed
  qed
qed

lemma write_inv:
  assumes "store_inv cfg st"
  shows "store_inv cfg (snd (snd (write_entire_file cfg opened cut_off mt wall now f c (d, st))))"
proof -
  have "store_inv cfg (remove_entry f st)" "store_inv cfg (evict_size cfg (insert_entry f c wall now st))"
    using assms remove_entry_ok [of st f] remove_entry_total [of f st]
    by (auto simp: store_inv_def intro!: evict_size_inv(1) [unfolded store_inv_def] insert_entry_ok)
  then show ?thesis using assms by (auto simp: write_entire_file_def split: option.splits)
qed

text \<open>
  A file read through the cache: when what the cache holds of it is the contents on the disk, and the
  clock has moved on, those contents are returned, whether they come from the cache, are checked
  against the modification time or are read again.
\<close>

lemma read_when_coherent:
  assumes inv: "store_inv cfg st" and ent: "\<And>e. map_of (file_cache st) f = Some e \<Longrightarrow> content e = c"
    and clock: "\<forall>e\<in>set (file_cache st). last_check (snd e) < later" and disk: "d f = Some (m, c)"
  shows "fst (read_entire_file_cached cfg now later d d f st) = c"
proof -
  obtain r1 st1 where l: "cache_lookup cfg now f st = (r1, st1)" by force
  note i1 = cache_lookup_inv [OF inv l]
  obtain r2 st2 where v: "cache_revalidate now m f st1 = (r2, st2)" by force
  note i2 = cache_revalidate_inv [OF i1(1) v]
  have rd: "read_file_binary d f (length c) = Some c" using disk by (simp add: read_file_binary_def)
  have sub: "map_of (file_cache st) f = Some e" if "map_of (file_cache st1) f = Some e" for e
    using map_of_SomeD [OF that] i1(2) inv
    by (intro map_of_is_SomeI) (auto simp: store_inv_def store_ok_def entries_ok_def umap_ok_def)
  show ?thesis
  proof (cases r1)
    case (Some u)
    then have "u = c" using i1(3) ent by auto
    then show ?thesis using Some l by (simp add: read_entire_file_cached_def)
  next
    case n1: None
    show ?thesis
    proof (cases r2)
      case (Some u)
      then have "u = c" using v ent sub by (auto simp: cache_revalidate_def split: option.splits if_splits)
      then show ?thesis using Some n1 l v disk by (simp add: read_entire_file_cached_def)
    next
      case n2: None
      have "set (file_cache st2) \<subseteq> set (file_cache st1)"
        using v n2 by (auto simp: cache_revalidate_def set_delete split: option.splits if_splits)
      then have "fst (cache_fill cfg later f c m st2) = c"
        using clock i1(2) by (intro cache_fill_current i2) blast
      then show ?thesis using n1 n2 l v disk rd by (simp add: read_entire_file_cached_def)
    qed
  qed
qed

text \<open>After a write the cache holds of the file nothing but what was written.\<close>

lemma evict_size_subset: "store_ok st \<Longrightarrow> set (file_cache (evict_size cfg st)) \<subseteq> set (file_cache st)"
  using size_loop_spec [of "file_cache st" "total_cache_size st" "file_cache_max_size cfg"]
  by (auto simp: evict_size_def store_ok_def split: prod.splits)

lemma written_entries:
  assumes "store_inv cfg st" "write_entire_file cfg opened cut_off mt wall now f c (d, st) = (True, d', st')"
  shows "d' = d(f \<mapsto> (mt, c))" "store_inv cfg st'"
    and "\<And>e. map_of (file_cache st') f = Some e \<Longrightarrow> content e = c"
    and "\<forall>e\<in>set (file_cache st'). last_check (snd e) = now \<or> e \<in> set (file_cache st)"
proof -
  let ?e = "\<lparr>content = c, mtime = wall, last_check = now, fsize = length c\<rparr>"
  let ?in = "insert_entry f c wall now st"
  have st': "st' = remove_entry f st \<or> st' = evict_size cfg ?in" and "d' = d(f \<mapsto> (mt, c))"
    using assms(2) by (auto simp: write_entire_file_def split: option.splits if_splits)
  then show "d' = d(f \<mapsto> (mt, c))" by simp
  show "store_inv cfg st'" using write_inv [OF assms(1), of opened cut_off mt wall now f c d] assms(2) by simp
  have ok: "store_ok ?in" using assms(1) by (intro insert_entry_ok) (simp add: store_inv_def)
  have sub: "set (file_cache (evict_size cfg ?in)) \<subseteq> insert (f, ?e) {e \<in> set (file_cache st). fst e \<noteq> f}"
    using evict_size_subset [OF ok, of cfg] set_emplace [of f ?e "AList.delete f (file_cache st)"]
    by (auto simp: insert_entry_cache set_delete)
  have rem: "file_cache (remove_entry f st) = AList.delete f (file_cache st)"
    by (auto simp: remove_entry_def delete_id map_of_eq_None_iff split: option.splits)
  show "content e = c" if "map_of (file_cache st') f = Some e" for e
    using st' map_of_SomeD [OF that] sub by (auto simp: rem set_delete)
  show "\<forall>e\<in>set (file_cache st'). last_check (snd e) = now \<or> e \<in> set (file_cache st)"
    using st' sub by (auto simp: rem set_delete)
qed

text \<open>
  What the users of the cache rely on, as an interface: a file that holds some contents is read as
  them, and keeps them whatever is read and whatever other files are written or removed, as long as
  the clock does not go back. \<open>ready\<close> and \<open>holds\<close> have a time that all earlier calls lie before.
\<close>

datatype ('f, 'c, 'x) file_op =
    Read_file int int 'f
  | Write_file 'x int 'f 'c
  | Remove_file 'f

fun file_op_step ::
  "(int \<Rightarrow> int \<Rightarrow> 'f \<Rightarrow> 'w \<Rightarrow> 'c \<times> 'w) \<Rightarrow> ('x \<Rightarrow> int \<Rightarrow> 'f \<Rightarrow> 'c \<Rightarrow> 'w \<Rightarrow> bool \<times> 'w) \<Rightarrow> ('f \<Rightarrow> 'w \<Rightarrow> 'w) \<Rightarrow>
     ('f, 'c, 'x) file_op \<Rightarrow> 'w \<Rightarrow> 'w" where
  "file_op_step rd wr rm (Read_file now later f) w = snd (rd now later f w)"
| "file_op_step rd wr rm (Write_file x now f c) w = snd (wr x now f c w)"
| "file_op_step rd wr rm (Remove_file f) w = rm f w"

fun undisturbed :: "int \<Rightarrow> 'f \<Rightarrow> ('f, 'c, 'x) file_op list \<Rightarrow> bool" where
  "undisturbed t f [] \<longleftrightarrow> True"
| "undisturbed t f (Read_file now later f' # ops) \<longleftrightarrow> t \<le> later \<and> now \<le> later \<and> undisturbed (later + 1) f ops"
| "undisturbed t f (Write_file x now f' c # ops) \<longleftrightarrow> f' \<noteq> f \<and> t \<le> now \<and> undisturbed (now + 1) f ops"
| "undisturbed t f (Remove_file f' # ops) \<longleftrightarrow> f' \<noteq> f \<and> undisturbed t f ops"

fun clock_after :: "int \<Rightarrow> ('f, 'c, 'x) file_op list \<Rightarrow> int" where
  "clock_after t [] = t"
| "clock_after t (Read_file now later f # ops) = clock_after (later + 1) ops"
| "clock_after t (Write_file x now f c # ops) = clock_after (now + 1) ops"
| "clock_after t (Remove_file f # ops) = clock_after t ops"

locale whole_files =
  fixes rd :: "int \<Rightarrow> int \<Rightarrow> 'f \<Rightarrow> 'w \<Rightarrow> 'c \<times> 'w"
    and wr :: "'x \<Rightarrow> int \<Rightarrow> 'f \<Rightarrow> 'c \<Rightarrow> 'w \<Rightarrow> bool \<times> 'w"
    and rm :: "'f \<Rightarrow> 'w \<Rightarrow> 'w"
    and ready :: "int \<Rightarrow> 'w \<Rightarrow> bool"
    and holds :: "'f \<Rightarrow> 'c \<Rightarrow> int \<Rightarrow> 'w \<Rightarrow> bool"
  assumes written: "ready t w \<Longrightarrow> t \<le> now \<Longrightarrow> wr x now f c w = (True, w') \<Longrightarrow> holds f c (now + 1) w'"
    and read_written: "holds f c t w \<Longrightarrow> t \<le> later \<Longrightarrow> fst (rd now later f w) = c"
    and read_keeps: "holds f c t w \<Longrightarrow> t \<le> later \<Longrightarrow> now \<le> later \<Longrightarrow> holds f c (later + 1) (snd (rd now later f' w))"
    and write_keeps: "holds f c t w \<Longrightarrow> t \<le> now \<Longrightarrow> f' \<noteq> f \<Longrightarrow> holds f c (now + 1) (snd (wr x now f' c' w))"
    and remove_keeps: "holds f c t w \<Longrightarrow> f' \<noteq> f \<Longrightarrow> holds f c t (rm f' w)"
begin

lemma kept: "undisturbed t f ops \<Longrightarrow> holds f c t w \<Longrightarrow> holds f c (clock_after t ops) (fold (file_op_step rd wr rm) ops w)"
  by (induction t f ops arbitrary: w rule: undisturbed.induct) (simp_all add: read_keeps write_keeps remove_keeps)

lemma read_later:
  assumes "ready t w" "t \<le> now" "wr x now f c w = (True, w')" "undisturbed (now + 1) f ops" "clock_after (now + 1) ops \<le> later"
  shows "fst (rd u later f (fold (file_op_step rd wr rm) ops w')) = c"
  by (rule read_written [OF kept [OF assms(4) written [OF assms(1-3)]] assms(5)])

end

text \<open>The cache and the disk together; what decides a write is \<open>(opened, cut_off, mt, wall)\<close>.\<close>

definition files_read :: "cache_config \<Rightarrow> int \<Rightarrow> int \<Rightarrow> string \<Rightarrow> disk \<times> file_store \<Rightarrow> string \<times> disk \<times> file_store" where
  "files_read cfg now later f = (\<lambda>(d, st). case read_entire_file_cached cfg now later d d f st of (c, st') \<Rightarrow> (c, d, st'))"

definition files_write ::
  "cache_config \<Rightarrow> bool \<times> string option \<times> int \<times> int \<Rightarrow> int \<Rightarrow> string \<Rightarrow> string \<Rightarrow> disk \<times> file_store \<Rightarrow> bool \<times> disk \<times> file_store" where
  "files_write cfg = (\<lambda>(opened, cut_off, mt, wall) now f c. write_entire_file cfg opened cut_off mt wall now f c)"

definition files_remove :: "string \<Rightarrow> disk \<times> file_store \<Rightarrow> disk \<times> file_store" where
  "files_remove f = (\<lambda>(d, st). (d(f := None), st))"

definition files_ready :: "cache_config \<Rightarrow> int \<Rightarrow> disk \<times> file_store \<Rightarrow> bool" where
  "files_ready cfg t = (\<lambda>(d, st). store_inv cfg st \<and> (\<forall>e\<in>set (file_cache st). last_check (snd e) < t))"

definition files_hold :: "cache_config \<Rightarrow> string \<Rightarrow> string \<Rightarrow> int \<Rightarrow> disk \<times> file_store \<Rightarrow> bool" where
  "files_hold cfg f c t = (\<lambda>(d, st). files_ready cfg t (d, st) \<and> (\<exists>m. d f = Some (m, c)) \<and>
     (\<forall>e. (f, e) \<in> set (file_cache st) \<longrightarrow> content e = c))"

text \<open>What a read leaves in the cache: entries that were there, and one of the file with the contents it
  returned, checked then.\<close>

lemma read_entries:
  assumes "store_inv cfg st" "now \<le> later" "(f', e) \<in> set (file_cache (snd (read_entire_file_cached cfg now later d d f st)))"
    and "\<forall>e\<in>set (file_cache st). last_check (snd e) < later"
  shows "(f', e) \<in> set (file_cache st) \<or>
    f' = f \<and> last_check e \<le> later \<and> content e = fst (read_entire_file_cached cfg now later d d f st)"
proof -
  obtain r1 st1 where l: "cache_lookup cfg now f st = (r1, st1)" by force
  note i1 = cache_lookup_inv [OF assms(1) l]
  show ?thesis
  proof (cases "r1 \<noteq> None \<or> d f = None")
    case True
    then show ?thesis using l i1(2) assms(3) by (cases r1) (auto simp: read_entire_file_cached_def)
  next
    case False
    then obtain mt c where dm: "r1 = None" "d f = Some (mt, c)" by force
    obtain r2 st2 where v: "cache_revalidate now mt f st1 = (r2, st2)" by force
    note i2 = cache_revalidate_inv [OF i1(1) v]
    have rd: "read_file_binary d f (length c) = Some c" using dm(2) by (simp add: read_file_binary_def)
    show ?thesis
    proof (cases r2)
      case (Some u)
      then obtain b where b: "map_of (file_cache st1) f = Some b" "u = content b"
        "file_cache st2 = AList.update f (b\<lparr>last_check := now\<rparr>) (file_cache st1)"
        using v by (auto simp: cache_revalidate_def split: option.splits if_splits)
      then show ?thesis
        using l dm v Some assms(2,3) i1(2) set_update_le [of f "b\<lparr>last_check := now\<rparr>" "file_cache st1"]
        by (auto simp: read_entire_file_cached_def)
    next
      case None
      have s2: "set (file_cache st2) \<subseteq> set (file_cache st)"
        using v None i1(2) by (auto simp: cache_revalidate_def set_delete split: option.splits if_splits)
      obtain r3 st3 where fl: "cache_fill cfg later f c mt st2 = (r3, st3)" by force
      have r: "read_entire_file_cached cfg now later d d f st = (r3, st3)"
        using l dm v None rd fl by (simp add: read_entire_file_cached_def)
      have "r3 = c" using cache_fill_current [OF i2, of later f c mt] s2 assms(4) fl by auto
      show ?thesis
      proof (cases "file_cache_max_size cfg < length c")
        case True
        then show ?thesis using fl assms(3) s2 by (auto simp: r cache_fill_def)
      next
        case False
        let ?e = "\<lparr>content = c, mtime = mt, last_check = later, fsize = length c\<rparr>"
        let ?st1 = "evict_size cfg (insert_entry f c mt later st2)"
        have "store_ok (insert_entry f c mt later st2)" using i2 by (intro insert_entry_ok) (simp add: store_inv_def)
        then have sub: "set (file_cache ?st1) \<subseteq> insert (f, ?e) (set (file_cache st))"
          using evict_size_subset [of "insert_entry f c mt later st2" cfg] s2
            set_emplace [of f ?e "AList.delete f (file_cache st2)"]
          by (auto simp: insert_entry_cache set_delete)
        have "(f', e) \<in> set (file_cache ?st1) \<or> (f', e) = (f, blank_entry later) \<and> r3 = []"
          using fl False assms(3) set_emplace [of f "blank_entry later" "file_cache ?st1"]
          by (auto simp: r cache_fill_def Let_def split: option.splits)
        then consider "(f', e) \<in> set (file_cache st)" | "(f', e) = (f, ?e)" | "(f', e) = (f, blank_entry later)" "c = []"
          using sub \<open>r3 = c\<close> by blast
        then show ?thesis by cases (simp_all add: r \<open>r3 = c\<close> blank_entry_def)
      qed
    qed
  qed
qed

lemma files_read_hold:
  assumes "files_hold cfg f c t (d, st)" "t \<le> later"
  shows "fst (read_entire_file_cached cfg now later d d f st) = c"
proof -
  obtain m where m: "d f = Some (m, c)" using assms(1) by (auto simp: files_hold_def)
  have "content e = c" if "map_of (file_cache st) f = Some e" for e
    using assms(1) map_of_SomeD [OF that] by (simp add: files_hold_def)
  moreover have "\<forall>e\<in>set (file_cache st). last_check (snd e) < later" "store_inv cfg st"
    using assms by (auto simp: files_hold_def files_ready_def)
  ultimately show ?thesis using m by (intro read_when_coherent) auto
qed

lemma files_read_keep:
  assumes "files_hold cfg f c t (d, st)" "t \<le> later" "now \<le> later"
  shows "files_hold cfg f c (later + 1) (snd (files_read cfg now later f' (d, st)))"
proof -
  have inv: "store_inv cfg st" and cl: "\<forall>e\<in>set (file_cache st). last_check (snd e) < later"
    using assms(1,2) by (auto simp: files_hold_def files_ready_def)
  note E = read_entries [OF inv assms(3) _ cl]
  obtain r st' where r: "read_entire_file_cached cfg now later d d f' st = (r, st')" by force
  have "store_inv cfg st'" using read_inv [OF inv, of now later d d f'] r by simp
  moreover have "last_check (snd e) < later + 1" if "e \<in> set (file_cache st')" for e
    using E [of "fst e" "snd e" d f'] that cl by (auto simp: r)
  moreover have "content e = c" if "(f, e) \<in> set (file_cache st')" for e
    using E [of f e d f'] that assms(1) files_read_hold [OF assms(1,2), of now] by (auto simp: r files_hold_def)
  ultimately show ?thesis using assms(1) by (simp add: files_read_def r files_hold_def files_ready_def)
qed

lemma files_written:
  assumes "files_ready cfg t (d, st)" "t \<le> now" "files_write cfg (opened, cut_off, mt, wall) now f c (d, st) = (True, d', st')"
  shows "files_hold cfg f c (now + 1) (d', st')"
proof -
  have w: "write_entire_file cfg opened cut_off mt wall now f c (d, st) = (True, d', st')" using assms(3) by (simp add: files_write_def)
  have inv: "store_inv cfg st" using assms(1) by (simp add: files_ready_def)
  note W = written_entries [OF inv w]
  have "umap_ok (file_cache st')" using W(2) by (simp add: store_inv_def store_ok_def entries_ok_def)
  then have "content e = c" if "(f, e) \<in> set (file_cache st')" for e
    using W(3) [OF map_of_is_SomeI [OF _ that]] by (simp add: umap_ok_def)
  moreover have "last_check (snd e) < now + 1" if "e \<in> set (file_cache st')" for e
    using W(4) that assms(1,2) by (force simp: files_ready_def)
  ultimately show ?thesis using W(1,2) by (simp add: files_hold_def files_ready_def)
qed

lemma files_write_keep:
  assumes "files_hold cfg f c t (d, st)" "t \<le> now" "f' \<noteq> f"
  shows "files_hold cfg f c (now + 1) (snd (files_write cfg (opened, cut_off, mt, wall) now f' c' (d, st)))"
proof -
  have inv: "store_inv cfg st" using assms(1) by (simp add: files_hold_def files_ready_def)
  obtain b d' st' where w: "write_entire_file cfg opened cut_off mt wall now f' c' (d, st) = (b, d', st')" by (metis prod_cases3)
  have i: "store_inv cfg st'" using write_inv [OF inv, of opened cut_off mt wall now f' c' d] w by simp
  have d: "d' f = d f" using w assms(3) by (auto simp: write_entire_file_def split: if_splits option.splits)
  let ?e = "\<lparr>content = c', mtime = wall, last_check = now, fsize = length c'\<rparr>"
  have ok: "store_ok (insert_entry f' c' wall now st)" using inv by (intro insert_entry_ok) (simp add: store_inv_def)
  have "set (file_cache st') \<subseteq> insert (f', ?e) (set (file_cache st))"
    using w evict_size_subset [OF ok, of cfg] set_emplace [of f' ?e "AList.delete f' (file_cache st)"]
    by (auto simp: write_entire_file_def insert_entry_cache remove_entry_cache set_delete split: if_splits option.splits)
  then show ?thesis using i d assms by (force simp: files_write_def w files_hold_def files_ready_def)
qed

interpretation cached: whole_files "files_read cfg" "files_write cfg" files_remove "files_ready cfg" "files_hold cfg" for cfg
proof
  fix t now x f c w w' assume a: "files_ready cfg t w" "t \<le> now" "files_write cfg x now f c w = (True, w')"
  then show "files_hold cfg f c (now + 1) w'"
    using files_written [of cfg t "fst w" "snd w" now] by (cases x) (metis prod.collapse)
next
  fix f c t w later now assume "files_hold cfg f c t w" "t \<le> later"
  then show "fst (files_read cfg now later f w) = c"
    using files_read_hold [of cfg f c t "fst w" "snd w" later now] by (simp add: files_read_def case_prod_beta)
next
  fix f c t w later now f' assume "files_hold cfg f c t w" "t \<le> later" "now \<le> later"
  then show "files_hold cfg f c (later + 1) (snd (files_read cfg now later f' w))"
    using files_read_keep [of cfg f c t "fst w" "snd w"] by simp
next
  fix f c t w now f' c' x assume "files_hold cfg f c t w" "t \<le> now" "f' \<noteq> f"
  then show "files_hold cfg f c (now + 1) (snd (files_write cfg x now f' c' w))"
    using files_write_keep [of cfg f c t "fst w" "snd w"] by (cases x) simp
next
  fix f c t w f' assume "files_hold cfg f c t w" "f' \<noteq> f"
  then show "files_hold cfg f c t (files_remove f' w)"
    by (auto simp: files_hold_def files_remove_def files_ready_def)
qed

lemma store_inv_accounts:
  assumes "store_inv cfg st"
  shows "umap_ok (file_cache st) \<and> total_cache_size st = (\<Sum>e\<leftarrow>file_cache st. length (content (snd e))) \<and>
    total_cache_size st \<le> file_cache_max_size cfg"
proof -
  have "entries_ok (file_cache st)" "total_cache_size st = entry_sizes (file_cache st)"
    "total_cache_size st \<le> file_cache_max_size cfg" using assms by (simp_all add: store_inv_def store_ok_def)
  moreover from this(1) have "entry_sizes (file_cache st) = (\<Sum>e\<leftarrow>file_cache st. length (content (snd e)))"
    unfolding entry_sizes_def by (intro arg_cong [of _ _ sum_list]) (simp add: entries_ok_def)
  ultimately show ?thesis by (simp add: entries_ok_def)
qed

text \<open>Everything that can happen to the cache, whatever the disk and the clocks do.\<close>

definition empty_store :: file_store where
  "empty_store = \<lparr>file_cache = [], total_cache_size = 0, call_counter = 0\<rparr>"

inductive cache_run :: "cache_config \<Rightarrow> file_store \<Rightarrow> bool" for cfg where
  cache_start: "cache_run cfg empty_store"
| cache_read: "cache_run cfg st \<Longrightarrow> cache_run cfg (snd (read_entire_file_cached cfg now later d d' f st))"
| cache_write: "cache_run cfg st \<Longrightarrow>
    cache_run cfg (snd (snd (write_entire_file cfg opened cut_off mt wall now f c (d, st))))"

section \<open>Properties\<close>

text \<open>After any sequence of cached reads and writes, with any disk and any clock, the cache has
  one entry per file, each entry's size is the length of its contents, the total is their sum and
  stays within \<open>file_cache_max_size\<close>.\<close>

theorem cache_accounts:
  assumes "cache_run cfg st"
  shows "umap_ok (file_cache st) \<and> total_cache_size st = (\<Sum>e\<leftarrow>file_cache st. length (content (snd e))) \<and>
    total_cache_size st \<le> file_cache_max_size cfg"
proof -
  from assms have "store_inv cfg st"
  proof induction
    case cache_start
    show ?case by (simp add: store_inv_def store_ok_def empty_store_def entries_ok_def entry_sizes_def)
  qed (simp_all add: read_inv write_inv)
  then show ?thesis by (rule store_inv_accounts)
qed

definition demo_config :: cache_config where
  "demo_config = \<lparr>file_cache_ttl = 600, file_cache_max_size = 3\<rparr>"

theorem cache_accounts_witness:
  "let st = snd (snd (write_entire_file demo_config True None 7 7 20 ''b'' ''yz''
        (Map.empty, snd (snd (write_entire_file demo_config True None 5 5 10 ''a'' ''vw'' (Map.empty, empty_store)))))) in
    umap_ok (file_cache st) \<and> total_cache_size st = (\<Sum>e\<leftarrow>file_cache st. length (content (snd e))) \<and>
    total_cache_size st \<le> file_cache_max_size demo_config"
  unfolding Let_def by (rule cache_accounts) (intro cache_write cache_start)

text \<open>C19: a cached read returns what is on the disk, or what was checked less than a second before:
  if every cached modification time that is still the disk's goes with the disk's contents, and the
  clock has moved on since the other entries were checked, nothing else can be returned, however
  the cache is maintained and evicted on the way.\<close>

theorem cached_read_current:
  assumes "store_inv cfg st" "coherent d st" "\<forall>e\<in>set (file_cache st). last_check (snd e) < later"
    and "d f = Some (m, c)"
  shows "fst (read_entire_file_cached cfg now later d d f st) = c \<or>
    (\<exists>e. map_of (file_cache st) f = Some e \<and> now - last_check e < 1000000000 \<and>
       fst (read_entire_file_cached cfg now later d d f st) = content e)"
proof -
  obtain r1 st1 where l: "cache_lookup cfg now f st = (r1, st1)" by force
  note i1 = cache_lookup_inv [OF assms(1) l]
  obtain r2 st2 where v: "cache_revalidate now m f st1 = (r2, st2)" by force
  note i2 = cache_revalidate_inv [OF i1(1) v]
  have rd: "read_file_binary d f (length c) = Some c" using assms(4) by (simp add: read_file_binary_def)
  show ?thesis
  proof (cases r1)
    case (Some u)
    then show ?thesis using i1(3) l by (simp add: read_entire_file_cached_def)
  next
    case None
    show ?thesis
    proof (cases r2)
      case (Some u)
      then obtain e where e: "map_of (file_cache st1) f = Some e" "mtime e = m" "u = content e"
        using v by (auto simp: cache_revalidate_def split: option.splits if_splits)
      then have "u = c" using coherent_subset [OF assms(2) i1(2)] assms(4) map_of_SomeD [OF e(1)]
        by (auto simp: coherent_def)
      then show ?thesis using Some None l v assms(4) by (simp add: read_entire_file_cached_def)
    next
      case n2: None
      have "set (file_cache st2) \<subseteq> set (file_cache st1)"
        using v n2 by (auto simp: cache_revalidate_def set_delete split: option.splits if_splits)
      then have "fst (cache_fill cfg later f c m st2) = c"
        using assms(3) i1(2) by (intro cache_fill_current i2) blast
      then show ?thesis using None n2 l v assms(4) rd by (simp add: read_entire_file_cached_def)
    qed
  qed
qed

theorem cached_read_current_witness:
  "let st = snd (snd (write_entire_file demo_config True None 5 5 10 ''a'' ''vw'' (Map.empty, empty_store)));
       d = [''a'' \<mapsto> (6, ''new'')] in
    fst (read_entire_file_cached demo_config 5000000000 5000000001 d d ''a'' st) = ''new'' \<or>
    (\<exists>e. map_of (file_cache st) ''a'' = Some e \<and> 5000000000 - last_check e < 1000000000 \<and>
       fst (read_entire_file_cached demo_config 5000000000 5000000001 d d ''a'' st) = content e)"
proof -
  let ?st = "snd (snd (write_entire_file demo_config True None 5 5 10 ''a'' ''vw'' (Map.empty, empty_store)))"
  have c: "file_cache ?st = [(''a'', \<lparr>content = ''vw'', mtime = 5, last_check = 10, fsize = 2\<rparr>)]"
    by (simp add: write_entire_file_def demo_config_def insert_entry_def remove_entry_def empty_store_def emplace_def
        evict_size_def Let_def)
  have "store_inv demo_config ?st"
    by (rule write_inv) (simp add: store_inv_def store_ok_def empty_store_def entries_ok_def entry_sizes_def)
  moreover have "coherent [''a'' \<mapsto> (6, ''new'')] ?st" by (simp add: coherent_def c)
  ultimately show ?thesis unfolding Let_def by (rule cached_read_current) (simp_all add: c)
qed

end
