(* ===== verification/Config.thy ===== *)
theory Config
  imports DynVar Fileio
begin

text \<open>
  config.h and config.cpp: the global configuration, the command line and the key/value files
  behind endpoints. A conversion that throws (\<open>std::stoi\<close> and its relatives on a text without a
  number, or out of range) is an outcome of its own, because nothing catches it.
\<close>

record global_config =
  fcgi_port :: u16
  fcgi_socket_path :: string
  fcgi_path_prefix :: string
  ws_port :: u16
  ws_socket_path :: string
  ws_path_prefix :: string
  backlog :: int
  arena_capacity :: size_t
  output_buffer_initial :: size_t
  upload_tmp_dir :: string
  max_in_flight :: u32
  cfg_max_params_bytes :: size_t
  cfg_max_stdin_bytes :: size_t
  max_memory_per_request :: size_t
  max_request_time :: double
  body_preview_limit :: size_t
  print_env_limit :: size_t
  print_params_limit :: size_t
  print_indent :: int
  pretty_print_params :: bool
  params_json_depth :: int
  endpoint_file_path :: string
  default_content_type :: string
  session_cookie_name :: string
  session_cookie_lifetime :: double
  session_cookie_path :: string
  session_storage_path :: string
  session_auto_load :: bool
  http_cookies_var :: string
  http_query_var :: string
  keep_uploaded_files :: bool
  cleanup_temp_on_disconnect :: bool
  cfg_file_cache_ttl :: double
  cfg_file_cache_max_size :: size_t
  log_level :: int
  log_destination :: string

definition default_config :: global_config where
  "default_config =
     \<lparr>fcgi_port = 9000, fcgi_socket_path = [], fcgi_path_prefix = [], ws_port = 9001, ws_socket_path = [],
      ws_path_prefix = ''/ws'', backlog = 256 * 16, arena_capacity = 256 * 1024,
      output_buffer_initial = 32 * 1024, upload_tmp_dir = ''/tmp'', max_in_flight = 8,
      cfg_max_params_bytes = 256 * 1024, cfg_max_stdin_bytes = 2 * 1024 * 1024,
      max_memory_per_request = 16 * 1024 * 1024, max_request_time = double_of_int 30,
      body_preview_limit = 1024, print_env_limit = 0, print_params_limit = 0, print_indent = 2,
      pretty_print_params = True, params_json_depth = - 1, endpoint_file_path = ''SCRIPT_FILENAME'',
      default_content_type = ''text/plain; charset=utf-8'', session_cookie_name = ''session_id'',
      session_cookie_lifetime = double_of_int (60 * 60 * 24 * 30), session_cookie_path = ''/'',
      session_storage_path = ''/tmp/sessions'', session_auto_load = True, http_cookies_var = ''HTTP_COOKIE'',
      http_query_var = ''QUERY_STRING'', keep_uploaded_files = False, cleanup_temp_on_disconnect = True,
      cfg_file_cache_ttl = double_of_int (60 * 10), cfg_file_cache_max_size = 256 * 1024 * 1024,
      log_level = 1, log_destination = ''stderr''\<rparr>"

section \<open>Conversions\<close>

text \<open>What \<open>strtol\<close> and \<open>strtoull\<close> see: blanks, a sign, digits; the rest is ignored.\<close>

definition scan_int :: "string \<Rightarrow> (bool \<times> nat) option" where
  "scan_int s =
     (let s1 = dropWhile isspace s;
          (neg, s2) = (case s1 of
              [] \<Rightarrow> (False, [])
            | c # cs \<Rightarrow> if c = CHR ''-'' then (True, cs) else if c = CHR ''+'' then (False, cs) else (False, s1));
          ds = takeWhile isdigit s2
      in if ds = [] then None else Some (neg, dec_value ds))"

definition stoi :: "string \<Rightarrow> int option" where
  "stoi s =
     (case scan_int s of
        None \<Rightarrow> None
      | Some (neg, n) \<Rightarrow>
          (let v = if neg then - int n else int n
           in if - (2 ^ 31) \<le> v \<and> v < 2 ^ 31 then Some v else None))"

text \<open>\<open>stoul\<close> and \<open>stoull\<close> agree where \<open>long\<close> has 64 bits; a minus sign negates modulo \<open>2^64\<close>.\<close>

definition stoull :: "string \<Rightarrow> u64 option" where
  "stoull s =
     (case scan_int s of
        None \<Rightarrow> None
      | Some (neg, n) \<Rightarrow> if n < 2 ^ 64 then Some (if neg then - of_nat n else of_nat n) else None)"

section \<open>The command line\<close>

type_synonym opt = "string \<times> bool \<times> (string \<Rightarrow> global_config \<Rightarrow> global_config option)"

abbreviation opt_int :: "string \<Rightarrow> (int \<Rightarrow> global_config \<Rightarrow> global_config) \<Rightarrow> opt" where
  "opt_int name upd \<equiv> (name, True, \<lambda>v g. map_option (\<lambda>n. upd n g) (stoi v))"

abbreviation opt_size :: "string \<Rightarrow> (u64 \<Rightarrow> global_config \<Rightarrow> global_config) \<Rightarrow> opt" where
  "opt_size name upd \<equiv> (name, True, \<lambda>v g. map_option (\<lambda>n. upd n g) (stoull v))"

abbreviation opt_str :: "string \<Rightarrow> (string \<Rightarrow> global_config \<Rightarrow> global_config) \<Rightarrow> opt" where
  "opt_str name upd \<equiv> (name, True, \<lambda>v g. Some (upd v g))"

abbreviation opt_flag :: "string \<Rightarrow> (global_config \<Rightarrow> global_config) \<Rightarrow> opt" where
  "opt_flag name upd \<equiv> (name, False, \<lambda>v g. Some (upd g))"

definition opts :: "opt list" where
  "opts =
     [opt_int ''--fcgi-port'' (\<lambda>n g. g\<lparr>fcgi_port := of_int n\<rparr>),
      opt_str ''--fcgi-socket'' (\<lambda>v g. g\<lparr>fcgi_socket_path := v\<rparr>),
      opt_int ''--ws-port'' (\<lambda>n g. g\<lparr>ws_port := of_int n\<rparr>),
      opt_str ''--ws-socket'' (\<lambda>v g. g\<lparr>ws_socket_path := v\<rparr>),
      opt_int ''--backlog'' (\<lambda>n g. g\<lparr>backlog := n\<rparr>),
      opt_size ''--max-in-flight'' (\<lambda>n g. g\<lparr>max_in_flight := ucast n\<rparr>),
      opt_size ''--max-params'' (\<lambda>n g. g\<lparr>cfg_max_params_bytes := n\<rparr>),
      opt_size ''--max-stdin'' (\<lambda>n g. g\<lparr>cfg_max_stdin_bytes := n\<rparr>),
      opt_size ''--arena-capacity'' (\<lambda>n g. g\<lparr>arena_capacity := n\<rparr>),
      opt_size ''--output-buffer'' (\<lambda>n g. g\<lparr>output_buffer_initial := n\<rparr>),
      opt_str ''--upload-tmp'' (\<lambda>v g. g\<lparr>upload_tmp_dir := v\<rparr>),
      opt_size ''--body-preview'' (\<lambda>n g. g\<lparr>body_preview_limit := n\<rparr>),
      opt_size ''--print-env-limit'' (\<lambda>n g. g\<lparr>print_env_limit := n\<rparr>),
      opt_size ''--print-params-limit'' (\<lambda>n g. g\<lparr>print_params_limit := n\<rparr>),
      opt_int ''--print-indent'' (\<lambda>n g. g\<lparr>print_indent := n\<rparr>),
      opt_int ''--params-json-depth'' (\<lambda>n g. g\<lparr>params_json_depth := n\<rparr>),
      opt_flag ''--keep-uploads'' (\<lambda>g. g\<lparr>keep_uploaded_files := True\<rparr>),
      opt_flag ''--no-cleanup-temp'' (\<lambda>g. g\<lparr>cleanup_temp_on_disconnect := False\<rparr>),
      opt_int ''--log-level'' (\<lambda>n g. g\<lparr>log_level := n\<rparr>),
      opt_str ''--log-dest'' (\<lambda>v g. g\<lparr>log_destination := v\<rparr>),
      opt_str ''--ws-path-prefix'' (\<lambda>v g. g\<lparr>ws_path_prefix := v\<rparr>),
      opt_str ''--fcgi-path-prefix'' (\<lambda>v g. g\<lparr>fcgi_path_prefix := v\<rparr>),
      opt_flag ''--help'' (\<lambda>g. g)]"

definition find_opt :: "string \<Rightarrow> (bool \<times> (string \<Rightarrow> global_config \<Rightarrow> global_config option)) option" where
  "find_opt a = map_of opts a"

datatype parse_end = Returned bool | Threw

text \<open>The loop over \<open>argv\<close> from index 1.\<close>

fun parse_args_loop ::
  "string list \<Rightarrow> global_config \<Rightarrow> string list \<Rightarrow> parse_end \<times> global_config \<times> string list" where
  "parse_args_loop [] g errors = (Returned (errors = []), g, errors)"
| "parse_args_loop (a # rest) g errors =
     (case find_opt a of
        None \<Rightarrow> parse_args_loop rest g (errors @ [''Unknown arg: '' @ a])
      | Some (needs, apply_opt) \<Rightarrow>
          if a = ''--help'' then (Returned False, g, errors)
          else if needs then
            (case rest of
               [] \<Rightarrow> (Returned False, g, errors @ [''Missing value for '' @ a])
             | v # rest' \<Rightarrow>
                 (case apply_opt v g of
                    None \<Rightarrow> (Threw, g, errors)
                  | Some g' \<Rightarrow> parse_args_loop rest' g' errors))
          else
            (case apply_opt [] g of
               None \<Rightarrow> (Threw, g, errors)
             | Some g' \<Rightarrow> parse_args_loop rest g' errors))"

definition config_parse_args :: "string list \<Rightarrow> global_config \<Rightarrow> string list \<Rightarrow> parse_end \<times> global_config \<times> string list" where
  "config_parse_args argv g errors = parse_args_loop (drop 1 argv) g errors"

section \<open>Key/value files\<close>

definition trim_inplace :: "string \<Rightarrow> string" where
  "trim_inplace s = trim_by isspace s"

text \<open>\<open>std::getline\<close>: a final newline does not start another line.\<close>

fun getlines :: "string \<Rightarrow> string list" where
  "getlines [] = []"
| "getlines (c # s) =
     (if c = CHR 0x0A then [] # getlines s
      else (case getlines s of
              [] \<Rightarrow> [[c]]
            | l # ls \<Rightarrow> (c # l) # ls))"

definition kv_store :: "string \<Rightarrow> string \<Rightarrow> dv \<Rightarrow> dv" where
  "kv_store key val out =
     (case dv_find key out of
        None \<Rightarrow> dv_put key (make_string val) out
      | Some (STRING prev) \<Rightarrow> dv_put key (dv_push (make_string val) (dv_push (make_string prev) make_array)) out
      | Some (ARRAY vs) \<Rightarrow> dv_put key (dv_push (make_string val) (ARRAY vs)) out
      | Some _ \<Rightarrow> dv_put key (make_string val) out)"

text \<open>One turn of the loop, with \<open>last_key\<close>.\<close>

definition kv_line :: "string \<Rightarrow> string \<times> dv \<Rightarrow> string \<times> dv" where
  "kv_line raw = (\<lambda>(last_key, out).
     let line = trim_inplace raw
     in if line = [] then (last_key, out)
        else if line ! 0 = CHR ''#'' \<or> line ! 0 = CHR '';'' then (last_key, out)
        else
          (let (k0, v0) = (case str_find_char line (CHR ''='') 0 of
                 None \<Rightarrow> (last_key, line)
               | Some eq \<Rightarrow> (substr line 0 eq, substr_from line (eq + 1)));
               key = trim_inplace k0; val = trim_inplace v0
           in (key, kv_store key val out)))"

definition kv_start :: "dv \<Rightarrow> dv" where
  "kv_start out = (if \<not> is_object out then make_object else out)"

definition load_kv_content :: "string \<Rightarrow> dv \<Rightarrow> bool \<times> dv" where
  "load_kv_content cont out =
     (if cont = [] then (False, kv_start out)
      else (True, snd (fold kv_line (getlines cont) (''undefined'', kv_start out))))"

definition load_kv_file ::
  "cache_config \<Rightarrow> int \<Rightarrow> int \<Rightarrow> disk \<Rightarrow> string \<Rightarrow> file_store \<times> dv \<Rightarrow> bool \<times> file_store \<times> dv" where
  "load_kv_file cfg now later d path = (\<lambda>(st, out).
     case read_entire_file_cached cfg now later d d path st of
       (cont, st') \<Rightarrow> (case load_kv_content cont out of (ok, out') \<Rightarrow> (ok, st', out')))"

section \<open>What a key/value file means\<close>

text \<open>The key and value of a line, and the lines of a file in order; a line without an equals sign
  continues the key before it.\<close>

definition line_pair :: "string \<Rightarrow> string \<Rightarrow> (string \<times> string) option" where
  "line_pair last_key raw =
     (let line = trim_by isspace raw
      in if line = [] \<or> hd line \<in> {CHR ''#'', CHR '';''} then None
         else if CHR ''='' \<in> set line then
           Some (trim_by isspace (takeWhile (\<lambda>c. c \<noteq> CHR ''='') line),
                 trim_by isspace (tl (dropWhile (\<lambda>c. c \<noteq> CHR ''='') line)))
         else Some (trim_by isspace last_key, line))"

fun kv_pairs :: "string \<Rightarrow> string list \<Rightarrow> (string \<times> string) list" where
  "kv_pairs last_key [] = []"
| "kv_pairs last_key (l # ls) =
     (case line_pair last_key l of
        None \<Rightarrow> kv_pairs last_key ls
      | Some (k, v) \<Rightarrow> (k, v) # kv_pairs k ls)"

definition values_of :: "string \<Rightarrow> (string \<times> string) list \<Rightarrow> string list" where
  "values_of k ps = map snd (filter (\<lambda>p. fst p = k) ps)"

definition collected :: "string list \<Rightarrow> dv option" where
  "collected vs = (case vs of [] \<Rightarrow> None | [v] \<Rightarrow> Some (STRING v) | _ \<Rightarrow> Some (ARRAY (map STRING vs)))"

lemma trim_by_idem: "trim_by P (trim_by P s) = trim_by P s"
proof (cases "dropWhile P s = []")
  case True
  then show ?thesis by (simp only: trim_by_def rev.simps dropWhile.simps)
next
  case False
  let ?m = "dropWhile P s"
  have last: "dropWhile P (rev ?m) = [] \<longleftrightarrow> ?m = []" 
    using False hd_dropWhile [OF False] by (metis dropWhile_eq_Nil_conv hd_in_set set_rev)
  have "rev (dropWhile P (rev ?m)) \<noteq> []" using last False by simp
  moreover have "hd (rev (dropWhile P (rev ?m))) = hd ?m"
  proof -
    obtain u where "rev ?m = u @ dropWhile P (rev ?m)" by (metis takeWhile_dropWhile_id)
    then have "?m = rev (dropWhile P (rev ?m)) @ rev u" by (metis rev_append rev_rev_ident)
    then show ?thesis using calculation by (metis hd_append2)
  qed
  ultimately have "dropWhile P (rev (dropWhile P (rev ?m))) = rev (dropWhile P (rev ?m))"
    using hd_dropWhile [OF False] by (metis dropWhile_eq_self_iff)
  then show ?thesis by (simp add: trim_by_def dropWhile_idem)
qed

lemma takeWhile_take: "find_idx P xs = Some k \<Longrightarrow> take k xs = takeWhile (\<lambda>x. \<not> P x) xs \<and> drop (Suc k) xs = tl (dropWhile (\<lambda>x. \<not> P x) xs)"
  by (induction xs arbitrary: k) (auto split: if_splits)

lemma kv_line_pair:
  assumes "trim_by isspace lk = lk"
  shows "kv_line raw (lk, out) =
    (case line_pair lk raw of None \<Rightarrow> (lk, out) | Some (k, v) \<Rightarrow> (k, kv_store k v out))"
proof -
  define line where "line = trim_by isspace raw"
  have t: "trim_by isspace line = line" by (simp add: line_def trim_by_idem)
  show ?thesis
  proof (cases "line = [] \<or> hd line \<in> {CHR ''#'', CHR '';''}")
    case True
    then show ?thesis
      by (cases line) (auto simp: kv_line_def line_pair_def trim_inplace_def line_def [symmetric] Let_def)
  next
    case ne: False
    then have z: "line \<noteq> []" "line ! 0 \<noteq> CHR ''#''" "line ! 0 \<noteq> CHR '';''" by (auto simp: hd_conv_nth)
    show ?thesis
    proof (cases "find_idx (\<lambda>c. c = CHR ''='') line")
      case None
      then have "CHR ''='' \<notin> set line" by (auto simp: find_idx_None)
      then show ?thesis using ne z None assms t
        by (simp add: kv_line_def line_pair_def trim_inplace_def line_def [symmetric] Let_def str_find_char_def)
    next
      case (Some k)
      then have "k < length line" "line ! k = CHR ''=''" by (simp_all add: find_idx_Some)
      then have "CHR ''='' \<in> set line" using nth_mem [of k line] by simp
      then show ?thesis using ne z Some takeWhile_take [OF Some]
        by (simp add: kv_line_def line_pair_def trim_inplace_def line_def [symmetric] Let_def str_find_char_def
            substr_def substr_from_def)
    qed
  qed
qed

lemma line_pair_key_trimmed: "line_pair last_key raw = Some (k, v) \<Longrightarrow> trim_by isspace k = k"
  by (auto simp: line_pair_def Let_def trim_by_idem split: if_splits)

lemma is_object_kv_store [simp]: "is_object (kv_store k v out)"
  by (auto simp: kv_store_def split: option.splits dv.splits)

text \<open>What one assignment does to the values collected under each key.\<close>

lemma kv_store_collects:
  assumes "is_object out" "\<forall>k. dv_find k out = collected (vals k)"
  shows "dv_find j (kv_store k v out) = collected (if j = k then vals k @ [v] else vals j)"
proof (cases "j = k")
  case True
  show ?thesis
  proof (cases "vals k" rule: rev_cases)
    case Nil
    then show ?thesis using assms True by (simp add: kv_store_def collected_def)
  next
    case (snoc us u)
    then show ?thesis using assms True
      by (cases us) (auto simp: kv_store_def collected_def dv_push_def split: list.splits)
  qed
next
  case False
  have find: "dv_find j (dv_put k x out) = dv_find j out" for x using False assms(1) by simp
  show ?thesis using False assms(2) by (auto simp: kv_store_def find split: option.splits dv.splits)
qed

lemma fold_kv_lines:
  "is_object out \<Longrightarrow> trim_by isspace lk = lk \<Longrightarrow> \<forall>k. dv_find k out = collected (vals k) \<Longrightarrow>
    dv_find j (snd (fold kv_line ls (lk, out))) = collected (vals j @ values_of j (kv_pairs lk ls))"
proof (induction ls arbitrary: lk out vals)
  case Nil
  then show ?case by (simp add: values_of_def)
next
  case (Cons l ls)
  show ?case
  proof (cases "line_pair lk l")
    case None
    then show ?thesis using Cons by (simp add: kv_line_pair)
  next
    case (Some kv)
    obtain k v where kv: "kv = (k, v)" by force
    let ?vals = "\<lambda>i. if i = k then vals k @ [v] else vals i"
    have "dv_find j (snd (fold kv_line ls (k, kv_store k v out))) = collected (?vals j @ values_of j (kv_pairs k ls))"
      using kv_store_collects [OF Cons.prems(1,3)] line_pair_key_trimmed Some kv
      by (intro Cons.IH) simp_all
    then show ?thesis using Some kv Cons.prems(2)
      by (cases "j = k") (simp_all add: kv_line_pair values_of_def)
  qed
qed

section \<open>Numbers on the command line\<close>

lemma scan_int_show_nat: "scan_int (show_nat n) = Some (False, n)"
proof -
  obtain c cs where c: "show_nat n = c # cs" by (cases "show_nat n") simp_all
  have d: "\<forall>x\<in>set (show_nat n). isdigit x" by (rule show_nat_digits)
  then have "isdigit c" using c by simp
  then have "\<not> isspace c" "c \<noteq> CHR ''-''" "c \<noteq> CHR ''+''" by (auto simp: isdigit_def isspace_def)
  then have dw: "dropWhile isspace (show_nat n) = show_nat n"
    and sg: "(case show_nat n of [] \<Rightarrow> (False, []) | c # cs \<Rightarrow> if c = CHR ''-'' then (True, cs)
      else if c = CHR ''+'' then (False, cs) else (False, show_nat n)) = (False, show_nat n)"
    by (simp_all add: c)
  have tw: "takeWhile isdigit (show_nat n) = show_nat n" using d by (simp add: takeWhile_eq_all_conv)
  show ?thesis by (simp add: scan_int_def Let_def dw sg tw)
qed

section \<open>Properties\<close>

text \<open>An endpoint file is read as the list of its assignments in order: a key assigned once holds
  a string, a key assigned several times an array of all its values in order, and a line without
  an equals sign adds to the key of the line before.\<close>

theorem kv_file_collects:
  "dv_find k (snd (load_kv_content text make_object)) =
     collected (values_of k (kv_pairs ''undefined'' (getlines text)))"
proof (cases "text = []")
  case True
  then show ?thesis by (simp add: load_kv_content_def kv_start_def values_of_def collected_def)
next
  case False
  have "trim_by isspace ''undefined'' = ''undefined''" by (simp add: trim_by_def isspace_def)
  from fold_kv_lines [OF _ this, of make_object "\<lambda>_. []" k "getlines text"] False
  show ?thesis by (simp add: load_kv_content_def kv_start_def collected_def)
qed

text \<open>A port number is accepted whenever it fits an \<open>int\<close> and then taken modulo 65536, so that
  port 70000 silently becomes 4464; a larger number ends the program with an uncaught exception.\<close>

theorem port_is_truncated:
  "config_parse_args [prog, ''--fcgi-port'', show_nat n] g [] =
     (if n < 2 ^ 31 then (Returned True, g\<lparr>fcgi_port := of_nat n\<rparr>, []) else (Threw, g, []))"
proof -
  have "stoi (show_nat n) = (if n < 2 ^ 31 then Some (int n) else None)"
    by (auto simp: stoi_def scan_int_show_nat)
  then show ?thesis by (simp add: config_parse_args_def find_opt_def opts_def)
qed

end
