(* ===== verification/Form.thy ===== *)
theory Form
  imports Json Codec Request Config
begin

text \<open>
  http.cpp, lines 183 to 485: cookies, query parameters, the three kinds of form data, response
  headers and endpoint files, all acting on a \<open>Request\<close>. Saving an uploaded file (\<open>mkstemp\<close>, the
  loop of \<open>write\<close> and \<open>close\<close>) is an operation of the world: given the name pattern and the bytes
  it returns the path and the number of bytes written, or \<open>None\<close> when no file could be made.
\<close>

type_synonym 'w saver = "string \<Rightarrow> string \<Rightarrow> 'w \<Rightarrow> (string \<times> nat) option \<times> 'w"

abbreviation crlf :: string where "crlf \<equiv> [CHR 0x0D, CHR 0x0A]"

definition lower :: "string \<Rightarrow> string" where
  "lower s = map tolower s"

section \<open>Multipart bodies\<close>

text \<open>The attributes of a \<open>Content-Disposition\<close> value: (field name, file name).\<close>

definition disposition_attr :: "string \<Rightarrow> nat \<Rightarrow> nat \<Rightarrow> string \<times> string \<Rightarrow> string \<times> string" where
  "disposition_attr val p sc = (\<lambda>(field_name, filename).
     case str_find_char val (CHR ''='') p of
       None \<Rightarrow> (field_name, filename)
     | Some eqp \<Rightarrow>
         if eqp < sc then
           (let attr = trim_spaces (substr val p (eqp - p));
                blanks = length (takeWhile (\<lambda>c. c = CHR '' '' \<or> c = CHR 0x09) (substr val (eqp + 1) (sc - (eqp + 1))));
                valstart = eqp + 1 + blanks
            in if valstart < sc \<and> val ! valstart = quote_char \<and> valstart + 1 < sc \<and> val ! (sc - 1) = quote_char then
                 (let aval = substr val (valstart + 1) (sc - valstart - 2)
                  in if attr = ''name'' then (aval, filename)
                     else if attr = ''filename'' then (field_name, aval)
                     else (field_name, filename))
               else (field_name, filename))
         else (field_name, filename))"

function disposition_loop :: "string \<Rightarrow> nat \<Rightarrow> string \<times> string \<Rightarrow> string \<times> string" where
  "disposition_loop val p names =
     (if p < length val then
        (let sc = or_end (length val) (str_find_char val (CHR '';'') p);
             names' = disposition_attr val p sc names
         in if sc = length val then names' else disposition_loop val (sc + 1) names')
      else names)"
  by pat_completeness auto
termination
  by (relation "measure (\<lambda>(val, p, names). length val - p)")
    (auto simp: or_end_def dest: str_find_char_Some split: option.splits)

declare disposition_loop.simps [simp del]

text \<open>One header line of a part: (field name, file name, content type).\<close>

definition part_header :: "string \<Rightarrow> string \<times> string \<times> string \<Rightarrow> string \<times> string \<times> string" where
  "part_header line = (\<lambda>(field_name, filename, ctype).
     case str_find_char line (CHR '':'') 0 of
       None \<Rightarrow> (field_name, filename, ctype)
     | Some colon \<Rightarrow>
         (let name = lower (substr line 0 colon);
              val = trim_spaces (substr_from line (colon + 1))
          in if name = ''content-disposition'' then
               (case disposition_loop val 0 (field_name, filename) of (f, g) \<Rightarrow> (f, g, ctype))
             else if name = ''content-type'' then (field_name, filename, val)
             else (field_name, filename, ctype)))"

function part_headers :: "string \<Rightarrow> nat \<Rightarrow> string \<times> string \<times> string \<Rightarrow> string \<times> string \<times> string" where
  "part_headers hdrs hpos names =
     (if hpos < length hdrs then
        (let line_end = or_end (length hdrs) (str_find hdrs crlf hpos);
             line = substr hdrs hpos (line_end - hpos)
         in if line = [] then names else part_headers hdrs (line_end + 2) (part_header line names))
      else names)"
  by pat_completeness auto
termination
  by (relation "measure (\<lambda>(hdrs, hpos, names). length hdrs - hpos)")
    (auto simp: or_end_def dest: str_find_Some split: option.splits)

declare part_headers.simps [simp del]

text \<open>The checksum of the file, as the code writes its constants.\<close>

definition fnv_basis :: u64 where
  "fnv_basis = 1469598103934665603"

definition fnv_hash :: "string \<Rightarrow> u64" where
  "fnv_hash data = foldl (\<lambda>hv c. (hv XOR of_nat (uchar c)) * 1099511628211) fnv_basis data"

definition hex16 :: "u64 \<Rightarrow> string" where
  "hex16 v = map (\<lambda>k. hex_lower (unat v div 16 ^ k mod 16)) [15, 14, 13, 12, 11, 10, 9, 8, 7, 6, 5, 4, 3, 2, 1, 0]"

definition upload_pattern :: "string \<Rightarrow> string" where
  "upload_pattern upload_dir =
     (if upload_dir \<noteq> [] \<and> last upload_dir \<noteq> CHR ''/'' then upload_dir @ ''/'' else upload_dir) @ ''fcgi_upload_XXXXXX''"

definition file_entry :: "string \<Rightarrow> string \<Rightarrow> string \<Rightarrow> string \<Rightarrow> string \<Rightarrow> nat \<Rightarrow> dv" where
  "file_entry field_name filename ctype data path written =
     (let f1 = dv_put ''filename'' (STRING filename) (dv_put ''field_name'' (STRING field_name) make_object);
          f2 = (if ctype \<noteq> [] then dv_put ''content_type'' (STRING ctype) f1 else f1);
          f3 = dv_put ''temp_path'' (STRING path) f2;
          f4 = dv_put ''size'' (NUMBER (double_of_int (int written))) f3;
          f5 = dv_put ''expected_size'' (NUMBER (double_of_int (int (length data)))) f4;
          f6 = dv_put ''hash_fnv1a64'' (STRING (hex16 (fnv_hash data))) f5
      in if written \<noteq> length data then dv_put ''partial'' (BOOL True) f6 else f6)"

record 'w upload_state =
  form_fields :: "string umap"
  upload_files :: dv
  upload_world :: 'w

text \<open>What is done with one part: its names and its contents.\<close>

definition store_part ::
  "'w saver \<Rightarrow> string \<Rightarrow> string \<times> string \<times> string \<Rightarrow> string \<Rightarrow> 'w upload_state \<Rightarrow> 'w upload_state" where
  "store_part save upload_dir = (\<lambda>(field_name, filename, ctype) data st.
     if filename = [] then st\<lparr>form_fields := AList.update field_name data (form_fields st)\<rparr>
     else
       (case save (upload_pattern upload_dir) data (upload_world st) of
          (None, w) \<Rightarrow> st\<lparr>upload_world := w\<rparr>
        | (Some (path, written), w) \<Rightarrow>
            st\<lparr>upload_world := w,
               upload_files := dv_push (file_entry field_name filename ctype data path written) (upload_files st)\<rparr>))"

text \<open>One part behind the delimiter at \<open>start\<close>: its headers, its contents and where it ends.\<close>

definition read_part :: "string \<Rightarrow> string \<Rightarrow> nat \<Rightarrow> ((string \<times> string \<times> string) \<times> string \<times> nat) option" where
  "read_part bdy delim start =
     (case str_find bdy (crlf @ crlf) start of
        None \<Rightarrow> None
      | Some header_end \<Rightarrow>
          (let hdrs = substr bdy start (header_end - start);
               content_start = header_end + 4
           in (case str_find bdy (crlf @ delim) content_start of
                 None \<Rightarrow> None
               | Some part_end \<Rightarrow>
                   (let len0 = part_end - content_start;
                        len = (if 2 \<le> len0 \<and> bdy ! (content_start + len0 - 2) = CHR 0x0D \<and>
                                  bdy ! (content_start + len0 - 1) = CHR 0x0A then len0 - 2 else len0)
                    in Some (part_headers hdrs 0 ([], [], []), substr bdy content_start len, part_end)))))"

lemma read_part_end: "read_part bdy delim start = Some (names, data, e) \<Longrightarrow> start < e"
  by (auto simp: read_part_def Let_def split: option.splits dest!: str_find_Some(1))

function multipart_loop ::
  "'w saver \<Rightarrow> string \<Rightarrow> string \<Rightarrow> string \<Rightarrow> nat \<Rightarrow> 'w upload_state \<Rightarrow> bool \<times> 'w upload_state" where
  "multipart_loop save upload_dir bdy delim pos st =
     (case str_find bdy delim pos of
        None \<Rightarrow> (True, st)
      | Some found \<Rightarrow>
          (let start = found + length delim
           in if start + 2 \<le> length bdy \<and> substr bdy start 2 = ''--'' then (True, st)
              else if start < length bdy \<and> bdy ! start = CHR 0x0D \<and> start + 1 < length bdy \<and>
                  bdy ! (start + 1) = CHR 0x0A then
                (case read_part bdy delim (start + 2) of
                   None \<Rightarrow> (False, st)
                 | Some (names, data, part_end) \<Rightarrow>
                     multipart_loop save upload_dir bdy delim (part_end + 2) (store_part save upload_dir names data st))
              else (False, st)))"
  by pat_completeness auto
termination
  by (relation "measure (\<lambda>(save, upload_dir, bdy, delim, pos, st). Suc (length bdy) - pos)")
    (auto dest!: read_part_end str_find_bounds)

declare multipart_loop.simps [simp del]

definition extract_files_from_formdata ::
  "'w saver \<Rightarrow> string \<Rightarrow> string \<Rightarrow> string \<Rightarrow> 'w upload_state \<Rightarrow> bool \<times> 'w upload_state" where
  "extract_files_from_formdata save bdy boundary upload_dir st =
     (if boundary = [] then (False, st)
      else multipart_loop save upload_dir bdy (''--'' @ boundary) 0 (st\<lparr>upload_files := make_array\<rparr>))"

section \<open>Cookies and query parameters\<close>

definition ensure_object :: "dv \<Rightarrow> dv" where
  "ensure_object v = (if \<not> is_object v then make_object else v)"

definition put_strings :: "string umap \<Rightarrow> dv \<Rightarrow> dv" where
  "put_strings m v = fold (\<lambda>(k, s). dv_put k (make_string s)) m v"

definition cookie_segment :: "string \<Rightarrow> dv \<Rightarrow> dv" where
  "cookie_segment seg0 cks =
     (let segment = trim_ascii_ws seg0
      in if segment = [] then cks
         else
           (let (key, val) = (case str_find_char segment (CHR ''='') 0 of
                  None \<Rightarrow> (segment, [])
                | Some eq \<Rightarrow>
                    (let v = trim_ascii_ws (substr_from segment (eq + 1))
                     in (trim_ascii_ws (substr segment 0 eq),
                         if 2 \<le> length v \<and> hd v = quote_char \<and> last v = quote_char
                         then substr v 1 (length v - 2) else v)))
            in if key \<noteq> [] then dv_put key (make_string val) cks else cks))"

function cookie_loop :: "string \<Rightarrow> nat \<Rightarrow> dv \<Rightarrow> dv" where
  "cookie_loop s pos cks =
     (if pos < length s then
        (let semi = or_end (length s) (str_find_char s (CHR '';'') pos)
         in cookie_loop s (semi + 1) (cookie_segment (substr s pos (semi - pos)) cks))
      else cks)"
  by pat_completeness auto
termination
  by (relation "measure (\<lambda>(s, pos, cks). length s - pos)")
    (auto simp: or_end_def dest: str_find_char_Some split: option.splits)

declare cookie_loop.simps [simp del]

definition var_string :: "dv option \<Rightarrow> string" where
  "var_string v = (case v of None \<Rightarrow> [] | Some x \<Rightarrow> dv_to_string x)"

definition parse_cookie_header :: "dv option \<Rightarrow> request \<Rightarrow> request" where
  "parse_cookie_header cookie_var r =
     (let cookie_string = var_string cookie_var;
          cks = ensure_object (cookies r)
      in r\<lparr>cookies := if cookie_string \<noteq> [] then cookie_loop cookie_string 0 cks else cks\<rparr>)"

definition parse_query_params :: "dv option \<Rightarrow> request \<Rightarrow> request" where
  "parse_query_params query_string r =
     r\<lparr>params := put_strings (parse_query_string (var_string query_string) []) (ensure_object (params r))\<rparr>"

section \<open>Form data\<close>

definition parse_json_form_data :: "request \<Rightarrow> request" where
  "parse_json_form_data r =
     (case parse_json (body r) of
        (Some (OBJECT m), _) \<Rightarrow> r\<lparr>params := fold (\<lambda>(k, v). dv_put k v) m (ensure_object (params r))\<rparr>
      | (Some parsed, _) \<Rightarrow> r\<lparr>params := dv_put ''_json'' parsed (ensure_object (params r))\<rparr>
      | (None, errpos) \<Rightarrow>
          r\<lparr>params := dv_put ''_json_error'' (make_string (''parse error at position '' @
               show_nat (case errpos of None \<Rightarrow> 0 | Some n \<Rightarrow> n))) (ensure_object (params r))\<rparr>)"

text \<open>
  \<open>r.params.type = OBJECT\<close> reinterprets the payload of anything that is not an object; every caller
  has run \<open>parse_query_params\<close> before, which leaves an object.
\<close>

definition set_type_object :: "dv \<Rightarrow> dv" where
  "set_type_object v = (case v of OBJECT m \<Rightarrow> OBJECT m | _ \<Rightarrow> OBJECT [])"

definition form_boundary :: "string \<Rightarrow> string" where
  "form_boundary ct =
     (let b = (case str_find (lower ct) ''boundary='' 0 of None \<Rightarrow> [] | Some bpos \<Rightarrow> substr_from ct (bpos + 9))
      in if b \<noteq> [] \<and> hd b = quote_char \<and> last b = quote_char \<and> 2 \<le> length b then substr b 1 (length b - 2) else b)"

definition content_type_of :: "request \<Rightarrow> string option" where
  "content_type_of r = (case dv_find ''CONTENT_TYPE'' (env r) of Some (STRING ct) \<Rightarrow> Some ct | _ \<Rightarrow> None)"

definition parse_multipart_form_data :: "'w saver \<Rightarrow> string \<Rightarrow> request \<times> 'w \<Rightarrow> request \<times> 'w" where
  "parse_multipart_form_data save upload_dir = (\<lambda>(r, w).
     case content_type_of r of
       None \<Rightarrow> (r, w)
     | Some ct \<Rightarrow>
         (let boundary = form_boundary ct
          in if boundary = [] then (r, w)
             else
               (case extract_files_from_formdata save (body r) boundary upload_dir
                       \<lparr>form_fields = [], upload_files = files r, upload_world = w\<rparr> of
                  (_, st) \<Rightarrow>
                    (r\<lparr>files := upload_files st, params := put_strings (form_fields st) (set_type_object (params r))\<rparr>,
                     upload_world st))))"

definition parse_urlencoded_form_data :: "request \<Rightarrow> request" where
  "parse_urlencoded_form_data r =
     r\<lparr>params := put_strings (parse_query_string (body r) []) (set_type_object (params r))\<rparr>"

definition contains_sub :: "string \<Rightarrow> string \<Rightarrow> bool" where
  "contains_sub s pat \<longleftrightarrow> str_find s pat 0 \<noteq> None"

definition parse_form_data :: "'w saver \<Rightarrow> string \<Rightarrow> request \<times> 'w \<Rightarrow> request \<times> 'w" where
  "parse_form_data save upload_dir = (\<lambda>(r, w).
     case content_type_of r of
       None \<Rightarrow> (r, w)
     | Some ct \<Rightarrow>
         (let lct = lower ct
          in if contains_sub lct ''application/json'' then (parse_json_form_data r, w)
             else if contains_sub lct ''application/x-www-form-urlencoded'' then (parse_urlencoded_form_data r, w)
             else if contains_sub lct ''multipart/form-data'' then parse_multipart_form_data save upload_dir (r, w)
             else (r, w)))"

section \<open>Headers and endpoint files\<close>

definition output_headers :: "request \<Rightarrow> string" where
  "output_headers r =
     concat (map (\<lambda>(k, v). k @ '': '' @ (case v of STRING s \<Rightarrow> s | _ \<Rightarrow> to_json v False 0) @ crlf)
       (dv_members (headers r))) @ crlf"

definition parse_endpoint_file ::
  "cache_config \<Rightarrow> int \<Rightarrow> int \<Rightarrow> disk \<Rightarrow> dv option \<Rightarrow> request \<times> file_store \<Rightarrow> request \<times> file_store" where
  "parse_endpoint_file cfg now later d file_path = (\<lambda>(r, st).
     case file_path of
       Some (STRING path) \<Rightarrow>
         (case load_kv_file cfg now later d path (st, make_object) of
            (_, st', c) \<Rightarrow> (r\<lparr>req_context := c\<rparr>, st'))
     | _ \<Rightarrow> (r\<lparr>req_context := make_object\<rparr>, st))"

section \<open>Trimming and searching\<close>

lemma trim_by_solid: "s = [] \<or> \<not> P (hd s) \<and> \<not> P (last s) \<Longrightarrow> trim_by P s = s"
proof -
  assume a: "s = [] \<or> \<not> P (hd s) \<and> \<not> P (last s)"
  show ?thesis
  proof (cases "s = []")
    case False
    then have "dropWhile P s = s" "dropWhile P (rev s) = rev s"
      using a by (simp_all add: dropWhile_eq_self_iff hd_rev)
    then show ?thesis by (simp add: trim_by_def)
  qed (simp add: trim_by_def)
qed

lemma trim_by_blank: "P c \<Longrightarrow> trim_by P (c # s) = trim_by P s"
  by (simp add: trim_by_def)

lemma find_sub_absent: "c \<notin> set s \<Longrightarrow> find_sub (c # p) s = None"
  by (induction s) (auto simp: starts_with_def)

lemma find_sub_here: "find_sub p (p @ r) = Some 0"
proof (cases p)
  case Nil
  then show ?thesis by (cases r) (simp_all add: starts_with_def)
next
  case (Cons c q)
  then have "starts_with (c # q @ r) (c # q)" by (simp add: starts_with_def)
  then show ?thesis by (simp add: Cons)
qed

lemma find_sub_skip: "c \<notin> set a \<Longrightarrow> find_sub (c # p) (a @ c # p @ r) = Some (length a)"
proof (induction a)
  case Nil
  have "starts_with ((c # p) @ r) (c # p)" by (rule starts_with_append)
  then show ?case by simp
next
  case (Cons x a)
  then show ?case by (auto simp: starts_with_def)
qed

lemma find_sub_append: "find_sub pat s = Some i \<Longrightarrow> find_sub pat (s @ r) = Some i"
proof (induction s arbitrary: i)
  case Nil
  then show ?case by (cases r) (auto simp: starts_with_def split: if_splits)
next
  case (Cons x xs)
  show ?case
  proof (cases "starts_with (x # xs) pat")
    case True
    then obtain u where u: "x # xs = pat @ u" by (auto simp: starts_with_iff)
    then have "(x # xs) @ r = pat @ (u @ r)" by simp
    then have "starts_with ((x # xs) @ r) pat" by (metis starts_with_append)
    then show ?thesis using True Cons.prems by simp
  next
    case False
    with Cons.prems obtain k where k: "find_sub pat xs = Some k" "i = Suc k" by auto
    then have "length pat \<le> length xs" using find_sub_Some by fastforce
    then have "starts_with (x # xs @ r) pat = starts_with (x # xs) pat"
      by (cases "length pat") (simp_all add: starts_with_def)
    then show ?thesis using False Cons.IH [OF k(1)] k(2) by simp
  qed
qed

lemma str_find_at: "str_find (pre @ s) pat (length pre) = map_option ((+) (length pre)) (find_sub pat s)"
  by (simp add: str_find_def)

section \<open>Cookies\<close>

lemma cookie_loop_split:
  "pos \<le> length s \<Longrightarrow> cookie_loop s pos cks = fold cookie_segment (split_on (CHR '';'') (drop pos s)) cks"
proof (induction s pos cks rule: cookie_loop.induct)
  case (1 s pos cks)
  have nil: "cookie_segment [] c = c" for c by (simp add: cookie_segment_def trim_ascii_ws_def trim_by_def)
  show ?case
  proof (cases "pos < length s")
    case False
    then have "drop pos s = []" by simp
    then show ?thesis using False by (subst cookie_loop.simps) (simp add: nil)
  next
    case True
    define semi where "semi = or_end (length s) (str_find_char s (CHR '';'') pos)"
    show ?thesis
    proof (cases "find_idx (\<lambda>c. c = CHR '';'') (drop pos s)")
      case None
      then have semi: "semi = length s" by (simp add: semi_def or_end_def str_find_char_def)
      have "cookie_loop s (semi + 1) c = c" for c by (subst cookie_loop.simps) (simp add: semi)
      then show ?thesis using True None
        by (subst cookie_loop.simps)
          (simp add: Let_def semi_def [symmetric] split_on_find [of _ "drop pos s"] substr_def semi)
    next
      case (Some k)
      then have semi: "semi = pos + k" by (simp add: semi_def or_end_def str_find_char_def)
      have "pos + k < length s" using Some by (auto simp: find_idx_Some)
      then have "cookie_loop s (semi + 1) (cookie_segment (substr s pos (semi - pos)) cks) =
          fold cookie_segment (split_on (CHR '';'') (drop (semi + 1) s)) (cookie_segment (substr s pos (semi - pos)) cks)"
        using 1(1) [OF True semi_def] by (simp add: semi)
      then show ?thesis using True Some
        by (subst cookie_loop.simps)
          (simp add: Let_def semi_def [symmetric] split_on_find [of _ "drop pos s"] substr_def semi add.commute)
    qed
  qed
qed

definition solid :: "string \<Rightarrow> bool" where
  "solid s \<longleftrightarrow> s = [] \<or> 32 < uchar (hd s) \<and> 32 < uchar (last s)"

text \<open>Names and values that a browser sends as they are.\<close>

definition cookie_ok :: "string \<times> string \<Rightarrow> bool" where
  "cookie_ok kv \<longleftrightarrow> fst kv \<noteq> [] \<and> solid (fst kv) \<and> solid (snd kv) \<and>
     CHR '';'' \<notin> set (fst kv) \<and> CHR ''='' \<notin> set (fst kv) \<and> CHR '';'' \<notin> set (snd kv) \<and>
     \<not> (2 \<le> length (snd kv) \<and> hd (snd kv) = quote_char \<and> last (snd kv) = quote_char)"

definition cookie_text :: "string \<times> string \<Rightarrow> string" where
  "cookie_text kv = fst kv @ CHR ''='' # snd kv"

fun cookie_header :: "(string \<times> string) list \<Rightarrow> string" where
  "cookie_header [] = []"
| "cookie_header [kv] = cookie_text kv"
| "cookie_header (kv # kvs) = cookie_text kv @ '';'' @ '' '' @ cookie_header kvs"

lemma trim_solid: "solid s \<Longrightarrow> trim_ascii_ws s = s"
  unfolding trim_ascii_ws_def by (rule trim_by_solid) (auto simp: solid_def)

lemma cookie_segment_text:
  assumes "cookie_ok kv" "lead = [] \<or> lead = '' ''"
  shows "cookie_segment (lead @ cookie_text kv) cks = dv_put (fst kv) (STRING (snd kv)) cks"
proof -
  obtain k v where kv: "kv = (k, v)" by force
  have k: "k \<noteq> []" "solid k" "CHR ''='' \<notin> set k" and v: "solid v"
    "\<not> (2 \<le> length v \<and> hd v = quote_char \<and> last v = quote_char)"
    using assms(1) by (simp_all add: kv cookie_ok_def)
  have "solid (k @ CHR ''='' # v)" using k v(1) by (auto simp: solid_def)
  then have t: "trim_ascii_ws (lead @ k @ CHR ''='' # v) = k @ CHR ''='' # v"
    using assms(2) trim_solid by (auto simp: trim_ascii_ws_def trim_by_blank)
  have f: "str_find_char (k @ CHR ''='' # v) (CHR ''='') 0 = Some (length k)"
  proof -
    have "find_idx (\<lambda>c. c = CHR ''='') (k @ CHR ''='' # v) = Some (length k)" using k(3) by (induction k) auto
    then show ?thesis by (simp add: str_find_char_def)
  qed
  show ?thesis
    using k v by (simp add: cookie_segment_def cookie_text_def kv t f substr_def substr_from_def trim_solid Let_def)
      (auto simp: trim_solid)
qed

lemma cookie_text_free: "cookie_ok kv \<Longrightarrow> CHR '';'' \<notin> set (cookie_text kv)"
  by (simp add: cookie_ok_def cookie_text_def)

lemma fold_cookies:
  "\<forall>kv\<in>set kvs. cookie_ok kv \<Longrightarrow> lead = [] \<or> lead = '' '' \<Longrightarrow> kvs \<noteq> [] \<Longrightarrow>
    fold cookie_segment (split_on (CHR '';'') (lead @ cookie_header kvs)) cks = put_strings kvs cks"
proof (induction kvs arbitrary: lead cks rule: cookie_header.induct)
  case 1
  then show ?case by simp
next
  case (2 kv)
  have "CHR '';'' \<notin> set (lead @ cookie_text kv)" using 2 cookie_text_free [of kv] by auto
  then show ?case using 2 cookie_segment_text [of kv lead cks]
    by (cases kv) (simp add: split_on_free put_strings_def del: split_on.simps)
next
  case (3 kv kv' kvs)
  have free: "CHR '';'' \<notin> set (lead @ cookie_text kv)" using 3 cookie_text_free [of kv] by auto
  have "lead @ cookie_header (kv # kv' # kvs) = (lead @ cookie_text kv) @ CHR '';'' # ('' '' @ cookie_header (kv' # kvs))"
    by simp
  then have "split_on (CHR '';'') (lead @ cookie_header (kv # kv' # kvs)) =
      (lead @ cookie_text kv) # split_on (CHR '';'') ('' '' @ cookie_header (kv' # kvs))"
    using split_on_append [OF free] by (simp del: cookie_header.simps)
  then show ?case
    using 3(1) [of "'' ''" "dv_put (fst kv) (STRING (snd kv)) cks"] 3(2,3) cookie_segment_text [of kv lead cks]
    by (cases kv) (simp add: put_strings_def del: cookie_header.simps)
qed

section \<open>Multipart bodies\<close>

definition disposition :: "string \<Rightarrow> string" where
  "disposition n = ''form-data; name='' @ [quote_char] @ n @ [quote_char]"

definition field_header :: "string \<Rightarrow> string" where
  "field_header n = ''Content-Disposition: '' @ disposition n"

text \<open>A form field as a browser sends it, behind its delimiter line.\<close>

definition field_part :: "string \<Rightarrow> string \<times> string \<Rightarrow> string" where
  "field_part delim nv = delim @ crlf @ field_header (fst nv) @ crlf @ crlf @ snd nv @ crlf"

definition form_body :: "string \<Rightarrow> (string \<times> string) list \<Rightarrow> string" where
  "form_body delim nvs = concat (map (field_part delim) nvs) @ delim @ ''--''"

definition name_ok :: "string \<Rightarrow> bool" where
  "name_ok n \<longleftrightarrow> CHR '';'' \<notin> set n \<and> CHR 0x0D \<notin> set n"

text \<open>The delimiter does not occur earlier than where the sender put it.\<close>

definition delim_free :: "string \<Rightarrow> string \<Rightarrow> bool" where
  "delim_free delim v \<longleftrightarrow> find_sub (crlf @ delim) (v @ crlf @ delim) = Some (length v)"

lemma disposition_name: "name_ok n \<Longrightarrow> disposition_loop (disposition n) 0 ([], g) = (n, g)"
proof -
  assume n: "name_ok n"
  let ?v = "disposition n"
  have len: "length ?v = 18 + length n" by (simp add: disposition_def)
  have sc1: "str_find_char ?v (CHR '';'') 0 = Some 9"
    by (simp add: disposition_def str_find_char_def)
  have eq1: "str_find_char ?v (CHR ''='') 0 = Some 15"
    by (simp add: disposition_def str_find_char_def)
  have 1: "disposition_loop ?v 0 ([], g) = disposition_loop ?v 10 ([], g)"
    by (subst disposition_loop.simps) (simp add: sc1 or_end_def len Let_def disposition_attr_def eq1)
  have "CHR '';'' \<notin> set (drop 10 ?v)" using n by (simp add: disposition_def name_ok_def)
  then have sc2: "str_find_char ?v (CHR '';'') 10 = None" by (simp add: str_find_char_None)
  have eq2: "str_find_char ?v (CHR ''='') 10 = Some 15"
    by (simp add: disposition_def str_find_char_def)
  have attr: "trim_spaces (substr ?v 10 5) = ''name''"
    by (simp add: disposition_def substr_def trim_spaces_def trim_by_def)
  have rest: "substr ?v 16 (Suc (Suc (length n))) = quote_char # n @ [quote_char]" "?v ! 16 = quote_char"
    "?v ! (17 + length n) = quote_char" "substr ?v 17 (length n) = n"
    by (simp_all add: disposition_def substr_def nth_append)
  have "disposition_attr ?v 10 (18 + length n) ([], g) = (n, g)"
    using rest by (simp add: disposition_attr_def eq2 attr Let_def)
  then have "disposition_loop ?v 10 ([], g) = (n, g)"
    by (subst disposition_loop.simps) (simp add: sc2 or_end_def len Let_def)
  then show ?thesis using 1 by simp
qed

lemma part_headers_field:
  assumes "name_ok n"
  shows "part_headers (field_header n) 0 ([], [], []) = (n, [], [])"
proof -
  let ?h = "field_header n"
  have "CHR 0x0D \<notin> set ?h" using assms by (simp add: field_header_def disposition_def name_ok_def)
  then have "str_find ?h crlf 0 = None" by (simp add: str_find_def find_sub_absent)
  then have le: "or_end (length ?h) (str_find ?h crlf 0) = length ?h" by (simp add: or_end_def)
  have ne: "0 < length ?h" by (simp add: field_header_def)
  have colon: "str_find_char ?h (CHR '':'') 0 = Some 19" by (simp add: field_header_def str_find_char_def)
  have nm: "lower (substr ?h 0 19) = ''content-disposition''"
    by (simp add: field_header_def substr_def lower_def tolower_def) (simp add: uchar_inj [symmetric])
  have "trim_spaces ('' '' @ disposition n) = disposition n"
    unfolding trim_spaces_def by (simp add: trim_by_blank) (rule trim_by_solid, simp add: disposition_def)
  then have tv: "trim_spaces (substr_from ?h 20) = disposition n"
    by (simp add: field_header_def substr_from_def)
  have "part_header ?h ([], [], []) = (n, [], [])"
    using disposition_name [OF assms, of "[]"] by (simp add: part_header_def colon nm tv Let_def)
  moreover have "part_headers ?h (length ?h + 2) x = x" for x by (subst part_headers.simps) simp
  moreover have "?h \<noteq> []" using ne by simp
  ultimately show ?thesis by (subst part_headers.simps) (simp add: le Let_def substr_def)
qed

definition drop_crlf :: "string \<Rightarrow> string" where
  "drop_crlf v = (if 2 \<le> length v \<and> drop (length v - 2) v = crlf then take (length v - 2) v else v)"

lemma last_two: "2 \<le> length v \<Longrightarrow> drop (length v - 2) v = [v ! (length v - 2), v ! (length v - 1)]"
  by (cases v rule: rev_cases; cases "butlast v" rule: rev_cases) (auto simp: nth_append)

lemma read_part_field:
  assumes "CHR 0x0D \<notin> set hdrs" "delim_free delim v" "length pre = start"
  shows "read_part (pre @ hdrs @ crlf @ crlf @ v @ crlf @ delim @ rest) delim start =
    Some (part_headers hdrs 0 ([], [], []), drop_crlf v, start + length hdrs + 4 + length v)"
proof -
  define tail where "tail = v @ crlf @ delim @ rest"
  define b where "b = pre @ hdrs @ crlf @ crlf @ tail"
  define cs where "cs = start + length hdrs + 4"
  have cs: "length (pre @ hdrs @ crlf @ crlf) = cs" using assms(3) by (simp add: cs_def)
  have b2: "b = (pre @ hdrs @ crlf @ crlf) @ tail" by (simp add: b_def)
  have 1: "str_find b (crlf @ crlf) start = Some (start + length hdrs)"
    using find_sub_skip [OF assms(1), of "[CHR 0x0A, CHR 0x0D, CHR 0x0A]" tail] assms(3)
      str_find_at [of pre "hdrs @ crlf @ crlf @ tail"] by (simp add: b_def)
  have "find_sub (crlf @ delim) ((v @ crlf @ delim) @ rest) = Some (length v)"
    using assms(2) unfolding delim_free_def by (rule find_sub_append)
  then have "find_sub (crlf @ delim) tail = Some (length v)" by (simp add: tail_def)
  then have 2: "str_find b (crlf @ delim) cs = Some (cs + length v)"
    using str_find_at [of "pre @ hdrs @ crlf @ crlf" tail "crlf @ delim"] unfolding b2 cs by simp
  have h: "substr b start (length hdrs) = hdrs" using assms(3) by (simp add: substr_def b_def)
  have nth: "b ! (cs + i) = v ! i" if "i < length v" for i
    using that nth_append_length_plus [of "pre @ hdrs @ crlf @ crlf" tail i] unfolding b2 cs
    by (simp add: tail_def nth_append)
  have sub: "substr b cs n = take n v" if "n \<le> length v" for n
    using that unfolding b2 substr_def by (simp add: tail_def cs [symmetric])
  have e: "cs + length v - 2 = cs + (length v - 2)" "cs + length v - 1 = cs + (length v - 1)" if "2 \<le> length v"
    using that by simp_all
  have "read_part b delim start = Some (part_headers hdrs 0 ([], [], []), drop_crlf v, cs + length v)"
  proof (cases "2 \<le> length v")
    case True
    then have n2: "b ! (cs + length v - 2) = v ! (length v - 2)" "b ! (cs + length v - 1) = v ! (length v - 1)"
      unfolding e [OF True] by (intro nth; simp)+
    show ?thesis
      unfolding read_part_def 1 option.case Let_def cs_def [symmetric] 2 drop_crlf_def last_two [OF True]
      using True by (simp add: n2 [simplified] h sub)
  next
    case False
    then show ?thesis
      unfolding read_part_def 1 option.case Let_def cs_def [symmetric] 2 drop_crlf_def by (simp add: h sub)
  qed
  then show ?thesis by (simp add: b_def tail_def cs_def)
qed

lemma str_find_absent_0: "CHR 0x2D \<notin> set s \<Longrightarrow> str_find s (CHR 0x2D # p) 0 = None"
  by (simp add: str_find_def find_sub_absent)

text \<open>The loop at a delimiter: one part is read and stored, and the next delimiter is where it ends.\<close>

lemma multipart_step:
  assumes "name_ok n" "delim_free delim v" "length pre = pos"
  shows "multipart_loop save dir (pre @ field_part delim (n, v) @ delim @ rest) delim pos st =
    multipart_loop save dir (pre @ field_part delim (n, v) @ delim @ rest) delim (pos + length (field_part delim (n, v)))
      (st\<lparr>form_fields := AList.update n (drop_crlf v) (form_fields st)\<rparr>)"
proof -
  let ?h = "field_header n"
  define b where "b = pre @ field_part delim (n, v) @ delim @ rest"
  have b1: "b = pre @ delim @ crlf @ ?h @ crlf @ crlf @ v @ crlf @ delim @ rest"
    by (simp add: b_def field_part_def)
  have "find_sub delim (delim @ crlf @ ?h @ crlf @ crlf @ v @ crlf @ delim @ rest) = Some 0"
    by (rule find_sub_here)
  then have f: "str_find b delim pos = Some pos" using str_find_at [of pre _ delim] assms(3) by (simp add: b1)
  have two: "substr b (pos + length delim) 2 = crlf"
    using assms(3) by (simp add: b1 substr_def)
  have nths: "b ! (pos + length delim) = CHR 0x0D" "b ! (pos + length delim + 1) = CHR 0x0A"
    "pos + length delim + 1 < length b"
    using assms(3) nth_append_length_plus [of "pre @ delim" "crlf @ ?h @ crlf @ crlf @ v @ crlf @ delim @ rest" 0]
      nth_append_length_plus [of "pre @ delim" "crlf @ ?h @ crlf @ crlf @ v @ crlf @ delim @ rest" 1]
    by (simp_all add: b1)
  have "CHR 0x0D \<notin> set ?h" using assms(1) by (simp add: field_header_def disposition_def name_ok_def)
  from read_part_field [OF this assms(2), of "pre @ delim @ crlf" "pos + length delim + 2" rest]
  have r: "read_part b delim (pos + length delim + 2) =
      Some ((n, [], []), drop_crlf v, pos + length delim + 2 + length ?h + 4 + length v)"
    using assms(3) part_headers_field [OF assms(1)] by (simp add: b1)
  have len: "pos + length delim + 2 + length ?h + 4 + length v + 2 = pos + length (field_part delim (n, v))"
    by (simp add: field_part_def)
  have "multipart_loop save dir b delim pos st =
      multipart_loop save dir b delim (pos + length delim + 2 + length ?h + 4 + length v + 2)
        (st\<lparr>form_fields := AList.update n (drop_crlf v) (form_fields st)\<rparr>)"
    using two nths by (subst multipart_loop.simps) (simp add: f r [simplified] Let_def store_part_def)
  then show ?thesis unfolding len by (simp add: b_def)
qed

lemma multipart_end:
  assumes "length pre = pos"
  shows "multipart_loop save dir (pre @ delim @ ''--'') delim pos st = (True, st)"
proof -
  have "find_sub delim (delim @ ''--'') = Some 0"
    by (rule find_sub_here)
  then have f: "str_find (pre @ delim @ ''--'') delim pos = Some pos" using str_find_at [of pre _ delim] assms by simp
  have "substr (pre @ delim @ ''--'') (pos + length delim) 2 = ''--''" using assms by (simp add: substr_def)
  then show ?thesis using assms by (subst multipart_loop.simps) (simp add: f)
qed

lemma multipart_fields:
  "\<forall>nv\<in>set nvs. name_ok (fst nv) \<and> delim_free delim (snd nv) \<Longrightarrow> length pre = pos \<Longrightarrow>
    multipart_loop save dir (pre @ form_body delim nvs) delim pos st =
      (True, st\<lparr>form_fields := fold (\<lambda>(n, v). AList.update n (drop_crlf v)) nvs (form_fields st)\<rparr>)"
proof (induction nvs arbitrary: pre pos st)
  case Nil
  then show ?case using multipart_end [of pre pos save dir delim st] by (simp add: form_body_def)
next
  case (Cons nv nvs)
  obtain n v where nv: "nv = (n, v)" by force
  have fb: "form_body delim ((n, v) # nvs) = field_part delim (n, v) @ form_body delim nvs" by (simp add: form_body_def)
  obtain rest where rest: "form_body delim nvs = delim @ rest"
    by (cases nvs) (auto simp: form_body_def field_part_def)
  let ?st = "st\<lparr>form_fields := AList.update n (drop_crlf v) (form_fields st)\<rparr>"
  have "multipart_loop save dir (pre @ form_body delim (nv # nvs)) delim pos st =
      multipart_loop save dir ((pre @ field_part delim (n, v)) @ form_body delim nvs) delim (pos + length (field_part delim (n, v))) ?st"
    using multipart_step [of n delim v pre pos save dir rest st] Cons.prems by (simp add: fb rest nv)
  also have "\<dots> = (True, ?st\<lparr>form_fields := fold (\<lambda>(n, v). AList.update n (drop_crlf v)) nvs (form_fields ?st)\<rparr>)"
    using Cons.prems by (intro Cons.IH) simp_all
  finally show ?case by (simp add: nv)
qed

section \<open>The checksum\<close>

text \<open>FNV-1a with the published 64-bit offset basis.\<close>

definition fnv1a64 :: "string \<Rightarrow> u64" where
  "fnv1a64 data = foldl (\<lambda>hv c. (hv XOR of_nat (uchar c)) * 1099511628211) 14695981039346656037 data"

lemma fnv_step_inj:
  fixes x y c :: u64
  assumes "(x XOR c) * 1099511628211 = (y XOR c) * 1099511628211"
  shows "x = y"
proof -
  have one: "1099511628211 * 14886173955864302971 = (1 :: u64)" by simp
  have "(z * 1099511628211) * 14886173955864302971 = z" for z :: u64
    unfolding mult.assoc one by simp
  then have "x XOR c = y XOR c" using assms by metis
  then have "(x XOR c) XOR c = (y XOR c) XOR c" by simp
  then show ?thesis by (simp add: xor.assoc)
qed

lemma fnv_fold_inj:
  "foldl (\<lambda>hv c. (hv XOR of_nat (uchar c)) * 1099511628211) x s = foldl (\<lambda>hv c. (hv XOR of_nat (uchar c)) * 1099511628211) y s
    \<Longrightarrow> x = (y :: u64)"
  by (induction s arbitrary: x y) (auto dest: fnv_step_inj)

section \<open>Properties\<close>

text \<open>C27: the cookies of a browser's header become string cookies of the request, one for each pair,
  a later pair replacing an earlier one of the same name, and nothing else is added.\<close>

theorem cookies_parsed:
  assumes "\<forall>kv\<in>set kvs. cookie_ok kv" "kvs \<noteq> []" "is_object (cookies r)"
  shows "parse_cookie_header (Some (STRING (cookie_header kvs))) r = r\<lparr>cookies := put_strings kvs (cookies r)\<rparr> \<and>
    dv_find k (put_strings kvs (cookies r)) =
      (case map_of (rev kvs) k of Some v \<Rightarrow> Some (STRING v) | None \<Rightarrow> dv_find k (cookies r))"
proof -
  obtain kv kvs' where c: "kvs = kv # kvs'" using assms(2) by (cases kvs) simp_all
  then have "cookie_header kvs \<noteq> []" by (cases kvs') (simp_all add: cookie_text_def)
  moreover have "cookie_loop (cookie_header kvs) 0 (cookies r) = put_strings kvs (cookies r)"
    using fold_cookies [OF assms(1) _ assms(2), of "[]" "cookies r"] by (simp add: cookie_loop_split)
  moreover have "put_strings kvs (cookies r) = fold (\<lambda>(k, v). dv_put k v) (map (\<lambda>(k, s). (k, STRING s)) kvs) (cookies r)"
    by (simp add: put_strings_def fold_map comp_def split_def)
  moreover have "map_of (rev (map (\<lambda>(k, s). (k, STRING s)) kvs)) k = map_option STRING (map_of (rev kvs) k)"
    by (simp add: rev_map map_of_map)
  ultimately show ?thesis
    using assms(3) obj.get_fold [OF assms(3), of k "map (\<lambda>(k, s). (k, STRING s)) kvs"]
    by (simp add: parse_cookie_header_def var_string_def dv_to_string_def ensure_object_def Let_def split: option.splits)
qed

theorem cookies_parsed_witness:
  "parse_cookie_header (Some (STRING (cookie_header [(''a'', ''1''), (''b'', ''x=y''), (''a'', [])]))) (request_new 0 0) =
      (request_new 0 0)\<lparr>cookies := put_strings [(''a'', ''1''), (''b'', ''x=y''), (''a'', [])] (cookies (request_new 0 0))\<rparr> \<and>
    dv_find ''a'' (put_strings [(''a'', ''1''), (''b'', ''x=y''), (''a'', [])] (cookies (request_new 0 0))) =
      (case map_of (rev [(''a'', ''1''), (''b'', ''x=y''), (''a'', [])]) ''a'' of Some v \<Rightarrow> Some (STRING v)
        | None \<Rightarrow> dv_find ''a'' (cookies (request_new 0 0)))"
  by (rule cookies_parsed) (simp_all add: cookie_ok_def solid_def request_new_def)

text \<open>C18: the fields of a multipart form come out with the names and contents they were sent with, for
  any number of fields with names that hold no semicolon and no carriage return, and any contents in
  which the delimiter does not occur, except that a content that ends in a line break loses it.
  A later field of the same name replaces the earlier one.\<close>

theorem multipart_fields_parsed:
  assumes "boundary \<noteq> []" "\<forall>nv\<in>set nvs. name_ok (fst nv) \<and> delim_free (''--'' @ boundary) (snd nv)"
  shows "extract_files_from_formdata save (form_body (''--'' @ boundary) nvs) boundary dir st =
    (True, st\<lparr>upload_files := make_array,
       form_fields := fold (\<lambda>(n, v). AList.update n (drop_crlf v)) nvs (form_fields st)\<rparr>)"
  using multipart_fields [OF assms(2), of "[]" 0 save dir "st\<lparr>upload_files := make_array\<rparr>"] assms(1)
  by (simp add: extract_files_from_formdata_def)

theorem multipart_fields_parsed_witness:
  "extract_files_from_formdata (\<lambda>p d w. (None, w)) (form_body (''--'' @ ''B'') [(''n'', ''-B''), (''m'', [])]) ''B'' ''/tmp''
      \<lparr>form_fields = [], upload_files = NIL, upload_world = ()\<rparr> =
    (True, \<lparr>form_fields = [], upload_files = NIL, upload_world = ()\<rparr>\<lparr>upload_files := make_array,
       form_fields := fold (\<lambda>(n, v). AList.update n (drop_crlf v)) [(''n'', ''-B''), (''m'', [])]
         (form_fields \<lparr>form_fields = [], upload_files = NIL, upload_world = ()\<rparr>)\<rparr>)"
  by (rule multipart_fields_parsed) (simp_all add: name_ok_def delim_free_def starts_with_def)

text \<open>The value stored as \<open>hash_fnv1a64\<close> is not the FNV-1a hash of the file, for any file: the
  offset basis in the code lacks the last digit of the published one.\<close>

theorem fnv_hash_wrong:
  "fnv_hash data \<noteq> fnv1a64 data"
proof
  assume "fnv_hash data = fnv1a64 data"
  then have "fnv_basis = 14695981039346656037" unfolding fnv_hash_def fnv1a64_def by (rule fnv_fold_inj)
  then show False by (simp add: fnv_basis_def)
qed

text \<open>A file whose name contains a semicolon is not recognised as a file: the attribute is cut at
  the semicolon, inside its quotes, and dropped, so its contents are stored as a form field.\<close>

theorem semicolon_file_name_lost:
  "disposition_loop (''form-data; name='' @ [quote_char] @ ''f'' @ [quote_char] @ ''; filename='' @ [quote_char] @ ''a;b'' @ [quote_char])
     0 ([], []) = (''f'', [])"
  by (simp add: disposition_loop.simps str_find_char_def or_end_def disposition_attr_def Let_def substr_def
      trim_spaces_def trim_by_def)

end
