(* ===== verification/Framing.thy ===== *)
theory Framing
  imports Prelude
begin

text \<open>
  The interface between a byte stream and the loops that consume it. The FastCGI record loop
  (\<open>process_buffer\<close> in fastcgi.cpp), the decoding of a FastCGI response inside \<open>schedule_http\<close> and
  the WebSocket frame loop (\<open>serve\<close> in websockets.cpp) have one shape: look at the front of the
  buffer, stop when the frame there is incomplete, give up when it cannot be accepted, otherwise
  act on it and continue behind it. \<open>byte_framer\<close> is what such a loop relies on from its frame
  reader, \<open>stream_loop\<close> the unfolding of the loop; its lemmas say that the loop does the same
  work however the bytes are split into reads.
\<close>

datatype ('b, 'f) framed = Need_more | Malformed | Frame 'f "'b list"

datatype loop_end = Starved | Broken | Stopped

locale byte_framer =
  fixes next_frame :: "'b list \<Rightarrow> ('b, 'f) framed"
  assumes frame_split: "next_frame bs = Frame f rest \<Longrightarrow> \<exists>used. used \<noteq> [] \<and> bs = used @ rest"
    and frame_append: "next_frame bs = Frame f rest \<Longrightarrow> next_frame (bs @ more) = Frame f (rest @ more)"
    and malformed_append: "next_frame bs = Malformed \<Longrightarrow> next_frame (bs @ more) = Malformed"
    and empty_needs_more: "next_frame [] = Need_more"
begin

lemma frame_shrinks: "next_frame bs = Frame f rest \<Longrightarrow> length rest < length bs"
  using frame_split by fastforce

lemma need_more_prefix: "next_frame (bs @ more) = Need_more \<Longrightarrow> next_frame bs = Need_more"
  by (cases "next_frame bs") (auto simp: frame_append malformed_append)

end

locale stream_loop = byte_framer next_frame
  for next_frame :: "'b list \<Rightarrow> ('b, 'f) framed" +
  fixes step :: "'f \<Rightarrow> 's \<Rightarrow> 's + 's"
    and run :: "'b list \<Rightarrow> 's \<Rightarrow> loop_end \<times> 'b list \<times> 's"
  assumes run_need: "next_frame bs = Need_more \<Longrightarrow> run bs s = (Starved, bs, s)"
    and run_bad: "next_frame bs = Malformed \<Longrightarrow> run bs s = (Broken, bs, s)"
    and run_stop: "next_frame bs = Frame f rest \<Longrightarrow> step f s = Inl s' \<Longrightarrow> run bs s = (Stopped, bs, s')"
    and run_step: "next_frame bs = Frame f rest \<Longrightarrow> step f s = Inr s' \<Longrightarrow> run bs s = run rest s'"
begin

lemma run_cases [consumes 1, case_names need bad stop step]:
  assumes "run bs s = (e, rest, s')"
  obtains "next_frame bs = Need_more" "e = Starved" "rest = bs" "s' = s"
  | "next_frame bs = Malformed" "e = Broken" "rest = bs" "s' = s"
  | f r where "next_frame bs = Frame f r" "step f s = Inl s'" "e = Stopped" "rest = bs"
  | f r t where "next_frame bs = Frame f r" "step f s = Inr t" "run r t = (e, rest, s')"
proof (cases "next_frame bs")
  case Need_more
  with assms have "e = Starved \<and> rest = bs \<and> s' = s" by (simp add: run_need)
  with Need_more show ?thesis by (intro that(1)) simp_all
next
  case Malformed
  with assms have "e = Broken \<and> rest = bs \<and> s' = s" by (simp add: run_bad)
  with Malformed show ?thesis by (intro that(2)) simp_all
next
  case (Frame f r)
  show ?thesis
  proof (cases "step f s")
    case (Inl t)
    with Frame assms have "e = Stopped \<and> rest = bs \<and> s' = t" by (simp add: run_stop)
    with Frame Inl show ?thesis by (intro that(3)) simp_all
  next
    case (Inr t)
    with Frame assms have "run r t = (e, rest, s')" by (simp add: run_step)
    with Frame Inr show ?thesis by (rule that(4))
  qed
qed

text \<open>Induction along the frames of the buffer.\<close>

lemma run_induct [consumes 1, case_names need bad stop step]:
  assumes "run bs s = (e, rest, s')"
    and need: "\<And>bs s. next_frame bs = Need_more \<Longrightarrow> P bs s Starved bs s"
    and bad: "\<And>bs s. next_frame bs = Malformed \<Longrightarrow> P bs s Broken bs s"
    and stop: "\<And>bs s f r s'. next_frame bs = Frame f r \<Longrightarrow> step f s = Inl s' \<Longrightarrow> P bs s Stopped bs s'"
    and step: "\<And>bs s f r t e rest s'. next_frame bs = Frame f r \<Longrightarrow> step f s = Inr t \<Longrightarrow>
      run r t = (e, rest, s') \<Longrightarrow> P r t e rest s' \<Longrightarrow> P bs s e rest s'"
  shows "P bs s e rest s'"
  using assms(1)
proof (induction "length bs" arbitrary: bs s rule: less_induct)
  case less
  from less.prems show ?case
  proof (cases rule: run_cases)
    case (step f r t)
    moreover from step(1) have "length r < length bs" by (rule frame_shrinks)
    ultimately show ?thesis using less.hyps assms(5) by blast
  qed (use need bad stop in auto)
qed

lemma run_starved_append:
  "run a s = (Starved, rest, t) \<Longrightarrow> run (a @ b) s = run (rest @ b) t"
proof (induction a s "Starved" rest t rule: run_induct)
  case (step bs s f r t rest s')
  from step.hyps(1) have "next_frame (bs @ b) = Frame f (r @ b)" by (rule frame_append)
  with step show ?case by (simp add: run_step)
qed simp

lemma run_broken_append:
  "run a s = (Broken, rest, t) \<Longrightarrow> run (a @ b) s = (Broken, rest @ b, t)"
proof (induction a s "Broken" rest t rule: run_induct)
  case (bad bs s)
  then show ?case by (simp add: run_bad malformed_append)
next
  case (step bs s f r t rest s')
  from step.hyps(1) have "next_frame (bs @ b) = Frame f (r @ b)" by (rule frame_append)
  with step show ?case by (simp add: run_step)
qed

lemma run_stopped_append:
  "run a s = (Stopped, rest, t) \<Longrightarrow> run (a @ b) s = (Stopped, rest @ b, t)"
proof (induction a s "Stopped" rest t rule: run_induct)
  case (stop bs s f r s')
  from stop(1) have "next_frame (bs @ b) = Frame f (r @ b)" by (rule frame_append)
  with stop(2) show ?case by (simp add: run_stop)
next
  case (step bs s f r t rest s')
  from step.hyps(1) have "next_frame (bs @ b) = Frame f (r @ b)" by (rule frame_append)
  with step show ?case by (simp add: run_step)
qed

lemma run_rest_suffix: "run bs s = (e, rest, t) \<Longrightarrow> \<exists>used. bs = used @ rest"
proof (induction rule: run_induct)
  case (step bs s f r t e rest s')
  then show ?case using frame_split by (metis append.assoc)
qed auto

lemma run_starved_rest: "run bs s = (Starved, rest, t) \<Longrightarrow> next_frame rest = Need_more"
  by (induction bs s "Starved" rest t rule: run_induct) auto

lemma run_empty [simp]: "run [] s = (Starved, [], s)"
  by (simp add: run_need empty_needs_more)

lemma run_invariant:
  assumes "run bs s = (e, rest, t)" and "I s"
    and "\<And>f s s'. I s \<Longrightarrow> step f s = Inl s' \<Longrightarrow> I s'"
    and "\<And>f s s'. I s \<Longrightarrow> step f s = Inr s' \<Longrightarrow> I s'"
  shows "I t"
  using assms(1,2) by (induction rule: run_induct) (use assms(3,4) in blast)+

end

text \<open>A sequence of encoded frames, read back by the loop, is a fold of the step.\<close>

locale framed_codec = byte_framer next_frame
  for next_frame :: "'b list \<Rightarrow> ('b, 'f) framed" +
  fixes encode :: "'f \<Rightarrow> 'b list" and ok :: "'f \<Rightarrow> bool"
  assumes next_encode: "ok f \<Longrightarrow> next_frame (encode f @ rest) = Frame f rest"
begin

lemma encode_inj: "ok f \<Longrightarrow> ok g \<Longrightarrow> encode f @ r = encode g @ r' \<Longrightarrow> f = g \<and> r = r'"
  by (metis framed.inject next_encode)

lemma encode_nonempty: "ok f \<Longrightarrow> encode f \<noteq> []"
  by (metis append_self_conv2 framed.distinct(3) empty_needs_more next_encode)

end

end
