(* ===== verification/Fastcgi.thy ===== *)
theory Fastcgi
  imports Request Framing
begin

text \<open>
  fastcgi.h and fastcgi.cpp: the FastCGI records the server reads and writes. \<open>process_buffer\<close> is
  the loop over the records in a connection's input buffer. The two function pointers it takes,
  \<open>allocate_request\<close> and \<open>on_request_ready\<close>, act on the rest of the server, a world \<open>'w\<close> that is
  passed through; the request map is an unordered map from request ids to the requests themselves.
  The size limits of the configuration are arguments.
\<close>

section \<open>Records\<close>

definition FCGI_BEGIN_REQUEST :: u8 where "FCGI_BEGIN_REQUEST = 1"
definition FCGI_ABORT_REQUEST :: u8 where "FCGI_ABORT_REQUEST = 2"
definition FCGI_END_REQUEST :: u8 where "FCGI_END_REQUEST = 3"
definition FCGI_PARAMS :: u8 where "FCGI_PARAMS = 4"
definition FCGI_STDIN :: u8 where "FCGI_STDIN = 5"
definition FCGI_STDOUT :: u8 where "FCGI_STDOUT = 6"
definition KEEP_CONN :: u8 where "KEEP_CONN = 1"
definition REQUEST_COMPLETE :: u8 where "REQUEST_COMPLETE = 0"
definition OVERLOADED :: u8 where "OVERLOADED = 2"
definition VERSION_1 :: u8 where "VERSION_1 = 1"

lemmas fcgi_consts = FCGI_BEGIN_REQUEST_def FCGI_ABORT_REQUEST_def FCGI_END_REQUEST_def
  FCGI_PARAMS_def FCGI_STDIN_def FCGI_STDOUT_def KEEP_CONN_def REQUEST_COMPLETE_def
  OVERLOADED_def VERSION_1_def

record fcgi_header =
  h_version :: u8
  h_type :: u8
  h_request_id :: u16
  h_content_length :: u16
  h_padding_length :: u8
  h_reserved :: u8

text \<open>The packed struct in memory, its 16-bit fields in network byte order.\<close>

definition header_bytes :: "fcgi_header \<Rightarrow> bytes" where
  "header_bytes h =
     [h_version h, h_type h] @ be16 (h_request_id h) @ be16 (h_content_length h) @
     [h_padding_length h, h_reserved h]"

definition read_header :: "bytes \<Rightarrow> fcgi_header" where
  "read_header b =
     \<lparr>h_version = b ! 0, h_type = b ! 1, h_request_id = rd16 (b ! 2) (b ! 3),
      h_content_length = rd16 (b ! 4) (b ! 5), h_padding_length = b ! 6, h_reserved = b ! 7\<rparr>"

text \<open>The length of a name or value; the second component is the advanced pointer.\<close>

definition decode_length :: "bytes \<Rightarrow> nat \<times> bytes" where
  "decode_length p =
     (case p of
        [] \<Rightarrow> (0, [])
      | b # q \<Rightarrow>
          if b AND 0x80 = 0 then (unat b, q)
          else if length p < 4 then (0, [])
          else
            (let v = push_bit 24 (ucast (p ! 0 AND 0x7F)) OR push_bit 16 (ucast (p ! 1)) OR
                     push_bit 8 (ucast (p ! 2)) OR ucast (p ! 3) :: u64
             in (unat v, drop 4 p)))"

definition append_record :: "bytes \<Rightarrow> u8 \<Rightarrow> u16 \<Rightarrow> bytes \<Rightarrow> u16 \<Rightarrow> bytes" where
  "append_record out ty reqId data len =
     out @ header_bytes \<lparr>h_version = VERSION_1, h_type = ty, h_request_id = reqId, h_content_length = len,
       h_padding_length = 0, h_reserved = 0\<rparr> @ take (unat len) data"

function stdout_loop :: "bytes \<Rightarrow> u16 \<Rightarrow> bytes \<Rightarrow> bytes" where
  "stdout_loop out reqId rest =
     (if 0 < length rest then
        (let chunk = (if 0xFFFF < length rest then 0xFFFF else of_nat (length rest)) :: u16
         in stdout_loop (append_record out FCGI_STDOUT reqId rest chunk) reqId (drop (unat chunk) rest))
      else out)"
  by pat_completeness auto
termination
proof (relation "measure (\<lambda>(out, reqId, rest). length rest)", simp)
  fix out reqId and rest :: bytes and chunk :: u16
  assume "0 < length rest" "chunk = (if 0xFFFF < length rest then 0xFFFF else of_nat (length rest))"
  moreover from this have "0 < unat chunk" by (auto simp: unat_of_nat)
  ultimately show "((append_record out FCGI_STDOUT reqId rest chunk, reqId, drop (unat chunk) rest), out, reqId, rest)
      \<in> measure (\<lambda>(out, reqId, rest). length rest)" by simp
qed

declare stdout_loop.simps [simp del]

definition append_stdout_text :: "bytes \<Rightarrow> u16 \<Rightarrow> string \<Rightarrow> bytes" where
  "append_stdout_text out reqId text =
     append_record (stdout_loop out reqId (bytes_of text)) FCGI_STDOUT reqId [] 0"

definition append_end_request :: "bytes \<Rightarrow> u16 \<Rightarrow> u32 \<Rightarrow> u8 \<Rightarrow> bytes" where
  "append_end_request out reqId appStatus protoStatus =
     append_record out FCGI_END_REQUEST reqId (be32 appStatus @ [protoStatus, 0, 0, 0]) 8"

definition fail_request :: "u8 \<Rightarrow> request \<times> bytes \<Rightarrow> request \<times> bytes" where
  "fail_request status = (\<lambda>(r, out).
     if \<not> has RESPONDED r then
       (set_flag FAILED (set_flag RESPONDED r), append_end_request out (req_id r) 0 status)
     else (r, out))"

section \<open>One record\<close>

record limits =
  max_params_bytes :: nat
  max_stdin_bytes :: nat

record 'w callbacks =
  allocate_request :: "u16 \<Rightarrow> 'w \<Rightarrow> request option \<times> 'w"
  on_request_ready :: "request \<Rightarrow> 'w \<Rightarrow> request \<times> 'w"

record 'w fcgi_state =
  requests :: "(u16 \<times> request) list"
  out_buf :: bytes
  waiting_for_arena :: bool
  world :: 'w

datatype fcgi_record = Record (rec_type: u8) (rec_id: u16) (rec_content: bytes)

text \<open>The checks at the top of the loop.\<close>

definition next_record :: "bytes \<Rightarrow> (u8, fcgi_record) framed" where
  "next_record buf =
     (if length buf < 8 then Need_more
      else
        (let h = read_header buf;
             contentLength = unat (h_content_length h);
             totalLen = 8 + contentLength + unat (h_padding_length h)
         in if h_version h \<noteq> VERSION_1 then Malformed
            else if length buf < totalLen then Need_more
            else Frame (Record (h_type h) (h_request_id h) (take contentLength (drop 8 buf))) (drop totalLen buf)))"

text \<open>The lambda \<open>current_req\<close>.\<close>

definition current_req :: "'w callbacks \<Rightarrow> u16 \<Rightarrow> 'w fcgi_state \<Rightarrow> request option \<times> 'w fcgi_state" where
  "current_req cb i s =
     (case map_of (requests s) i of
        Some r \<Rightarrow> (Some r, s)
      | None \<Rightarrow>
          (case allocate_request cb i (world s) of
             (None, w) \<Rightarrow> (None, s\<lparr>world := w\<rparr>)
           | (Some r, w) \<Rightarrow> (Some r, s\<lparr>world := w, requests := AList.update i r (requests s)\<rparr>)))"

text \<open>Writing through the request pointer.\<close>

definition store_req :: "u16 \<Rightarrow> request \<Rightarrow> 'w fcgi_state \<Rightarrow> 'w fcgi_state" where
  "store_req i r s = s\<lparr>requests := AList.update i r (requests s)\<rparr>"

lemma decode_length_shrinks: "p \<noteq> [] \<Longrightarrow> length (snd (decode_length p)) < length p"
  by (cases p) (auto simp: decode_length_def Let_def)

lemma decode_length_le: "length (snd (decode_length p)) \<le> length p"
  using decode_length_shrinks [of p] by (cases "p = []") (auto simp: decode_length_def)

text \<open>The loop over the name/value pairs of a PARAMS record.\<close>

function params_loop :: "limits \<Rightarrow> bytes \<Rightarrow> request \<times> bytes \<Rightarrow> request \<times> bytes" where
  "params_loop lim p (r, out) =
     (if p = [] then (r, out)
      else
        (let (nameLen, p1) = decode_length p;
             (valueLen, p2) = decode_length p1
         in if length p2 < nameLen + valueLen then (r, out)
            else if max_params_bytes lim < params_bytes r + nameLen + valueLen then
              fail_request OVERLOADED (r, out)
            else
              (let name = string_of (take nameLen p2);
                   value = string_of (take valueLen (drop nameLen p2));
                   r' = r\<lparr>env := dv_put name (make_string value) (env r),
                          params_bytes := params_bytes r + (nameLen + valueLen)\<rparr>
               in params_loop lim (drop (nameLen + valueLen) p2) (r', out))))"
  by pat_completeness auto
termination
proof (relation "measure (\<lambda>(lim, p, r). length p)", goal_cases)
  case 1
  show ?case by simp
next
  case (2 lim p r out x nameLen p1 y valueLen p2 nm vl r1)
  then have "length p1 < length p" "length p2 \<le> length p1"
    using decode_length_shrinks [of p] decode_length_le [of p1] by (metis snd_conv)+
  then show ?case by simp
qed

declare params_loop.simps [simp del]

text \<open>What each record type does with its request; \<open>None\<close> when there is no request to act on.\<close>

definition begin_action :: "bytes \<Rightarrow> request \<Rightarrow> request" where
  "begin_action content r =
     (let r1 = set_flag INITIALIZED r
      in if content ! 2 AND KEEP_CONN \<noteq> 0 then set_flag KEEP_CONNECTION r1 else r1)"

definition params_action :: "limits \<Rightarrow> bytes \<Rightarrow> request \<times> bytes \<Rightarrow> request \<times> bytes" where
  "params_action lim content = (\<lambda>(r, out).
     if content = [] then (set_flag PARAMS_COMPLETE r, out)
     else if \<not> has FAILED r then params_loop lim content (r, out)
     else (r, out))"

definition stdin_action :: "limits \<Rightarrow> bytes \<Rightarrow> request \<times> bytes \<Rightarrow> request \<times> bytes" where
  "stdin_action lim content = (\<lambda>(r, out).
     if content = [] then (set_flag INPUT_COMPLETE r, out)
     else if \<not> has FAILED r then
       (if max_stdin_bytes lim < body_bytes r + length content then fail_request OVERLOADED (r, out)
        else (r\<lparr>body := body r @ string_of content, body_bytes := body_bytes r + length content\<rparr>, out))
     else (r, out))"

definition abort_action :: "request \<times> bytes \<Rightarrow> request \<times> bytes" where
  "abort_action = (\<lambda>(r, out). fail_request REQUEST_COMPLETE (set_flag ABORTED r, out))"

text \<open>The check behind the switch, for the request the record was about.\<close>

definition is_ready :: "request \<Rightarrow> bool" where
  "is_ready r \<longleftrightarrow> \<not> has FAILED r \<and> \<not> has RESPONDED r \<and> has PARAMS_COMPLETE r \<and> has INPUT_COMPLETE r"

definition finish_record :: "'w callbacks \<Rightarrow> u16 \<Rightarrow> request \<times> bytes \<Rightarrow> 'w fcgi_state \<Rightarrow> 'w fcgi_state" where
  "finish_record cb i = (\<lambda>(r, out) s.
     let s1 = store_req i r (s\<lparr>out_buf := out\<rparr>)
     in if is_ready r then
          (case on_request_ready cb r (world s1) of (r', w) \<Rightarrow> store_req i r' (s1\<lparr>world := w\<rparr>))
        else s1)"

definition with_request ::
  "'w callbacks \<Rightarrow> u16 \<Rightarrow> (request \<times> bytes \<Rightarrow> request \<times> bytes) \<Rightarrow> 'w fcgi_state \<Rightarrow> 'w fcgi_state" where
  "with_request cb i act s =
     (case current_req cb i s of
        (None, s') \<Rightarrow> s'
      | (Some r, s') \<Rightarrow> finish_record cb i (act (r, out_buf s')) s')"

text \<open>The switch. \<open>Inl\<close> is the early return of a BEGIN_REQUEST that found no arena.\<close>

definition handle_record ::
  "limits \<Rightarrow> 'w callbacks \<Rightarrow> fcgi_record \<Rightarrow> 'w fcgi_state \<Rightarrow> 'w fcgi_state + 'w fcgi_state" where
  "handle_record lim cb rc s =
     (case rc of Record ty i content \<Rightarrow>
        if ty = FCGI_BEGIN_REQUEST then
          (if 8 \<le> length content then
             (case current_req cb i s of
                (None, s') \<Rightarrow> Inl (s'\<lparr>waiting_for_arena := True\<rparr>)
              | (Some r, s') \<Rightarrow> Inr (finish_record cb i (begin_action content r, out_buf s') s'))
           else Inr s)
        else if ty = FCGI_PARAMS then Inr (with_request cb i (params_action lim content) s)
        else if ty = FCGI_STDIN then Inr (with_request cb i (stdin_action lim content) s)
        else if ty = FCGI_ABORT_REQUEST then Inr (with_request cb i abort_action s)
        else Inr s)"

section \<open>The loop\<close>

lemma next_record_shrinks: "next_record buf = Frame rc rest \<Longrightarrow> length rest < length buf"
  by (auto simp: next_record_def Let_def split: if_splits)

function record_loop ::
  "limits \<Rightarrow> 'w callbacks \<Rightarrow> bytes \<Rightarrow> 'w fcgi_state \<Rightarrow> loop_end \<times> bytes \<times> 'w fcgi_state" where
  "record_loop lim cb buf s =
     (case next_record buf of
        Need_more \<Rightarrow> (Starved, buf, s)
      | Malformed \<Rightarrow> (Broken, buf, s)
      | Frame rc rest \<Rightarrow>
          (case handle_record lim cb rc s of
             Inl s' \<Rightarrow> (Stopped, buf, s')
           | Inr s' \<Rightarrow> record_loop lim cb rest s'))"
  by pat_completeness auto
termination
  by (relation "measure (\<lambda>(lim, cb, buf, s). length buf)") (auto dest: next_record_shrinks)

declare record_loop.simps [simp del]

datatype process_status = OK | CLOSE

text \<open>
  The status, the input buffer that is left, and the new state. The early return leaves the whole
  buffer in place, the records that were handled included.
\<close>

definition process_buffer ::
  "limits \<Rightarrow> 'w callbacks \<Rightarrow> bytes \<Rightarrow> 'w fcgi_state \<Rightarrow> process_status \<times> bytes \<times> 'w fcgi_state" where
  "process_buffer lim cb in_buf s =
     (case record_loop lim cb in_buf s of
        (Starved, rest, s') \<Rightarrow> (OK, rest, s')
      | (Broken, rest, s') \<Rightarrow> (CLOSE, rest, s')
      | (Stopped, rest, s') \<Rightarrow> (OK, in_buf, s'))"

section \<open>The record reader is a framer, the loop a stream loop\<close>

lemma length_header [simp]: "length (header_bytes h) = 8"
  by (simp add: header_bytes_def)

lemma read_header_bytes: "read_header (header_bytes h @ rest) = h"
  by (simp add: read_header_def header_bytes_def be16_def)

lemma read_header_append: "8 \<le> length buf \<Longrightarrow> read_header (buf @ u) = read_header buf"
  by (auto simp: read_header_def nth_append)

lemma next_record_frame:
  assumes "next_record buf = Frame rc rest"
  shows "\<exists>n. 8 \<le> n \<and> n \<le> length buf \<and> rest = drop n buf" "next_record (buf @ u) = Frame rc (rest @ u)"
proof -
  define h where "h = read_header buf"
  have l: "8 \<le> length buf" and v: "h_version h = VERSION_1"
    and t: "8 + unat (h_content_length h) + unat (h_padding_length h) \<le> length buf"
    and rc: "rc = Record (h_type h) (h_request_id h) (take (unat (h_content_length h)) (drop 8 buf))"
    and rest: "rest = drop (8 + unat (h_content_length h) + unat (h_padding_length h)) buf"
    using assms by (auto simp: next_record_def Let_def h_def split: if_splits)
  show "\<exists>n. 8 \<le> n \<and> n \<le> length buf \<and> rest = drop n buf" using t rest
    by (intro exI [of _ "8 + unat (h_content_length h) + unat (h_padding_length h)"]) simp
  show "next_record (buf @ u) = Frame rc (rest @ u)"
    using l t read_header_append [OF l, of u]
    by (simp add: next_record_def Let_def h_def [symmetric] v rc rest)
qed

lemma next_record_bad: "next_record buf = Malformed \<Longrightarrow> next_record (buf @ u) = Malformed"
  by (auto simp: next_record_def Let_def read_header_append split: if_splits)

interpretation fcgi: byte_framer next_record
proof
  fix buf rest :: bytes and rc assume f: "next_record buf = Frame rc rest"
  obtain n where n: "8 \<le> n" "n \<le> length buf" "rest = drop n buf" using next_record_frame(1) [OF f] by blast
  then have "take n buf \<noteq> []" "buf = take n buf @ rest" by auto
  then show "\<exists>used. used \<noteq> [] \<and> buf = used @ rest" by blast
next
  fix buf rest u :: bytes and rc assume "next_record buf = Frame rc rest"
  then show "next_record (buf @ u) = Frame rc (rest @ u)" by (rule next_record_frame(2))
next
  fix buf u :: bytes assume "next_record buf = Malformed"
  then show "next_record (buf @ u) = Malformed" by (rule next_record_bad)
next
  show "next_record [] = Need_more" by (simp add: next_record_def)
qed

interpretation fcgi_loop: stream_loop next_record "handle_record lim cb" "record_loop lim cb" for lim cb
  by unfold_locales (simp_all add: record_loop.simps)

text \<open>A record as \<open>append_record\<close> writes it.\<close>

definition encode_record :: "fcgi_record \<Rightarrow> bytes" where
  "encode_record rc = append_record [] (rec_type rc) (rec_id rc) (rec_content rc) (of_nat (length (rec_content rc)))"

definition record_fits :: "fcgi_record \<Rightarrow> bool" where
  "record_fits rc \<longleftrightarrow> length (rec_content rc) < 65536"

lemma append_record_encode:
  "length data < 65536 \<Longrightarrow> append_record out ty i data (of_nat (length data)) = out @ encode_record (Record ty i data)"
  by (simp add: append_record_def encode_record_def)

interpretation fcgi_codec: framed_codec next_record encode_record record_fits
proof
  fix rc and rest :: bytes assume "record_fits rc"
  then have n: "unat (of_nat (length (rec_content rc)) :: u16) = length (rec_content rc)"
    by (simp add: record_fits_def unat_of_nat)
  define h where "h = \<lparr>h_version = VERSION_1, h_type = rec_type rc, h_request_id = rec_id rc,
    h_content_length = of_nat (length (rec_content rc)), h_padding_length = 0, h_reserved = 0\<rparr>"
  have e: "encode_record rc @ rest = header_bytes h @ rec_content rc @ rest"
    using n by (simp add: encode_record_def append_record_def h_def)
  have "read_header (header_bytes h @ rec_content rc @ rest) = h" by (rule read_header_bytes)
  then show "next_record (encode_record rc @ rest) = Frame rc rest"
    unfolding e using n by (simp add: next_record_def Let_def) (simp add: h_def)
qed

lemma record_loop_encode:
  "record_fits rc \<Longrightarrow> handle_record lim cb rc s = Inr s' \<Longrightarrow>
    record_loop lim cb (encode_record rc @ rest) s = record_loop lim cb rest s'"
  by (rule fcgi_loop.run_step [OF fcgi_codec.next_encode])

lemma record_loop_encode_stop:
  "record_fits rc \<Longrightarrow> handle_record lim cb rc s = Inl s' \<Longrightarrow>
    record_loop lim cb (encode_record rc @ rest) s = (Stopped, encode_record rc @ rest, s')"
  by (rule fcgi_loop.run_stop [OF fcgi_codec.next_encode])

section \<open>Lengths of names and values\<close>

text \<open>The encoding a web server uses: one byte below 128, otherwise four with the top bit set.\<close>

definition encode_length :: "nat \<Rightarrow> bytes" where
  "encode_length n = (if n < 128 then [of_nat n] else be32 (0x80000000 OR of_nat n))"

lemma mask_7f: "(0x7F :: u8) = mask 7" by (simp add: mask_eq_exp_minus_1)
lemma byte_low: "n < 128 \<Longrightarrow> (of_nat n :: u8) AND 0x80 = 0"
proof -
  assume "n < 128"
  have e: "(0x80 :: u8) = 2 ^ 7" by simp
  have "\<not> bit n 7" using \<open>n < 128\<close> by (simp add: bit_iff_odd)
  then show ?thesis unfolding e and_exp_eq_0_iff_not_bit by (simp add: bit_of_nat_iff)
qed
lemma be32_value:
  fixes w :: u32
  shows "push_bit 24 (ucast (ucast (drop_bit 24 w) AND 0x7F :: u8)) OR push_bit 16 (ucast (ucast (drop_bit 16 w) :: u8)) OR
     push_bit 8 (ucast (ucast (drop_bit 8 w) :: u8)) OR ucast (ucast w :: u8) = (ucast (take_bit 31 w) :: u64)"
proof (rule bit_word_eqI)
  fix k assume k: "k < LENGTH(64)"
  consider "k < 8" | "8 \<le> k" "k < 16" | "16 \<le> k" "k < 24" | "24 \<le> k" "k < 31" | "31 \<le> k" by linarith
  then show "bit (push_bit 24 (ucast (ucast (drop_bit 24 w) AND 0x7F :: u8)) OR push_bit 16 (ucast (ucast (drop_bit 16 w) :: u8)) OR
     push_bit 8 (ucast (ucast (drop_bit 8 w) :: u8)) OR ucast (ucast w :: u8) :: u64) k = bit (ucast (take_bit 31 w) :: u64) k"
    using k by cases (auto simp: mask_7f bit_simps)
qed

lemma top_byte: "(ucast (drop_bit 24 (0x80000000 OR w :: u32)) :: u8) AND 0x80 \<noteq> 0"
proof -
  have e: "(0x80 :: u8) = 2 ^ 7" "(0x80000000 :: u32) = 2 ^ 31" by simp_all
  show ?thesis unfolding e and_exp_eq_0_iff_not_bit by (simp add: bit_simps)
qed
lemma low31: "n < 2 ^ 31 \<Longrightarrow> unat (ucast (take_bit 31 (0x80000000 OR of_nat n :: u32)) :: u64) = n"
proof -
  assume n: "n < 2 ^ 31"
  have "take_bit 31 (0x80000000 OR of_nat n :: u32) = of_nat n"
  proof (rule bit_word_eqI)
    fix k assume "k < LENGTH(32)"
    have e: "(0x80000000 :: u32) = 2 ^ 31" by simp
    have "\<not> bit n 31" using n by (simp add: bit_iff_odd)
    then show "bit (take_bit 31 (0x80000000 OR of_nat n :: u32)) k = bit (of_nat n :: u32) k"
      using \<open>k < LENGTH(32)\<close> unfolding e by (cases "k = 31") (auto simp: bit_simps bit_of_nat_iff)
  qed
  moreover have "unat (of_nat n :: u32) = n" using n by (simp add: unat_of_nat)
  ultimately show ?thesis using n by (simp add: unsigned_ucast_eq take_bit_nat_eq_self)
qed
lemma length_encode_length: "0 < length (encode_length n)"
  by (simp add: encode_length_def be32_def)

lemma decode_encode_length:
  assumes "n < 2 ^ 31"
  shows "decode_length (encode_length n @ rest) = (n, rest)"
proof (cases "n < 128")
  case True
  then show ?thesis by (simp add: encode_length_def decode_length_def byte_low unat_of_nat)
next
  case False
  define w :: u32 where "w = 0x80000000 OR of_nat n"
  have "ucast (drop_bit 24 w) AND (0x80 :: u8) \<noteq> 0" unfolding w_def by (rule top_byte)
  moreover have "unat (ucast (take_bit 31 w) :: u64) = n" unfolding w_def using assms by (rule low31)
  moreover have "encode_length n = be32 w" using False by (simp add: encode_length_def w_def)
  ultimately show ?thesis
    by (simp add: decode_length_def be32_def be32_value Let_def)
qed

section \<open>Splitting the stream into reads\<close>

lemma finish_record_waiting [simp]: "waiting_for_arena (finish_record cb i ro s) = waiting_for_arena s"
  by (cases ro) (simp add: finish_record_def store_req_def Let_def split: prod.splits)

lemma current_req_waiting: "current_req cb i s = (q, s') \<Longrightarrow> waiting_for_arena s' = waiting_for_arena s"
  by (auto simp: current_req_def split: option.splits prod.splits)

lemma with_request_waiting [simp]: "waiting_for_arena (with_request cb i act s) = waiting_for_arena s"
  by (auto simp: with_request_def dest: current_req_waiting split: option.splits prod.splits)

lemma handle_record_Inl: "handle_record lim cb rc s = Inl s' \<Longrightarrow> waiting_for_arena s'"
  by (auto simp: handle_record_def split: fcgi_record.splits if_splits prod.splits option.splits)

lemma handle_record_Inr: "handle_record lim cb rc s = Inr s' \<Longrightarrow> waiting_for_arena s' = waiting_for_arena s"
  by (auto simp: handle_record_def split: fcgi_record.splits if_splits prod.splits option.splits
      dest: current_req_waiting)

lemma record_loop_Stopped: "record_loop lim cb buf s = (Stopped, rest, s') \<Longrightarrow> waiting_for_arena s'"
  by (induction buf s "Stopped" rest s' rule: fcgi_loop.run_induct) (auto dest: handle_record_Inl)

lemma process_buffer_waiting:
  "process_buffer lim cb buf s = (st, rest, s') \<Longrightarrow> \<not> waiting_for_arena s' \<Longrightarrow>
    \<exists>e. e \<noteq> Stopped \<and> record_loop lim cb buf s = (e, rest, s') \<and> st = (if e = Starved then OK else CLOSE)"
  by (auto simp: process_buffer_def dest: record_loop_Stopped split: prod.splits loop_end.splits)

text \<open>Reads arriving one by one at a connection, which is left alone once it is closed.\<close>

fun feed :: "limits \<Rightarrow> 'w callbacks \<Rightarrow> bytes list \<Rightarrow> bytes \<Rightarrow> 'w fcgi_state \<Rightarrow> process_status \<times> bytes \<times> 'w fcgi_state" where
  "feed lim cb [] buf s = (OK, buf, s)"
| "feed lim cb (c # cs) buf s =
     (case process_buffer lim cb (buf @ c) s of
        (CLOSE, rest, s') \<Rightarrow> (CLOSE, rest @ concat cs, s')
      | (OK, rest, s') \<Rightarrow> feed lim cb cs rest s')"

lemma feed_concat:
  assumes "process_buffer lim cb (buf @ concat (c # cs)) s = (st, rest, s')" "\<not> waiting_for_arena s'"
  shows "feed lim cb (c # cs) buf s = (st, rest, s')"
  using assms
proof (induction cs arbitrary: c buf s)
  case Nil
  then show ?case by (cases st) simp_all
next
  case (Cons d cs)
  obtain e where e: "e \<noteq> Stopped" "record_loop lim cb ((buf @ c) @ concat (d # cs)) s = (e, rest, s')"
    "st = (if e = Starved then OK else CLOSE)"
    using process_buffer_waiting [OF Cons.prems] by auto
  obtain e1 r t where l: "record_loop lim cb (buf @ c) s = (e1, r, t)" by (metis prod_cases3)
  show ?case
  proof (cases e1)
    case Starved
    then have "record_loop lim cb (r @ concat (d # cs)) t = (e, rest, s')"
      using e(2) fcgi_loop.run_starved_append [OF l [unfolded Starved]] by simp
    then have "process_buffer lim cb (r @ concat (d # cs)) t = (st, rest, s')"
      using e(1,3) by (cases e) (simp_all add: process_buffer_def)
    then have "feed lim cb (d # cs) r t = (st, rest, s')" using Cons.prems(2) by (rule Cons.IH)
    then show ?thesis using l Starved by (simp add: process_buffer_def)
  next
    case Broken
    then have "(e, rest, s') = (Broken, r @ concat (d # cs), t)"
      using e(2) fcgi_loop.run_broken_append [OF l [unfolded Broken]] by simp
    then show ?thesis using l Broken e(3) by (simp add: process_buffer_def)
  next
    case Stopped
    then show ?thesis using e(1,2) fcgi_loop.run_stopped_append [OF l [unfolded Stopped]] by simp
  qed
qed

section \<open>Invariants of one record, for any callbacks that keep them\<close>

text \<open>
  A predicate of requests that allocation establishes and the record actions and the ready callback
  keep holds of every request in the map: \<open>all_requests P\<close> is such an invariant of the loop.
\<close>

definition all_requests :: "(u16 \<Rightarrow> request \<Rightarrow> bool) \<Rightarrow> 'w fcgi_state \<Rightarrow> bool" where
  "all_requests P s \<longleftrightarrow> (\<forall>i r. map_of (requests s) i = Some r \<longrightarrow> P i r)"

definition callbacks_keep :: "(u16 \<Rightarrow> request \<Rightarrow> bool) \<Rightarrow> 'w callbacks \<Rightarrow> bool" where
  "callbacks_keep P cb \<longleftrightarrow>
     (\<forall>i w r w'. allocate_request cb i w = (Some r, w') \<longrightarrow> P i r) \<and>
     (\<forall>i r w. P i r \<longrightarrow> P i (fst (on_request_ready cb r w)))"

lemma callbacks_keep_alloc: "callbacks_keep P cb \<Longrightarrow> allocate_request cb i w = (Some r, w') \<Longrightarrow> P i r"
  by (auto simp: callbacks_keep_def)

lemma callbacks_keep_ready: "callbacks_keep P cb \<Longrightarrow> P i r \<Longrightarrow> on_request_ready cb r w = (r', w') \<Longrightarrow> P i r'"
  by (auto simp: callbacks_keep_def) (metis fst_conv)

lemma all_requests_store: "all_requests P s \<Longrightarrow> P i r \<Longrightarrow> all_requests P (store_req i r s)"
  by (auto simp: all_requests_def store_req_def)

lemma all_requests_cong [simp]:
  "all_requests P (s\<lparr>world := w\<rparr>) = all_requests P s" "all_requests P (s\<lparr>out_buf := b\<rparr>) = all_requests P s"
  "all_requests P (s\<lparr>waiting_for_arena := v\<rparr>) = all_requests P s"
  by (simp_all add: all_requests_def)

lemma all_requests_current:
  assumes "all_requests P s" "callbacks_keep P cb" "current_req cb i s = (q, s')"
  shows "all_requests P s' \<and> (case q of None \<Rightarrow> True | Some r \<Rightarrow> P i r)"
  using assms
  by (auto simp: current_req_def all_requests_def split: option.splits prod.splits if_splits dest: callbacks_keep_alloc)

lemma all_requests_finish:
  "all_requests P s \<Longrightarrow> callbacks_keep P cb \<Longrightarrow> P i r \<Longrightarrow> all_requests P (finish_record cb i (r, out) s)"
  by (auto simp: finish_record_def Let_def intro!: all_requests_store split: prod.splits
      dest: callbacks_keep_ready)

lemma all_requests_with:
  assumes "all_requests P s" "callbacks_keep P cb" "\<And>r out. P i r \<Longrightarrow> P i (fst (act (r, out)))"
  shows "all_requests P (with_request cb i act s)"
proof -
  obtain q s' where c: "current_req cb i s = (q, s')" by force
  note p = all_requests_current [OF assms(1,2) c]
  show ?thesis
  proof (cases q)
    case None
    with p c show ?thesis by (simp add: with_request_def)
  next
    case (Some r)
    obtain r' out' where a: "act (r, out_buf s') = (r', out')" by force
    have "P i r'" using assms(3) [of r "out_buf s'"] p Some a by simp
    with p c Some a assms(2) show ?thesis by (simp add: with_request_def all_requests_finish)
  qed
qed

definition actions_keep :: "limits \<Rightarrow> (u16 \<Rightarrow> request \<Rightarrow> bool) \<Rightarrow> bool" where
  "actions_keep lim P \<longleftrightarrow>
     (\<forall>i r out content. P i r \<longrightarrow> P i (begin_action content r) \<and> P i (fst (params_action lim content (r, out))) \<and>
        P i (fst (stdin_action lim content (r, out))) \<and> P i (fst (abort_action (r, out))))"

lemma all_requests_handle:
  assumes "all_requests P s" "callbacks_keep P cb" "actions_keep lim P"
  shows "case handle_record lim cb rc s of Inl s' \<Rightarrow> all_requests P s' | Inr s' \<Rightarrow> all_requests P s'"
proof -
  obtain ty i content where rc: "rc = Record ty i content" by (cases rc)
  obtain q s' where c: "current_req cb i s = (q, s')" by force
  note p = all_requests_current [OF assms(1,2) c]
  have a: "P i r \<Longrightarrow> P i (begin_action content r)" "P i r \<Longrightarrow> P i (fst (params_action lim content (r, out)))"
    "P i r \<Longrightarrow> P i (fst (stdin_action lim content (r, out)))" "P i r \<Longrightarrow> P i (fst (abort_action (r, out)))" for r out
    using assms(3) by (simp_all add: actions_keep_def)
  show ?thesis
    using p assms(1,2) c
    by (cases q) (auto simp: handle_record_def rc all_requests_with a all_requests_finish)
qed

lemma all_requests_loop:
  assumes "record_loop lim cb buf s = (e, rest, s')" "all_requests P s" "callbacks_keep P cb" "actions_keep lim P"
  shows "all_requests P s'"
proof (rule fcgi_loop.run_invariant [where I = "all_requests P", OF assms(1,2)])
  fix rc and s s' :: "'a fcgi_state"
  assume "all_requests P s"
  from all_requests_handle [OF this assms(3,4), of rc]
  show "handle_record lim cb rc s = Inl s' \<Longrightarrow> all_requests P s'"
    "handle_record lim cb rc s = Inr s' \<Longrightarrow> all_requests P s'" by auto
qed

lemma process_buffer_loop:
  "process_buffer lim cb buf s = (st, rest, s') \<Longrightarrow> \<exists>e r. record_loop lim cb buf s = (e, r, s')"
  by (auto simp: process_buffer_def split: prod.splits loop_end.splits)

section \<open>Size limits\<close>

text \<open>The bytes of names and string values an environment holds.\<close>

definition env_bytes :: "dv \<Rightarrow> nat" where
  "env_bytes e = (\<Sum>kv\<leftarrow>dv_members e. case snd kv of STRING s \<Rightarrow> length (fst kv) + length s | _ \<Rightarrow> 0)"

definition request_bounded :: "limits \<Rightarrow> u16 \<Rightarrow> request \<Rightarrow> bool" where
  "request_bounded lim i r \<longleftrightarrow>
     params_bytes r \<le> max_params_bytes lim \<and> env_bytes (env r) \<le> params_bytes r \<and>
     body_bytes r = length (body r) \<and> body_bytes r \<le> max_stdin_bytes lim"

lemma env_bytes_update:
  "(\<Sum>kv\<leftarrow>AList.update k (STRING v) m. case snd kv of STRING s \<Rightarrow> length (fst kv) + length s | _ \<Rightarrow> 0)
   \<le> (\<Sum>kv\<leftarrow>m. case snd kv of STRING s \<Rightarrow> length (fst kv) + length s | _ \<Rightarrow> 0) + (length k + length v)"
  by (induction m) auto

lemma env_bytes_put: "env_bytes (dv_put k (STRING v) e) \<le> env_bytes e + (length k + length v)"
proof (cases "is_object e")
  case True
  then show ?thesis using env_bytes_update by (auto simp: is_object_iff env_bytes_def dv_members_def)
next
  case False
  then show ?thesis by (simp add: dv_put_other env_bytes_def dv_members_def)
qed

lemma bounded_set_flag [simp]: "request_bounded lim i (set_flag f r) = request_bounded lim i r"
  by (simp add: request_bounded_def)

lemma bounded_fail [simp]: "request_bounded lim i (fst (fail_request st (r, out))) = request_bounded lim i r"
  by (simp add: fail_request_def)

lemma bounded_params_loop: "request_bounded lim i r \<Longrightarrow> request_bounded lim i (fst (params_loop lim p (r, out)))"
proof (induction lim p "(r, out)" arbitrary: r out rule: params_loop.induct)
  case (1 lim p r out)
  obtain nl p1 where d1: "decode_length p = (nl, p1)" by force
  obtain vl p2 where d2: "decode_length p1 = (vl, p2)" by force
  let ?r = "r\<lparr>env := dv_put (string_of (take nl p2)) (STRING (string_of (take vl (drop nl p2)))) (env r),
      params_bytes := params_bytes r + (nl + vl)\<rparr>"
  show ?case
  proof (cases "p = [] \<or> length p2 < nl + vl \<or> max_params_bytes lim < params_bytes r + nl + vl")
    case True
    then show ?thesis using 1(2) d1 d2 by (subst params_loop.simps) auto
  next
    case False
    have "env_bytes (env ?r) \<le> env_bytes (env r) + (nl + vl)"
      using env_bytes_put [of "string_of (take nl p2)" "string_of (take vl (drop nl p2))" "env r"] False by simp
    then have "request_bounded lim i ?r" using 1(2) False by (simp add: request_bounded_def)
    then have "request_bounded lim i (fst (params_loop lim (drop (nl + vl) p2) (?r, out)))"
      using 1(1) [OF _ refl d1 [symmetric] refl d2 [symmetric]] False by simp
    then show ?thesis using d1 d2 False by (subst params_loop.simps) (simp add: Let_def)
  qed
qed

lemma bounded_actions: "actions_keep lim (request_bounded lim)"
proof -
  have "request_bounded lim i (fst (stdin_action lim content (r, out)))" if "request_bounded lim i r" for i r content out
    using that bounded_fail [of lim i OVERLOADED r out]
    by (auto simp: stdin_action_def) (auto simp: request_bounded_def)
  then show ?thesis
    by (auto simp: actions_keep_def begin_action_def params_action_def abort_action_def Let_def bounded_params_loop)
qed

section \<open>At most one END_REQUEST per request\<close>

definition responded :: "'w fcgi_state \<Rightarrow> u16 \<Rightarrow> bool" where
  "responded s i \<longleftrightarrow> (\<exists>r. map_of (requests s) i = Some r \<and> has RESPONDED r)"

definition own_id :: "u16 \<Rightarrow> request \<Rightarrow> bool" where
  "own_id i r \<longleftrightarrow> req_id r = i"

definition end_records :: "(u16 \<times> u8) list \<Rightarrow> bytes" where
  "end_records es = concat (map (\<lambda>(i, st). append_end_request [] i 0 st) es)"

text \<open>What one action may do to a request and the output buffer.\<close>

definition ends_once :: "(request \<times> bytes \<Rightarrow> request \<times> bytes) \<Rightarrow> bool" where
  "ends_once act \<longleftrightarrow> (\<forall>r out. case act (r, out) of (r', out') \<Rightarrow>
     req_id r' = req_id r \<and> (has RESPONDED r \<longrightarrow> has RESPONDED r') \<and>
     (out' = out \<or> \<not> has RESPONDED r \<and> has RESPONDED r' \<and> (\<exists>st. out' = append_end_request out (req_id r) 0 st)))"

lemma append_end_request_app: "append_end_request out i a st = out @ append_end_request [] i a st"
  by (simp add: append_end_request_def append_record_def)

lemma end_records_snoc: "end_records (es @ [(i, st)]) = end_records es @ append_end_request [] i 0 st"
  by (simp add: end_records_def)

lemma ends_once_fail: "ends_once (fail_request st)"
  by (auto simp: ends_once_def fail_request_def)

lemma ends_once_flag: "ends_once (\<lambda>(r, out). (set_flag f r, out))"
  by (simp add: ends_once_def)

lemma ends_once_params_loop: "ends_once (params_loop lim p)"
proof -
  have "case params_loop lim p (r, out) of (r', out') \<Rightarrow>
     req_id r' = req_id r \<and> (has RESPONDED r \<longrightarrow> has RESPONDED r') \<and>
     (out' = out \<or> \<not> has RESPONDED r \<and> has RESPONDED r' \<and> (\<exists>st. out' = append_end_request out (req_id r) 0 st))"
    for r out
  proof (induction lim p "(r, out)" arbitrary: r out rule: params_loop.induct)
    case (1 lim p r out)
    obtain nl p1 where d1: "decode_length p = (nl, p1)" by force
    obtain vl p2 where d2: "decode_length p1 = (vl, p2)" by force
    show ?case
    proof (cases "p = [] \<or> length p2 < nl + vl \<or> max_params_bytes lim < params_bytes r + nl + vl")
      case True
      then show ?thesis using ends_once_fail [of OVERLOADED] d1 d2
        by (subst params_loop.simps) (auto simp: ends_once_def split: prod.splits)
    next
      case False
      then show ?thesis using d1 d2 1 [OF _ refl d1 [symmetric] refl d2 [symmetric]]
        by (subst params_loop.simps) (auto simp: Let_def)
    qed
  qed
  then show ?thesis by (simp add: ends_once_def)
qed

lemma ends_once_actions:
  "ends_once (params_action lim content)" "ends_once (stdin_action lim content)" "ends_once abort_action"
  "ends_once (\<lambda>(r, out). (begin_action content r, out))"
proof -
  show "ends_once (params_action lim content)"
    using ends_once_params_loop [of lim content] by (simp add: ends_once_def params_action_def)
  show "ends_once (stdin_action lim content)"
    using ends_once_fail [of OVERLOADED] by (auto simp: ends_once_def stdin_action_def)
  show "ends_once abort_action"
    by (auto simp: ends_once_def abort_action_def fail_request_def)
  show "ends_once (\<lambda>(r, out). (begin_action content r, out))"
    by (auto simp: ends_once_def begin_action_def Let_def)
qed

definition end_inv :: "'w fcgi_state \<Rightarrow> 'w fcgi_state \<Rightarrow> bool" where
  "end_inv s0 s \<longleftrightarrow> all_requests own_id s \<and> (\<forall>i. responded s0 i \<longrightarrow> responded s i) \<and>
     (\<exists>es. distinct (map fst es) \<and> out_buf s = out_buf s0 @ end_records es \<and>
        (\<forall>i\<in>fst ` set es. responded s i \<and> \<not> responded s0 i))"

lemma responded_mono_inv:
  assumes "end_inv s0 s" "out_buf s' = out_buf s" "all_requests own_id s'" "\<And>i. responded s i \<Longrightarrow> responded s' i"
  shows "end_inv s0 s'"
  using assms unfolding end_inv_def by metis

lemma end_inv_current:
  assumes "end_inv s0 s" "callbacks_keep own_id cb" "current_req cb i s = (q, s')"
  shows "end_inv s0 s'"
proof (rule responded_mono_inv [OF assms(1)])
  show "all_requests own_id s'"
    using all_requests_current [OF _ assms(2,3)] assms(1) by (simp add: end_inv_def)
  show "out_buf s' = out_buf s" "\<And>j. responded s j \<Longrightarrow> responded s' j"
    using assms(3) by (auto simp: current_req_def responded_def split: option.splits prod.splits)
qed

lemma current_req_Some: "current_req cb i s = (Some r, s') \<Longrightarrow> map_of (requests s') i = Some r"
  by (auto simp: current_req_def split: option.splits prod.splits)

lemma finish_record_eq:
  "\<exists>r' w. finish_record cb i (r, out) s = store_req i r' (s\<lparr>out_buf := out, world := w\<rparr>) \<and>
     (r' = r \<or> \<not> has RESPONDED r \<and> (\<exists>w'. r' = fst (on_request_ready cb r w')))"
proof (cases "is_ready r")
  case True
  obtain r' w where rw: "on_request_ready cb r (world s) = (r', w)" by force
  have "finish_record cb i (r, out) s = store_req i r' (s\<lparr>out_buf := out, world := w\<rparr>)"
    using True rw by (simp add: finish_record_def store_req_def)
  moreover have "\<not> has RESPONDED r" using True by (simp add: is_ready_def)
  ultimately show ?thesis using rw by (metis fst_conv)
next
  case False
  then have "finish_record cb i (r, out) s = store_req i r (s\<lparr>out_buf := out, world := world s\<rparr>)"
    by (simp add: finish_record_def)
  then show ?thesis by blast
qed

lemma end_inv_finish:
  assumes inv: "end_inv s0 s" and cb: "callbacks_keep own_id cb" and r: "map_of (requests s) i = Some r"
    and act: "ends_once act"
  shows "end_inv s0 (finish_record cb i (act (r, out_buf s)) s)"
proof -
  obtain r1 out1 where a: "act (r, out_buf s) = (r1, out1)" by force
  obtain r2 w where f: "finish_record cb i (r1, out1) s = store_req i r2 (s\<lparr>out_buf := out1, world := w\<rparr>)"
    and r2: "r2 = r1 \<or> \<not> has RESPONDED r1 \<and> (\<exists>w'. r2 = fst (on_request_ready cb r1 w'))"
    using finish_record_eq [of cb i r1 out1 s] by auto
  have own: "all_requests own_id s" using inv by (simp add: end_inv_def)
  have ri: "req_id r = i" using own r by (auto simp: all_requests_def own_id_def)
  have c: "req_id r1 = req_id r" "has RESPONDED r \<longrightarrow> has RESPONDED r1"
    "out1 = out_buf s \<or> \<not> has RESPONDED r \<and> has RESPONDED r1 \<and> (\<exists>st. out1 = append_end_request (out_buf s) (req_id r) 0 st)"
    using act [unfolded ends_once_def, rule_format, of r "out_buf s"] unfolding a prod.case by simp_all
  have "own_id i r2" using r2 cb c(1) ri by (auto simp: callbacks_keep_def own_id_def)
  then have own': "all_requests own_id (finish_record cb i (r1, out1) s)"
    using own by (simp add: f all_requests_store)
  have resp: "responded (finish_record cb i (r1, out1) s) j" if "responded s j" for j
    using that r c(2) r2 by (auto simp: f responded_def store_req_def)
  show ?thesis
  proof (cases "out1 = out_buf s")
    case True
    then have "out_buf (finish_record cb i (r1, out1) s) = out_buf s"
      unfolding f by (simp add: store_req_def)
    with inv show ?thesis unfolding a using own' resp by (rule responded_mono_inv)
  next
    case False
    then obtain st where nr: "\<not> has RESPONDED r" "has RESPONDED r1" and o: "out1 = append_end_request (out_buf s) i 0 st"
      using c(3) ri by auto
    then have "r2 = r1" using r2 by simp
    then have new: "responded (finish_record cb i (r1, out1) s) i" using nr by (simp add: f responded_def store_req_def)
    have old: "\<not> responded s i" using r nr by (simp add: responded_def)
    obtain es where es: "distinct (map fst es)" "out_buf s = out_buf s0 @ end_records es"
      "\<forall>i\<in>fst ` set es. responded s i \<and> \<not> responded s0 i" using inv by (auto simp: end_inv_def)
    have mono: "\<forall>i. responded s0 i \<longrightarrow> responded s i" using inv by (simp add: end_inv_def)
    have "distinct (map fst (es @ [(i, st)]))" using es(1,3) old by auto
    moreover have "out_buf (finish_record cb i (r1, out1) s) = out_buf s0 @ end_records (es @ [(i, st)])"
    proof -
      have "out_buf (finish_record cb i (r1, out1) s) = out1" unfolding f by (simp add: store_req_def)
      also have "\<dots> = out_buf s @ append_end_request [] i 0 st" unfolding o by (rule append_end_request_app)
      finally show ?thesis by (simp add: es(2) end_records_snoc)
    qed
    moreover have "\<forall>j\<in>fst ` set (es @ [(i, st)]). responded (finish_record cb i (r1, out1) s) j \<and> \<not> responded s0 j"
      using es(3) resp new old mono by auto
    ultimately show ?thesis unfolding a end_inv_def using own' mono resp by blast
  qed
qed

lemma end_inv_with:
  assumes "end_inv s0 s" "callbacks_keep own_id cb" "ends_once act"
  shows "end_inv s0 (with_request cb i act s)"
proof -
  obtain q s' where c: "current_req cb i s = (q, s')" by force
  have "end_inv s0 s'" using assms(1,2) c by (rule end_inv_current)
  then show ?thesis
    using c assms(2,3) by (cases q) (auto simp: with_request_def intro!: end_inv_finish dest: current_req_Some)
qed

lemma end_inv_waiting [simp]: "end_inv s0 (s\<lparr>waiting_for_arena := b\<rparr>) = end_inv s0 s"
  by (simp add: end_inv_def responded_def)

lemma end_inv_handle:
  assumes "end_inv s0 s" "callbacks_keep own_id cb"
  shows "case handle_record lim cb rc s of Inl s' \<Rightarrow> end_inv s0 s' | Inr s' \<Rightarrow> end_inv s0 s'"
proof -
  obtain ty i content where rc: "rc = Record ty i content" by (cases rc)
  obtain q s' where c: "current_req cb i s = (q, s')" by force
  have e: "end_inv s0 s'" using assms c by (rule end_inv_current)
  have "end_inv s0 (finish_record cb i (begin_action content r, out_buf s') s')" if "q = Some r" for r
    using end_inv_finish [OF e assms(2) _ ends_once_actions(4) [of content], of i r]
      current_req_Some [of cb i s r s'] c that by simp
  then show ?thesis
    using e assms c ends_once_actions
    by (cases q) (simp_all add: handle_record_def rc end_inv_with)
qed

lemma end_inv_loop:
  assumes "record_loop lim cb buf s = (e, rest, s')" "all_requests own_id s" "callbacks_keep own_id cb"
  shows "end_inv s s'"
proof (rule fcgi_loop.run_invariant [where I = "end_inv s", OF assms(1)])
  have "distinct (map fst ([] :: (u16 \<times> u8) list)) \<and> out_buf s = out_buf s @ end_records [] \<and>
    (\<forall>i\<in>fst ` set ([] :: (u16 \<times> u8) list). responded s i \<and> \<not> responded s i)" by (simp add: end_records_def)
  then show "end_inv s s" using assms(2) unfolding end_inv_def by blast
next
  fix rc and t t' :: "'a fcgi_state"
  assume "end_inv s t"
  from end_inv_handle [OF this assms(3), of lim rc]
  show "handle_record lim cb rc t = Inl t' \<Longrightarrow> end_inv s t'"
    "handle_record lim cb rc t = Inr t' \<Longrightarrow> end_inv s t'" by auto
qed

section \<open>A whole request\<close>

definition encode_nv :: "string \<times> string \<Rightarrow> bytes" where
  "encode_nv nv = encode_length (length (fst nv)) @ encode_length (length (snd nv)) @
     bytes_of (fst nv) @ bytes_of (snd nv)"

definition pairs_size :: "(string \<times> string) list \<Rightarrow> nat" where
  "pairs_size ps = (\<Sum>nv\<leftarrow>ps. length (fst nv) + length (snd nv))"

definition put_pairs :: "(string \<times> string) list \<Rightarrow> dv \<Rightarrow> dv" where
  "put_pairs ps = fold (\<lambda>(n, v). dv_put n (STRING v)) ps"

definition begin_content :: "bool \<Rightarrow> bytes" where
  "begin_content keep = [0, 1, if keep then 1 else 0, 0, 0, 0, 0, 0]"

text \<open>What a web server sends: parameters and body may be spread over any number of records.\<close>

definition client_request :: "u16 \<Rightarrow> bool \<Rightarrow> (string \<times> string) list list \<Rightarrow> bytes list \<Rightarrow> fcgi_record list" where
  "client_request i keep pss bodies =
     Record FCGI_BEGIN_REQUEST i (begin_content keep) #
     map (\<lambda>ps. Record FCGI_PARAMS i (concat (map encode_nv ps))) pss @
     Record FCGI_PARAMS i [] # map (Record FCGI_STDIN i) bodies @ [Record FCGI_STDIN i []]"

definition encode_records :: "fcgi_record list \<Rightarrow> bytes" where
  "encode_records rcs = concat (map encode_record rcs)"

lemma length_encode_nv: "2 + length (fst nv) + length (snd nv) \<le> length (encode_nv nv)"
proof -
  have "1 \<le> length (encode_length (length (fst nv)))" "1 \<le> length (encode_length (length (snd nv)))"
    using length_encode_length by (simp_all only: Suc_leI One_nat_def)
  then show ?thesis by (simp only: encode_nv_def length_append length_map)
qed

lemma encode_nv_nonempty [simp]: "encode_nv nv \<noteq> []"
  using length_encode_nv [of nv] by auto

lemma params_loop_pairs:
  assumes "length (concat (map encode_nv ps)) < 2 ^ 31" "params_bytes r + pairs_size ps \<le> max_params_bytes lim"
  shows "params_loop lim (concat (map encode_nv ps)) (r, out) =
    (r\<lparr>env := put_pairs ps (env r), params_bytes := params_bytes r + pairs_size ps\<rparr>, out)"
  using assms
proof (induction ps arbitrary: r)
  case Nil
  then show ?case by (simp add: params_loop.simps put_pairs_def pairs_size_def)
next
  case (Cons nv ps)
  let ?n = "fst nv" and ?v = "snd nv" and ?rest = "concat (map encode_nv ps)"
  have "length ?n < 2 ^ 31" "length ?v < 2 ^ 31" using Cons.prems(1) length_encode_nv [of nv] by simp_all
  then have d: "decode_length (encode_nv nv @ ?rest) = (length ?n, encode_length (length ?v) @ bytes_of ?n @ bytes_of ?v @ ?rest)"
    "decode_length (encode_length (length ?v) @ bytes_of ?n @ bytes_of ?v @ ?rest) = (length ?v, bytes_of ?n @ bytes_of ?v @ ?rest)"
    by (simp_all add: encode_nv_def decode_encode_length)
  have fits: "\<not> max_params_bytes lim < params_bytes r + length ?n + length ?v"
    using Cons.prems(2) by (simp add: pairs_size_def)
  let ?r = "r\<lparr>env := dv_put ?n (STRING ?v) (env r), params_bytes := params_bytes r + (length ?n + length ?v)\<rparr>"
  have "params_loop lim (encode_nv nv @ ?rest) (r, out) = params_loop lim ?rest (?r, out)"
    using fits by (subst params_loop.simps) (simp add: d Let_def)
  also have "\<dots> = (?r\<lparr>env := put_pairs ps (env ?r), params_bytes := params_bytes ?r + pairs_size ps\<rparr>, out)"
    using Cons.prems by (intro Cons.IH) (simp_all add: pairs_size_def)
  finally show ?case by (cases nv) (simp add: put_pairs_def pairs_size_def add.assoc)
qed

lemma store_store [simp]: "store_req i r' (store_req i r s) = store_req i r' s"
  by (simp add: store_req_def)

lemma store_req_out [simp]: "out_buf (store_req i r s) = out_buf s" "s\<lparr>out_buf := out_buf s\<rparr> = s"
  "world (store_req i r s) = world s"
  by (simp_all add: store_req_def)

lemma current_req_store [simp]: "current_req cb i (store_req i r s) = (Some r, store_req i r s)"
  by (simp add: current_req_def store_req_def)

text \<open>A record that leaves its request unfinished only replaces the request.\<close>

lemma finish_unready:
  assumes "\<not> is_ready r'"
  shows "finish_record cb i (r', out_buf s) (store_req i r s) = store_req i r' s"
  using assms by (simp add: finish_record_def Let_def store_req_def)

lemma with_request_unready:
  "act (r, out_buf s) = (r', out_buf s) \<Longrightarrow> \<not> is_ready r' \<Longrightarrow>
    with_request cb i act (store_req i r s) = store_req i r' s"
  by (simp add: with_request_def finish_unready)

lemma handle_params:
  "params_action lim c (r, out_buf s) = (r', out_buf s) \<Longrightarrow> \<not> is_ready r' \<Longrightarrow>
    handle_record lim cb (Record FCGI_PARAMS i c) (store_req i r s) = Inr (store_req i r' s)"
  by (simp add: handle_record_def with_request_unready) (simp add: fcgi_consts)

lemma handle_stdin:
  "stdin_action lim c (r, out_buf s) = (r', out_buf s) \<Longrightarrow> \<not> is_ready r' \<Longrightarrow>
    handle_record lim cb (Record FCGI_STDIN i c) (store_req i r s) = Inr (store_req i r' s)"
  by (simp add: handle_record_def with_request_unready) (simp add: fcgi_consts)

lemma loop_params:
  assumes "\<forall>ps\<in>set pss. ps \<noteq> [] \<and> length (concat (map encode_nv ps)) < 65536"
    and "params_bytes r + pairs_size (concat pss) \<le> max_params_bytes lim" "\<not> has FAILED r" "\<not> has INPUT_COMPLETE r"
  shows "record_loop lim cb (encode_records (map (\<lambda>ps. Record FCGI_PARAMS i (concat (map encode_nv ps))) pss) @ rest) (store_req i r s)
    = record_loop lim cb rest (store_req i (r\<lparr>env := put_pairs (concat pss) (env r),
        params_bytes := params_bytes r + pairs_size (concat pss)\<rparr>) s)"
  using assms
proof (induction pss arbitrary: r)
  case Nil
  then show ?case by (simp add: encode_records_def put_pairs_def pairs_size_def)
next
  case (Cons ps pss)
  let ?c = "concat (map encode_nv ps)"
  let ?r = "r\<lparr>env := put_pairs ps (env r), params_bytes := params_bytes r + pairs_size ps\<rparr>"
  have split: "pairs_size (ps @ qs) = pairs_size ps + pairs_size qs" for qs by (simp add: pairs_size_def)
  have "?c \<noteq> []"
  proof -
    obtain nv qs where "ps = nv # qs" using Cons.prems(1) by (cases ps) auto
    then show ?thesis by simp
  qed
  moreover have "params_loop lim ?c (r, out_buf s) = (?r, out_buf s)"
    using Cons.prems(1,2) split by (intro params_loop_pairs) auto
  ultimately have "params_action lim ?c (r, out_buf s) = (?r, out_buf s)"
    using Cons.prems(3) by (simp add: params_action_def)
  moreover have "\<not> is_ready ?r" using Cons.prems(4) by (simp add: is_ready_def)
  ultimately have h: "handle_record lim cb (Record FCGI_PARAMS i ?c) (store_req i r s) = Inr (store_req i ?r s)"
    by (rule handle_params)
  have "record_fits (Record FCGI_PARAMS i ?c)" using Cons.prems(1) by (simp add: record_fits_def)
  from record_loop_encode [OF this h] have
    "record_loop lim cb (encode_records (map (\<lambda>ps. Record FCGI_PARAMS i (concat (map encode_nv ps))) (ps # pss)) @ rest) (store_req i r s)
     = record_loop lim cb (encode_records (map (\<lambda>ps. Record FCGI_PARAMS i (concat (map encode_nv ps))) pss) @ rest) (store_req i ?r s)"
    by (simp add: encode_records_def)
  also have "\<dots> = record_loop lim cb rest (store_req i (?r\<lparr>env := put_pairs (concat pss) (env ?r),
        params_bytes := params_bytes ?r + pairs_size (concat pss)\<rparr>) s)"
    using Cons.prems split by (intro Cons.IH) simp_all
  finally show ?case by (simp add: split put_pairs_def add.assoc)
qed

lemma loop_stdin:
  assumes "\<forall>b\<in>set bodies. b \<noteq> [] \<and> length b < 65536"
    and "body_bytes r + length (concat bodies) \<le> max_stdin_bytes lim" "\<not> has FAILED r" "\<not> has INPUT_COMPLETE r"
  shows "record_loop lim cb (encode_records (map (Record FCGI_STDIN i) bodies) @ rest) (store_req i r s)
    = record_loop lim cb rest (store_req i (r\<lparr>body := body r @ string_of (concat bodies),
        body_bytes := body_bytes r + length (concat bodies)\<rparr>) s)"
  using assms
proof (induction bodies arbitrary: r)
  case Nil
  then show ?case by (simp add: encode_records_def)
next
  case (Cons b bodies)
  let ?r = "r\<lparr>body := body r @ string_of b, body_bytes := body_bytes r + length b\<rparr>"
  have "stdin_action lim b (r, out_buf s) = (?r, out_buf s)" using Cons.prems by (simp add: stdin_action_def)
  moreover have "\<not> is_ready ?r" using Cons.prems(4) by (simp add: is_ready_def)
  ultimately have h: "handle_record lim cb (Record FCGI_STDIN i b) (store_req i r s) = Inr (store_req i ?r s)"
    by (rule handle_stdin)
  have "record_fits (Record FCGI_STDIN i b)" using Cons.prems(1) by (simp add: record_fits_def)
  from record_loop_encode [OF this h] have
    "record_loop lim cb (encode_records (map (Record FCGI_STDIN i) (b # bodies)) @ rest) (store_req i r s)
     = record_loop lim cb (encode_records (map (Record FCGI_STDIN i) bodies) @ rest) (store_req i ?r s)"
    by (simp add: encode_records_def)
  also have "\<dots> = record_loop lim cb rest (store_req i (?r\<lparr>body := body ?r @ string_of (concat bodies),
        body_bytes := body_bytes ?r + length (concat bodies)\<rparr>) s)"
    using Cons.prems by (intro Cons.IH) simp_all
  finally show ?case by (simp add: add.assoc)
qed

lemma begin_keep: "begin_content keep ! 2 AND KEEP_CONN \<noteq> 0 \<longleftrightarrow> keep"
  by (simp add: begin_content_def KEEP_CONN_def)

lemma begin_action_simps [simp]:
  "env (begin_action c r) = env r" "body (begin_action c r) = body r" "params_bytes (begin_action c r) = params_bytes r"
  "body_bytes (begin_action c r) = body_bytes r" "req_id (begin_action c r) = req_id r"
  "arena (begin_action c r) = arena r" "conn_ptr (begin_action c r) = conn_ptr r"
  by (simp_all add: begin_action_def Let_def)

lemma begin_action_flags:
  "flags r = 0 \<Longrightarrow> \<not> has f (begin_action c r) \<or> has_flag INITIALIZED f \<or> has_flag KEEP_CONNECTION f"
  by (auto simp: begin_action_def Let_def) (simp_all add: has_def)

lemma begin_action_keep:
  "flags r = 0 \<Longrightarrow> has KEEP_CONNECTION (begin_action (begin_content keep) r) = keep"
  by (simp add: begin_action_def begin_keep Let_def) (simp add: has_def flag_defs)

lemma encode_records_Cons: "encode_records (rc # rcs) = encode_record rc @ encode_records rcs"
  by (simp add: encode_records_def)

lemma encode_records_append: "encode_records (a @ b) = encode_records a @ encode_records b"
  by (simp add: encode_records_def)

lemma handle_begin_new:
  assumes "map_of (requests s) i = None" "allocate_request cb i (world s) = (Some r0, w)" "flags r0 = 0"
  shows "handle_record lim cb (Record FCGI_BEGIN_REQUEST i (begin_content keep)) s =
    Inr (store_req i (begin_action (begin_content keep) r0) (s\<lparr>world := w\<rparr>))"
proof -
  have "\<not> is_ready (begin_action (begin_content keep) r0)"
    using begin_action_flags [OF assms(3), of INPUT_COMPLETE] by (auto simp: is_ready_def)
  moreover have "current_req cb i s = (Some r0, store_req i r0 (s\<lparr>world := w\<rparr>))"
    using assms by (simp add: current_req_def store_req_def)
  ultimately show ?thesis
    using finish_unready [of "begin_action (begin_content keep) r0" cb i "s\<lparr>world := w\<rparr>" r0]
    by (simp add: handle_record_def begin_content_def)
qed

lemma finish_ready:
  assumes "is_ready r'"
  shows "finish_record cb i (r', out_buf s) (store_req i r s) =
    store_req i (fst (on_request_ready cb r' (world s))) (s\<lparr>world := snd (on_request_ready cb r' (world s))\<rparr>)"
  using assms by (simp add: finish_record_def Let_def store_req_def split: prod.splits)

lemma loop_whole:
  assumes new: "map_of (requests s) i = None" "allocate_request cb i (world s) = (Some r0, w)"
    and r0: "flags r0 = 0" "params_bytes r0 = 0" "body_bytes r0 = 0"
    and ps: "\<forall>ps\<in>set pss. ps \<noteq> [] \<and> length (concat (map encode_nv ps)) < 65536"
      "pairs_size (concat pss) \<le> max_params_bytes lim"
    and bs: "\<forall>b\<in>set bodies. b \<noteq> [] \<and> length b < 65536" "length (concat bodies) \<le> max_stdin_bytes lim"
  shows "\<exists>r. record_loop lim cb (encode_records (client_request i keep pss bodies) @ rest) s =
      record_loop lim cb rest (store_req i (fst (on_request_ready cb r w)) (s\<lparr>world := snd (on_request_ready cb r w)\<rparr>)) \<and>
    is_ready r \<and> has KEEP_CONNECTION r = keep \<and> \<not> has ABORTED r \<and> req_id r = req_id r0 \<and> arena r = arena r0 \<and>
    env r = put_pairs (concat pss) (env r0) \<and> body r = body r0 @ string_of (concat bodies)"
proof -
  define s1 where "s1 = s\<lparr>world := w\<rparr>"
  define r1 where "r1 = begin_action (begin_content keep) r0"
  define r2 where "r2 = r1\<lparr>env := put_pairs (concat pss) (env r1), params_bytes := params_bytes r1 + pairs_size (concat pss)\<rparr>"
  define r3 where "r3 = set_flag PARAMS_COMPLETE r2"
  define r4 where "r4 = r3\<lparr>body := body r3 @ string_of (concat bodies), body_bytes := body_bytes r3 + length (concat bodies)\<rparr>"
  define r5 where "r5 = set_flag INPUT_COMPLETE r4"
  note defs = r1_def r2_def r3_def r4_def r5_def
  have no: "\<not> has FAILED r1" "\<not> has RESPONDED r1" "\<not> has INPUT_COMPLETE r1"
    using begin_action_flags [OF r0(1), of FAILED] begin_action_flags [OF r0(1), of RESPONDED]
      begin_action_flags [OF r0(1), of INPUT_COMPLETE] by (simp_all add: r1_def)
  have eq: "encode_records (client_request i keep pss bodies) @ rest =
      encode_record (Record FCGI_BEGIN_REQUEST i (begin_content keep)) @
      encode_records (map (\<lambda>ps. Record FCGI_PARAMS i (concat (map encode_nv ps))) pss) @
      encode_record (Record FCGI_PARAMS i []) @ encode_records (map (Record FCGI_STDIN i) bodies) @
      encode_record (Record FCGI_STDIN i []) @ rest"
    by (simp add: client_request_def encode_records_Cons encode_records_append) (simp add: encode_records_def)
  have 1: "record_loop lim cb (encode_record (Record FCGI_BEGIN_REQUEST i (begin_content keep)) @ u) s
      = record_loop lim cb u (store_req i r1 s1)" for u
    unfolding r1_def s1_def
    by (rule record_loop_encode [OF _ handle_begin_new [OF new r0(1)]]) (simp add: record_fits_def begin_content_def)
  have 2: "record_loop lim cb (encode_records (map (\<lambda>ps. Record FCGI_PARAMS i (concat (map encode_nv ps))) pss) @ u)
      (store_req i r1 s1) = record_loop lim cb u (store_req i r2 s1)" for u
    unfolding r2_def using ps no r0(2) by (intro loop_params) (simp_all add: r1_def)
  have "params_action lim [] (r2, out_buf s1) = (r3, out_buf s1)" by (simp add: params_action_def r3_def)
  moreover have "\<not> is_ready r3" using no by (simp add: is_ready_def r3_def r2_def)
  ultimately have 3: "record_loop lim cb (encode_record (Record FCGI_PARAMS i []) @ u) (store_req i r2 s1)
      = record_loop lim cb u (store_req i r3 s1)" for u
    by (intro record_loop_encode handle_params) (simp add: record_fits_def)
  have 4: "record_loop lim cb (encode_records (map (Record FCGI_STDIN i) bodies) @ u) (store_req i r3 s1)
      = record_loop lim cb u (store_req i r4 s1)" for u
    unfolding r4_def using bs no r0(3) by (intro loop_stdin) (simp_all add: r3_def r2_def r1_def)
  have ready: "is_ready r5" using no by (simp add: is_ready_def r5_def r4_def r3_def r2_def)
  have "with_request cb i (stdin_action lim []) (store_req i r4 s1) =
      store_req i (fst (on_request_ready cb r5 (world s1))) (s1\<lparr>world := snd (on_request_ready cb r5 (world s1))\<rparr>)"
    using finish_ready [OF ready] by (simp add: with_request_def stdin_action_def r5_def)
  then have "handle_record lim cb (Record FCGI_STDIN i []) (store_req i r4 s1) =
      Inr (store_req i (fst (on_request_ready cb r5 w)) (s\<lparr>world := snd (on_request_ready cb r5 w)\<rparr>))"
    by (simp add: handle_record_def s1_def) (simp add: fcgi_consts)
  then have 5: "record_loop lim cb (encode_record (Record FCGI_STDIN i []) @ rest) (store_req i r4 s1) =
      record_loop lim cb rest (store_req i (fst (on_request_ready cb r5 w)) (s\<lparr>world := snd (on_request_ready cb r5 w)\<rparr>))"
    by (intro record_loop_encode) (simp_all add: record_fits_def)
  have keep: "has KEEP_CONNECTION r5 = keep"
    using begin_action_keep [OF r0(1), of keep] by (simp add: defs) (simp add: flag_defs)
  have ab: "\<not> has ABORTED r5"
    using begin_action_flags [OF r0(1), of ABORTED "begin_content keep"] by (simp add: defs) (simp add: flag_defs)
  have "req_id r5 = req_id r0" "arena r5 = arena r0" "env r5 = put_pairs (concat pss) (env r0)"
    "body r5 = body r0 @ string_of (concat bodies)" by (simp_all add: defs)
  then show ?thesis unfolding eq 1 2 3 4 5 using ready keep ab by blast
qed

lemma process_whole:
  assumes "map_of (requests s) i = None" "allocate_request cb i (world s) = (Some r0, w)"
    and "flags r0 = 0" "params_bytes r0 = 0" "body_bytes r0 = 0"
    and "\<forall>ps\<in>set pss. ps \<noteq> [] \<and> length (concat (map encode_nv ps)) < 65536"
    and "pairs_size (concat pss) \<le> max_params_bytes lim"
    and "\<forall>b\<in>set bodies. b \<noteq> [] \<and> length b < 65536" "length (concat bodies) \<le> max_stdin_bytes lim"
  shows "\<exists>r. process_buffer lim cb (encode_records (client_request i keep pss bodies)) s =
      (OK, [], store_req i (fst (on_request_ready cb r w)) (s\<lparr>world := snd (on_request_ready cb r w)\<rparr>)) \<and>
    is_ready r \<and> has KEEP_CONNECTION r = keep \<and> \<not> has ABORTED r \<and> req_id r = req_id r0 \<and> arena r = arena r0 \<and>
    env r = put_pairs (concat pss) (env r0) \<and> body r = body r0 @ string_of (concat bodies)"
proof -
  obtain r where r: "record_loop lim cb (encode_records (client_request i keep pss bodies) @ []) s =
      record_loop lim cb [] (store_req i (fst (on_request_ready cb r w)) (s\<lparr>world := snd (on_request_ready cb r w)\<rparr>))"
    "is_ready r \<and> has KEEP_CONNECTION r = keep \<and> \<not> has ABORTED r \<and> req_id r = req_id r0 \<and> arena r = arena r0 \<and>
     env r = put_pairs (concat pss) (env r0) \<and> body r = body r0 @ string_of (concat bodies)"
    using loop_whole [OF assms, of keep "[]"] by blast
  from r(1) have "process_buffer lim cb (encode_records (client_request i keep pss bodies)) s =
      (OK, [], store_req i (fst (on_request_ready cb r w)) (s\<lparr>world := snd (on_request_ready cb r w)\<rparr>))"
    by (simp add: process_buffer_def)
  with r(2) show ?thesis by blast
qed

section \<open>What is written\<close>

lemma stdout_loop_chunks:
  "\<exists>chunks. stdout_loop out i rest = out @ encode_records (map (Record FCGI_STDOUT i) chunks) \<and>
    concat chunks = rest \<and> (\<forall>c\<in>set chunks. c \<noteq> [] \<and> length c < 65536)"
proof (induction out i rest rule: stdout_loop.induct)
  case (1 out i rest)
  show ?case
  proof (cases "rest = []")
    case True
    then show ?thesis
      by (intro exI [of _ "[]"]) (simp add: stdout_loop.simps encode_records_def)
  next
    case False
    define n :: u16 where "n = (if 0xFFFF < length rest then 0xFFFF else of_nat (length rest))"
    have n: "0 < unat n" "unat n \<le> length rest" "unat n < 65536"
      using False unsigned_less [of n, where ?'a = nat] by (auto simp: n_def unat_of_nat)
    define c where "c = take (unat n) rest"
    have c: "c \<noteq> []" "length c < 65536" "of_nat (length c) = n" using n False by (auto simp: c_def)
    have "append_record out FCGI_STDOUT i rest n = append_record out FCGI_STDOUT i c (of_nat (length c))"
      by (simp add: append_record_def c(3)) (simp add: c_def)
    also have "\<dots> = out @ encode_record (Record FCGI_STDOUT i c)" using c(2) by (rule append_record_encode)
    finally have rec: "append_record out FCGI_STDOUT i rest n = out @ encode_record (Record FCGI_STDOUT i c)" .
    obtain chunks where ch: "stdout_loop (append_record out FCGI_STDOUT i rest n) i (drop (unat n) rest) =
        append_record out FCGI_STDOUT i rest n @ encode_records (map (Record FCGI_STDOUT i) chunks)"
      "concat chunks = drop (unat n) rest" "\<forall>c\<in>set chunks. c \<noteq> [] \<and> length c < 65536"
      using 1 [OF _ n_def] False by auto
    have "stdout_loop out i rest = stdout_loop (append_record out FCGI_STDOUT i rest n) i (drop (unat n) rest)"
      using False by (subst stdout_loop.simps) (simp add: n_def Let_def)
    then show ?thesis using ch c
      by (intro exI [of _ "c # chunks"]) (simp add: rec encode_records_Cons c_def)
  qed
qed

section \<open>Properties\<close>

text \<open>C9: how the bytes of a connection are split into reads does not matter: feeding them chunk by
  chunk to \<open>process_buffer\<close>, as \<open>handle_io\<close> does, ends with the same status, left-over bytes,
  requests and output as one call on all of them, unless a request had to wait for an arena.\<close>

theorem reads_do_not_matter:
  assumes "process_buffer lim cb (buf @ concat (c # cs)) s = (st, rest, s')" "\<not> waiting_for_arena s'"
  shows "feed lim cb (c # cs) buf s = (st, rest, s')"
  using assms by (rule feed_concat)

definition demo_limits :: limits where
  "demo_limits = \<lparr>max_params_bytes = 1000, max_stdin_bytes = 1000\<rparr>"

definition demo_callbacks :: "nat callbacks" where
  "demo_callbacks = \<lparr>allocate_request = \<lambda>i n. (Some ((request_new n 0)\<lparr>req_id := i\<rparr>), n + 1),
     on_request_ready = \<lambda>r n. (r, n + 100)\<rparr>"

definition demo_state :: "nat fcgi_state" where
  "demo_state = \<lparr>requests = [], out_buf = [], waiting_for_arena = False, world = 0\<rparr>"

text \<open>A state in which no BEGIN_REQUEST can wait reads the same either way.\<close>

theorem reads_do_not_matter_witness:
  "feed demo_limits demo_callbacks [[1, 9], [0, 1, 0, 0], [0, 0, 7]] [] demo_state = (OK, [7], demo_state)"
proof (rule reads_do_not_matter)
  show "process_buffer demo_limits demo_callbacks ([] @ concat [[1, 9], [0, 1, 0, 0], [0, 0, 7]]) demo_state
      = (OK, [7], demo_state)"
    by (simp add: process_buffer_def record_loop.simps next_record_def read_header_def rd16_def
        handle_record_def fcgi_consts Let_def)
  show "\<not> waiting_for_arena demo_state" by (simp add: demo_state_def)
qed

text \<open>C4: the records a web server sends for one request, its parameters and its body spread over
  any number of records, create one request that carries exactly those parameters and that body,
  and hand it to \<open>on_request_ready\<close> once, complete; nothing else changes.\<close>

theorem whole_request:
  assumes "map_of (requests s) i = None" "allocate_request cb i (world s) = (Some r0, w)"
    and "flags r0 = 0" "params_bytes r0 = 0" "body_bytes r0 = 0"
    and "\<forall>ps\<in>set pss. ps \<noteq> [] \<and> length (concat (map encode_nv ps)) < 65536"
    and "pairs_size (concat pss) \<le> max_params_bytes lim"
    and "\<forall>b\<in>set bodies. b \<noteq> [] \<and> length b < 65536" "length (concat bodies) \<le> max_stdin_bytes lim"
  shows "\<exists>r. process_buffer lim cb (encode_records (client_request i keep pss bodies)) s =
      (OK, [], store_req i (fst (on_request_ready cb r w)) (s\<lparr>world := snd (on_request_ready cb r w)\<rparr>)) \<and>
    is_ready r \<and> has KEEP_CONNECTION r = keep \<and> req_id r = req_id r0 \<and> arena r = arena r0 \<and>
    env r = put_pairs (concat pss) (env r0) \<and> body r = body r0 @ string_of (concat bodies)"
  using process_whole [OF assms] by blast

theorem whole_request_witness:
  "\<exists>r. process_buffer demo_limits demo_callbacks
      (encode_records (client_request 7 True [[(''A'', ''x'')], [(''B'', [])]] [[1, 2], [3]])) demo_state =
      (OK, [], store_req 7 (fst (on_request_ready demo_callbacks r 1)) (demo_state\<lparr>world := snd (on_request_ready demo_callbacks r 1)\<rparr>)) \<and>
    is_ready r \<and> has KEEP_CONNECTION r = True \<and> req_id r = req_id ((request_new 0 0)\<lparr>req_id := 7\<rparr>) \<and>
    arena r = arena ((request_new 0 0)\<lparr>req_id := 7\<rparr>) \<and>
    env r = put_pairs (concat [[(''A'', ''x'')], [(''B'', [])]]) (env ((request_new 0 0)\<lparr>req_id := 7\<rparr>)) \<and>
    body r = body ((request_new 0 0)\<lparr>req_id := 7\<rparr>) @ string_of (concat [[1, 2], [3]])"
  by (rule whole_request)
    (simp_all add: demo_state_def demo_callbacks_def demo_limits_def request_new_def encode_nv_def
      encode_length_def pairs_size_def)

text \<open>C12: whatever arrives, the names and values a request holds, and its body, stay within the
  configured limits, and its counters tell the truth about them.\<close>

theorem limits_respected:
  assumes "all_requests (request_bounded lim) s" "callbacks_keep (request_bounded lim) cb"
  shows "all_requests (request_bounded lim) (snd (snd (process_buffer lim cb buf s)))"
proof -
  obtain st rest s' where p: "process_buffer lim cb buf s = (st, rest, s')" by (metis prod_cases3)
  then obtain e r where "record_loop lim cb buf s = (e, r, s')" using process_buffer_loop by blast
  from all_requests_loop [OF this assms bounded_actions] show ?thesis by (simp add: p)
qed

theorem limits_respected_witness:
  "all_requests (request_bounded demo_limits) (snd (snd (process_buffer demo_limits demo_callbacks
     (encode_records (client_request 7 True [[(''A'', ''x'')]] [[1, 2], [3]])) demo_state)))"
proof (rule limits_respected)
  show "all_requests (request_bounded demo_limits) demo_state" by (simp add: all_requests_def demo_state_def)
  have "request_bounded demo_limits i ((request_new n 0)\<lparr>req_id := j\<rparr>)" for i j n
    by (simp add: request_bounded_def request_new_def env_bytes_def dv_put_def dv_subscript_def dv_members_def
        emplace_def demo_limits_def)
  then show "callbacks_keep (request_bounded demo_limits) demo_callbacks"
    by (auto simp: callbacks_keep_def demo_callbacks_def)
qed

text \<open>C11: one call writes nothing but END_REQUEST records, at most one for each request, and only for
  requests that it turned from unanswered to answered; so no request is refused or aborted twice.\<close>

theorem end_request_once:
  assumes "all_requests own_id s" "callbacks_keep own_id cb" "process_buffer lim cb buf s = (st, rest, s')"
  shows "\<exists>es. distinct (map fst es) \<and> out_buf s' = out_buf s @ end_records es \<and>
    (\<forall>i\<in>fst ` set es. responded s' i \<and> \<not> responded s i)"
proof -
  obtain e r where "record_loop lim cb buf s = (e, r, s')" using process_buffer_loop assms(3) by blast
  from end_inv_loop [OF this assms(1,2)] show ?thesis by (auto simp: end_inv_def)
qed

theorem end_request_once_witness:
  "\<exists>es. distinct (map fst es) \<and>
     out_buf (snd (snd (process_buffer demo_limits demo_callbacks (encode_records [Record FCGI_ABORT_REQUEST 3 []]) demo_state))) =
       out_buf demo_state @ end_records es \<and>
     (\<forall>i\<in>fst ` set es.
       responded (snd (snd (process_buffer demo_limits demo_callbacks (encode_records [Record FCGI_ABORT_REQUEST 3 []]) demo_state))) i \<and>
       \<not> responded demo_state i)"
proof (rule end_request_once)
  show "all_requests own_id demo_state" by (simp add: all_requests_def demo_state_def)
  show "callbacks_keep own_id demo_callbacks" by (auto simp: callbacks_keep_def demo_callbacks_def own_id_def)
  let ?p = "process_buffer demo_limits demo_callbacks (encode_records [Record FCGI_ABORT_REQUEST 3 []]) demo_state"
  show "?p = (fst ?p, fst (snd ?p), snd (snd ?p))" by simp
qed

text \<open>A response text becomes STDOUT records of at most 65535 bytes that carry it in order,
  closed by an empty one, whatever its length.\<close>

lemma stdout_text_chunks:
  "\<exists>chunks. append_stdout_text out i text =
      out @ encode_records (map (Record FCGI_STDOUT i) chunks @ [Record FCGI_STDOUT i []]) \<and>
    concat chunks = bytes_of text \<and> list_all (\<lambda>c. c \<noteq> [] \<and> length c < 65536) chunks"
proof -
  obtain chunks where c: "stdout_loop out i (bytes_of text) = out @ encode_records (map (Record FCGI_STDOUT i) chunks)"
    "concat chunks = bytes_of text" "\<forall>c\<in>set chunks. c \<noteq> [] \<and> length c < 65536"
    using stdout_loop_chunks by blast
  have "append_record u FCGI_STDOUT i [] 0 = u @ encode_record (Record FCGI_STDOUT i [])" for u
    using append_record_encode [of "[]" u FCGI_STDOUT i] by simp
  then have "append_stdout_text out i text =
      out @ encode_records (map (Record FCGI_STDOUT i) chunks @ [Record FCGI_STDOUT i []])"
    by (simp add: append_stdout_text_def c(1) encode_records_append) (simp add: encode_records_def)
  with c(2,3) show ?thesis unfolding list_all_iff by blast
qed

text \<open>C38: a BEGIN_REQUEST that has to wait for an arena leaves the records before it in the buffer,
  so they are handled again at the next attempt: the body of another request that was being read on
  the same connection grows by the same bytes every time.\<close>

theorem waiting_repeats_stdin:
  assumes r: "map_of (requests s) i = Some r" "\<not> has FAILED r" "\<not> has INPUT_COMPLETE r"
    and j: "map_of (requests s) j = None" "\<forall>w. allocate_request cb j w = (None, w)"
    and d: "data \<noteq> []" "length data < 65536" "body_bytes r + 2 * length data \<le> max_stdin_bytes lim"
    and buf: "buf = encode_records [Record FCGI_STDIN i data, Record FCGI_BEGIN_REQUEST j (begin_content False)]"
  shows "\<exists>s1 s2 r2. process_buffer lim cb buf s = (OK, buf, s1) \<and>
    process_buffer lim cb buf (s1\<lparr>waiting_for_arena := False\<rparr>) = (OK, buf, s2) \<and>
    map_of (requests s2) i = Some r2 \<and> body r2 = body r @ string_of data @ string_of data"
proof -
  define add where "add q = q\<lparr>body := body q @ string_of data, body_bytes := body_bytes q + length data\<rparr>" for q :: request
  have step: "process_buffer lim cb buf t = (OK, buf, (store_req i (add q) t)\<lparr>waiting_for_arena := True\<rparr>)"
    if q: "map_of (requests t) i = Some q" "\<not> has FAILED q" "\<not> has INPUT_COMPLETE q"
      "body_bytes q + length data \<le> max_stdin_bytes lim" and tj: "map_of (requests t) j = None" for q t
  proof -
    have ij: "j \<noteq> i" using q(1) tj by auto
    have "\<not> is_ready (add q)" using q(3) by (simp add: is_ready_def add_def)
    then have h1: "handle_record lim cb (Record FCGI_STDIN i data) t = Inr (store_req i (add q) t)"
      using q d(1) by (simp add: handle_record_def with_request_def current_req_def stdin_action_def
          finish_record_def add_def [symmetric] Let_def) (simp add: fcgi_consts)
    have h2: "handle_record lim cb (Record FCGI_BEGIN_REQUEST j (begin_content False)) (store_req i (add q) t)
        = Inl ((store_req i (add q) t)\<lparr>waiting_for_arena := True\<rparr>)"
      using j(2) tj ij by (simp add: handle_record_def current_req_def begin_content_def store_req_def)
    have fits: "record_fits (Record FCGI_STDIN i data)" "record_fits (Record FCGI_BEGIN_REQUEST j (begin_content False))"
      using d(2) by (simp_all add: record_fits_def begin_content_def)
    have "record_loop lim cb buf t = (Stopped, encode_record (Record FCGI_BEGIN_REQUEST j (begin_content False)) @ [],
        (store_req i (add q) t)\<lparr>waiting_for_arena := True\<rparr>)"
      using record_loop_encode [OF fits(1) h1] record_loop_encode_stop [OF fits(2) h2, of "[]"]
      by (simp add: buf encode_records_def)
    then show ?thesis by (simp add: process_buffer_def)
  qed
  define s1 where "s1 = (store_req i (add r) s)\<lparr>waiting_for_arena := True\<rparr>"
  have ij: "j \<noteq> i" using r j by auto
  have 1: "process_buffer lim cb buf s = (OK, buf, s1)" unfolding s1_def using r j d by (intro step) auto
  have m: "map_of (requests (s1\<lparr>waiting_for_arena := False\<rparr>)) i = Some (add r)"
    "map_of (requests (s1\<lparr>waiting_for_arena := False\<rparr>)) j = None"
    using j ij by (simp_all add: s1_def store_req_def)
  have 2: "process_buffer lim cb buf (s1\<lparr>waiting_for_arena := False\<rparr>) =
      (OK, buf, (store_req i (add (add r)) (s1\<lparr>waiting_for_arena := False\<rparr>))\<lparr>waiting_for_arena := True\<rparr>)"
    using r d by (intro step m) (simp_all add: add_def)
  show ?thesis using 1 2 by (auto simp: store_req_def add_def)
qed

theorem waiting_repeats_stdin_witness:
  "\<exists>s1 s2 r2.
    process_buffer demo_limits (demo_callbacks\<lparr>allocate_request := \<lambda>i n. (None, n)\<rparr>)
      (encode_records [Record FCGI_STDIN 1 [65], Record FCGI_BEGIN_REQUEST 2 (begin_content False)])
      (demo_state\<lparr>requests := [(1, request_new 0 0)]\<rparr>) =
      (OK, encode_records [Record FCGI_STDIN 1 [65], Record FCGI_BEGIN_REQUEST 2 (begin_content False)], s1) \<and>
    process_buffer demo_limits (demo_callbacks\<lparr>allocate_request := \<lambda>i n. (None, n)\<rparr>)
      (encode_records [Record FCGI_STDIN 1 [65], Record FCGI_BEGIN_REQUEST 2 (begin_content False)])
      (s1\<lparr>waiting_for_arena := False\<rparr>) =
      (OK, encode_records [Record FCGI_STDIN 1 [65], Record FCGI_BEGIN_REQUEST 2 (begin_content False)], s2) \<and>
    map_of (requests s2) 1 = Some r2 \<and> body r2 = body (request_new 0 0) @ string_of [65] @ string_of [65]"
  by (rule waiting_repeats_stdin) (simp_all add: demo_state_def demo_limits_def)

text \<open>A name/value pair that a web server splits between two PARAMS records, as the protocol
  allows, is lost: the pair \<open>a=b\<close> arrives when its four bytes are in one record, and not at all
  when the last byte is in the next.\<close>

theorem split_pair_lost:
  assumes "\<not> has FAILED r" "params_bytes r + 2 \<le> max_params_bytes lim"
  shows "fst (params_action lim [1, 1, 97, 98] (r, out)) = r\<lparr>env := dv_put ''a'' (STRING ''b'') (env r), params_bytes := params_bytes r + 2\<rparr> \<and>
    params_action lim [98] (params_action lim [1, 1, 97] (r, out)) = (r, out)"
proof -
  have n: "(98 :: u8) AND 128 = 0" "(1 :: u8) AND 128 = 0" "(97 :: u8) AND 128 = 0" by simp_all
  have a: "char_of_byte 97 = CHR ''a''" "char_of_byte 98 = CHR ''b''"
    by (simp_all add: char_of_byte_def uchar_inj [symmetric])
  have "params_loop lim [98] (r, out) = (r, out)" "params_loop lim [1, 1, 97] (r, out) = (r, out)"
    by (subst params_loop.simps, simp add: decode_length_def n)+
  moreover have "params_loop lim [1, 1, 97, 98] (r, out) =
      (r\<lparr>env := dv_put ''a'' (STRING ''b'') (env r), params_bytes := params_bytes r + 2\<rparr>, out)"
    using assms(2) by (subst params_loop.simps, simp add: decode_length_def n a Let_def, subst params_loop.simps, simp)
  ultimately show ?thesis using assms(1) by (simp add: params_action_def)
qed

theorem split_pair_lost_witness:
  "fst (params_action demo_limits [1, 1, 97, 98] (request_new 0 0, [])) = (request_new 0 0)\<lparr>env := dv_put ''a'' (STRING ''b'') (env (request_new 0 0)),
      params_bytes := params_bytes (request_new 0 0) + 2\<rparr> \<and>
    params_action demo_limits [98] (params_action demo_limits [1, 1, 97] (request_new 0 0, [])) = (request_new 0 0, [])"
  by (rule split_pair_lost) (simp_all add: demo_limits_def)


end
