(* ===== verification/Session.thy ===== *)
theory Session
  imports Form
begin

text \<open>
  session.cpp: sessions are JSON files named by a random identifier and read through the file cache.
  The random numbers of one call are the sequence \<open>draw\<close>. The directory that \<open>session_save\<close> makes
  first, ignoring whether it could, decides whether the file can be opened: \<open>session_save\<close> is given
  the answer, \<open>session_save_dirs\<close> has the directories in its state.
\<close>

definition session_path :: "global_config \<Rightarrow> string \<Rightarrow> string" where
  "session_path g i =
     (let dir = session_storage_path g;
          dir' = (if dir \<noteq> [] \<and> last dir \<noteq> CHR ''/'' then dir @ ''/'' else dir)
      in dir' @ i @ ''.json'')"

definition hex_of_byte :: "nat \<Rightarrow> string" where
  "hex_of_byte b = [hex_lower (b div 16), hex_lower (b mod 16)]"

function random_loop :: "(nat \<Rightarrow> u64) \<Rightarrow> nat \<Rightarrow> nat \<Rightarrow> string" where
  "random_loop draw k bytes =
     (if 0 < bytes then
        (let v = draw k;
             chunk = (if 8 < bytes then 8 else bytes)
         in concat (map (\<lambda>i. hex_of_byte (unat (drop_bit (8 * i) v AND 0xFF))) [0..<chunk]) @
            random_loop draw (k + 1) (bytes - chunk))
      else [])"
  by pat_completeness auto
termination by (relation "measure (\<lambda>(draw, k, bytes). bytes)") auto

declare random_loop.simps [simp del]

definition random_hex :: "(nat \<Rightarrow> u64) \<Rightarrow> nat \<Rightarrow> string" where
  "random_hex draw bytes = random_loop draw 0 bytes"

definition session_get_id :: "(nat \<Rightarrow> u64) \<Rightarrow> bool \<Rightarrow> request \<Rightarrow> string \<times> request" where
  "session_get_id draw create r =
     (if session_id r \<noteq> [] then (session_id r, r)
      else if \<not> create then ([], r)
      else (random_hex draw 16, r\<lparr>session_id := random_hex draw 16\<rparr>))"

definition session_load ::
  "global_config \<Rightarrow> cache_config \<Rightarrow> int \<Rightarrow> int \<Rightarrow> disk \<Rightarrow> request \<times> file_store \<Rightarrow> bool \<times> request \<times> file_store" where
  "session_load g cfg now later d = (\<lambda>(r, st).
     if session_id r = [] then (False, r, st)
     else
       (case read_entire_file_cached cfg now later d d (session_path g (session_id r)) st of
          (cont, st') \<Rightarrow>
            if cont = [] then (False, r, st')
            else (case parse_json cont of
                    (Some parsed, _) \<Rightarrow> (True, r\<lparr>session := parsed\<rparr>, st')
                  | (None, _) \<Rightarrow> (False, r, st'))))"

definition set_cookie_text :: "global_config \<Rightarrow> string \<Rightarrow> string" where
  "set_cookie_text g i = session_cookie_name g @ ''='' @ i @ ''; Path=/; HttpOnly''"

definition session_start ::
  "global_config \<Rightarrow> cache_config \<Rightarrow> (nat \<Rightarrow> u64) \<Rightarrow> int \<Rightarrow> int \<Rightarrow> disk \<Rightarrow> request \<times> file_store \<Rightarrow> bool \<times> request \<times> file_store" where
  "session_start g cfg draw now later d = (\<lambda>(r, st).
     let r1 = snd (session_get_id draw True r);
         r2 = (if dv_find (session_cookie_name g) (cookies r1) = None
               then r1\<lparr>headers := dv_put ''Set-Cookie'' (STRING (set_cookie_text g (session_id r1))) (headers r1)\<rparr>
               else r1)
     in (case session_load g cfg now later d (r2, st) of
           (True, r3, st') \<Rightarrow> (True, r3, st')
         | (False, r3, st') \<Rightarrow> (True, r3\<lparr>session := dv_clear (session r3)\<rparr>, st')))"

definition session_save ::
  "global_config \<Rightarrow> cache_config \<Rightarrow> bool \<Rightarrow> string option \<Rightarrow> int \<Rightarrow> int \<Rightarrow> int \<Rightarrow> request \<Rightarrow> disk \<times> file_store \<Rightarrow> bool \<times> disk \<times> file_store" where
  "session_save g cfg opened cut_off mt wall now r = (\<lambda>(d, st).
     if session_id r = [] then (False, d, st)
     else write_entire_file cfg opened cut_off mt wall now (session_path g (session_id r)) (to_json (session r) False 0) (d, st))"

text \<open>Directories: \<open>Some True\<close>, and other files: \<open>Some False\<close>. \<open>made\<close> is what \<open>mkdir\<close> would answer.\<close>

type_synonym directories = "string \<Rightarrow> bool option"

definition mkdir_if_not_exists :: "bool \<Rightarrow> string \<Rightarrow> directories \<Rightarrow> bool \<times> directories" where
  "mkdir_if_not_exists made dir dirs =
     (case dirs dir of
        Some is_dir \<Rightarrow> (is_dir, dirs)
      | None \<Rightarrow> if made then (True, dirs(dir \<mapsto> True)) else (False, dirs))"

text \<open>\<open>may_open\<close>: the file can be opened if its directory is there; the empty path is the working directory.\<close>

definition session_save_dirs ::
  "global_config \<Rightarrow> cache_config \<Rightarrow> bool \<Rightarrow> bool \<Rightarrow> string option \<Rightarrow> int \<Rightarrow> int \<Rightarrow> int \<Rightarrow> request
     \<Rightarrow> directories \<times> disk \<times> file_store \<Rightarrow> bool \<times> directories \<times> disk \<times> file_store" where
  "session_save_dirs g cfg made may_open cut_off mt wall now r = (\<lambda>(dirs, d, st).
     if session_id r = [] then (False, dirs, d, st)
     else
       (let dir = session_storage_path g;
            dirs' = snd (mkdir_if_not_exists made dir dirs)
        in case session_save g cfg (may_open \<and> (dir = [] \<or> dirs' dir = Some True)) cut_off mt wall now r (d, st) of
             (b, d', st') \<Rightarrow> (b, dirs', d', st')))"

definition session_clear :: "global_config \<Rightarrow> request \<times> disk \<Rightarrow> bool \<times> request \<times> disk" where
  "session_clear g = (\<lambda>(r, d).
     let d' = (if session_id r \<noteq> [] then d(session_path g (session_id r) := None) else d)
     in (True, r\<lparr>session_id := [], session := make_object\<rparr>, d'))"

section \<open>Identifiers\<close>

lemma random_loop_length: "length (random_loop draw k bytes) = 2 * bytes"
proof (induction draw k bytes rule: random_loop.induct)
  case (1 draw k bytes)
  have len: "length (concat (map (\<lambda>i. hex_of_byte (f i)) xs)) = 2 * length xs" for f and xs :: "nat list"
    by (induction xs) (simp_all add: hex_of_byte_def)
  show ?case
  proof (cases "0 < bytes")
    case True
    with 1 [OF True refl refl] show ?thesis
      by (subst random_loop.simps) (auto simp: Let_def len)
  qed (simp add: random_loop.simps)
qed

definition hex_digits :: string where
  "hex_digits = ''0123456789abcdef''"

lemma hex_lower_digit: "d < 16 \<Longrightarrow> hex_lower d \<in> set hex_digits"
proof -
  assume "d < 16"
  then have "d \<in> set [0..<16]" by simp
  moreover have "\<forall>d\<in>set [0..<16]. hex_lower d \<in> set hex_digits"
    by (simp add: hex_lower_def hex_digits_def upt_rec) (simp add: uchar_inj [symmetric])
  ultimately show ?thesis by blast
qed

lemma low_byte_bound: "unat (w AND 0xFF :: u64) < 256"
proof -
  have e: "(0xFF :: u64) = mask 8" by (simp add: mask_eq_exp_minus_1)
  have "take_bit 8 (unat w) < 2 ^ 8" by (rule take_bit_nat_less_exp)
  then show ?thesis by (simp add: e take_bit_eq_mask [symmetric] unsigned_take_bit_eq)
qed

lemma random_loop_hex: "set (random_loop draw k bytes) \<subseteq> set hex_digits"
proof (induction draw k bytes rule: random_loop.induct)
  case (1 draw k bytes)
  have b: "set (hex_of_byte (unat (w AND 0xFF))) \<subseteq> set hex_digits" for w :: u64
    using low_byte_bound [of w] by (auto simp: hex_of_byte_def intro: hex_lower_digit)
  show ?case
  proof (cases "0 < bytes")
    case True
    then show ?thesis using 1 [OF True refl refl] b
      by (subst random_loop.simps) (auto simp: Let_def)
  qed (simp add: random_loop.simps)
qed

text \<open>The digits determine the random words they were made of.\<close>

lemma hex_of_byte_inj: "a < 256 \<Longrightarrow> b < 256 \<Longrightarrow> hex_of_byte a = hex_of_byte b \<longleftrightarrow> a = b"
proof -
  have inj: "x = y" if "x < 16" "y < 16" "hex_lower x = hex_lower y" for x y
    by (rule option.inject [THEN iffD1]) (simp only: hex_val_lower [OF that(1), symmetric] that(3) hex_val_lower [OF that(2)])
  assume "a < 256" "b < 256"
  then have q: "a div 16 < 16" "b div 16 < 16" by (simp_all add: div_less_iff_less_mult)
  show ?thesis
  proof
    assume h: "hex_of_byte a = hex_of_byte b"
    then have "a div 16 = b div 16" using q by (intro inj) (simp_all add: hex_of_byte_def)
    moreover have "a mod 16 = b mod 16" using h by (intro inj) (simp_all add: hex_of_byte_def)
    ultimately show "a = b" using div_mult_mod_eq [of a 16] div_mult_mod_eq [of b 16] by metis
  qed simp
qed

lemma concat_map_inj:
  "(\<And>x. x \<in> set xs \<Longrightarrow> length (f x) = length (g x)) \<Longrightarrow>
     concat (map f xs) = concat (map g xs) \<longleftrightarrow> (\<forall>x\<in>set xs. f x = g x)"
  by (induction xs) auto

lemma word_of_bytes_eq:
  fixes v w :: u64
  assumes "\<And>i. i < 8 \<Longrightarrow> drop_bit (8 * i) v AND 0xFF = drop_bit (8 * i) w AND 0xFF"
  shows "v = w"
proof (rule bit_eqI)
  fix n assume "possible_bit TYPE(u64) n"
  then have "n div 8 < 8" by (simp add: possible_bit_def)
  then have "bit (drop_bit (8 * (n div 8)) v AND 0xFF) (n mod 8) = bit (drop_bit (8 * (n div 8)) w AND 0xFF) (n mod 8)"
    using assms by simp
  moreover have "n mod 8 < 64" by (rule less_trans [of _ 8]) simp_all
  moreover have "(0xFF :: u64) = mask 8" by (simp add: mask_eq_exp_minus_1)
  ultimately show "bit v n = bit w n"
    by (simp add: bit_and_iff bit_mask_iff bit_drop_bit_eq)
qed

definition word_digits :: "u64 \<Rightarrow> string" where
  "word_digits v = concat (map (\<lambda>i. hex_of_byte (unat (drop_bit (8 * i) v AND 0xFF))) [0..<8])"

lemma word_digits_length: "length (word_digits v) = 16"
  by (simp add: word_digits_def hex_of_byte_def upt_rec)

lemma word_digits_inj: "word_digits v = word_digits w \<longleftrightarrow> v = w"
proof
  assume "word_digits v = word_digits w"
  then have h: "hex_of_byte (unat (drop_bit (8 * i) v AND 0xFF)) = hex_of_byte (unat (drop_bit (8 * i) w AND 0xFF))"
    if "i < 8" for i
    using that concat_map_inj [of "[0..<8]" "\<lambda>i. hex_of_byte (unat (drop_bit (8 * i) v AND 0xFF))"
        "\<lambda>i. hex_of_byte (unat (drop_bit (8 * i) w AND 0xFF))"]
    by (simp add: word_digits_def hex_of_byte_def)
  show "v = w"
  proof (rule word_of_bytes_eq)
    fix i :: nat assume "i < 8"
    from h [OF this] have "unat (drop_bit (8 * i) v AND 0xFF) = unat (drop_bit (8 * i) w AND 0xFF)"
      unfolding hex_of_byte_inj [OF low_byte_bound low_byte_bound] .
    then show "drop_bit (8 * i) v AND 0xFF = drop_bit (8 * i) w AND 0xFF" by (simp only: word_unat_eq_iff)
  qed
qed simp

lemma random_hex_16: "random_hex draw 16 = word_digits (draw 0) @ word_digits (draw 1)"
  by (simp add: random_hex_def random_loop.simps [of draw 0 16] random_loop.simps [of draw "Suc 0" 8]
      random_loop.simps [of draw _ 0] word_digits_def Let_def)

section \<open>Saving and loading\<close>

lemma to_json_not_empty: "json_ok v \<Longrightarrow> to_json v p i \<noteq> []"
  by (erule to_json_head [of v p i 0]) (simp add: to_json_def)

lemma session_load_saved:
  assumes "json_ok v" "session_id r \<noteq> []"
    and "fst (read_entire_file_cached cfg now later d d (session_path g (session_id r)) st) = to_json v False 0"
  shows "fst (session_load g cfg now later d (r, st)) \<and>
    fst (snd (session_load g cfg now later d (r, st))) = r\<lparr>session := v\<rparr>"
proof -
  have "parse_json (to_json v False 0) = (Some v, None)"
    using read_back(1) [OF assms(1), of "[]" False 0 0] by (simp add: parse_json_def to_json_def skip_ws_def)
  then show ?thesis using assms(2,3) to_json_not_empty [OF assms(1), of False 0]
    by (auto simp: session_load_def split: prod.splits)
qed

text \<open>A save without the directory fails and leaves the disk and the cache alone; one that finds or makes
  it is \<open>session_save\<close>, and finds it the next time.\<close>

lemma save_without_directory:
  assumes "session_storage_path g \<noteq> []" "\<not> fst (mkdir_if_not_exists made (session_storage_path g) dirs)"
  shows "session_save_dirs g cfg made may_open cut_off mt wall now r (dirs, d, st) = (False, dirs, d, st)"
  using assms
  by (auto simp: session_save_dirs_def mkdir_if_not_exists_def session_save_def write_entire_file_def
      split: option.splits if_splits)

lemma save_with_directory:
  assumes "fst (mkdir_if_not_exists made (session_storage_path g) dirs)" "session_id r \<noteq> []"
    and "session_save g cfg may_open cut_off mt wall now r (d, st) = (b, d', st')"
  shows "\<exists>dirs'. session_save_dirs g cfg made may_open cut_off mt wall now r (dirs, d, st) = (b, dirs', d', st') \<and>
    dirs' (session_storage_path g) = Some True \<and> (\<forall>made'. mkdir_if_not_exists made' (session_storage_path g) dirs' = (True, dirs'))"
  using assms
  by (intro exI [of _ "snd (mkdir_if_not_exists made (session_storage_path g) dirs)"])
    (auto simp: session_save_dirs_def mkdir_if_not_exists_def split: option.splits if_splits)

section \<open>Properties\<close>

text \<open>A fresh session identifier is 32 hexadecimal digits and carries all 128 random bits: two draws
  give the same identifier only if they drew the same two words.\<close>

theorem session_id_random:
  "length (random_hex draw 16) = 32 \<and> list_all (\<lambda>c. isdigit c \<or> c \<in> set ''abcdef'') (random_hex draw 16) \<and>
   (random_hex draw 16 = random_hex draw' 16 \<longleftrightarrow> draw 0 = draw' 0 \<and> draw 1 = draw' 1)"
proof (intro conjI)
  have "\<forall>c\<in>set hex_digits. isdigit c \<or> c \<in> set ''abcdef''" by (simp add: hex_digits_def isdigit_def)
  then show "list_all (\<lambda>c. isdigit c \<or> c \<in> set ''abcdef'') (random_hex draw 16)"
    using random_loop_hex [of draw 0 16] by (auto simp: list_all_iff random_hex_def)
qed (simp_all add: random_hex_16 word_digits_length word_digits_inj)

text \<open>A session that was saved is loaded again, as it was, by the next request with its identifier,
  through the cache or from the disk.\<close>

theorem session_saved_is_loaded:
  assumes "store_inv cfg st" "\<forall>e\<in>set (file_cache st). last_check (snd e) < later" "now < later"
    and "session_save g cfg opened cut_off mt wall now r (d, st) = (True, d', st')"
    and "json_ok (session r)" "session_id r' = session_id r"
  shows "fst (session_load g cfg t later d' (r', st')) \<and>
    fst (snd (session_load g cfg t later d' (r', st'))) = r'\<lparr>session := session r\<rparr>"
proof -
  have i: "session_id r \<noteq> []"
    and w: "write_entire_file cfg opened cut_off mt wall now (session_path g (session_id r))
      (to_json (session r) False 0) (d, st) = (True, d', st')"
    using assms(4) by (auto simp: session_save_def split: if_splits)
  note W = written_entries [OF assms(1) w]
  have "\<forall>e\<in>set (file_cache st'). last_check (snd e) < later" using W(4) assms(2,3) by auto
  then have "fst (read_entire_file_cached cfg t later d' d' (session_path g (session_id r)) st') = to_json (session r) False 0"
    by (intro read_when_coherent W(2,3)) (simp_all add: W(1))
  then show ?thesis using assms(5,6) i by (intro session_load_saved) simp_all
qed

definition demo_session :: request where
  "demo_session = (request_new 0 0)\<lparr>session_id := ''ab'', session := OBJECT [(''k'', STRING ''v'')]\<rparr>"

lemma empty_store_inv: "store_inv cfg empty_store"
  by (simp add: store_inv_def store_ok_def empty_store_def entries_ok_def entry_sizes_def)

theorem session_saved_is_loaded_witness:
  "case session_save default_config demo_config True None 5 5 10 demo_session (Map.empty, empty_store) of
     (b, d', st') \<Rightarrow>
       b \<and> fst (session_load default_config demo_config 20 21 d' ((request_new 1 0)\<lparr>session_id := ''ab''\<rparr>, st')) \<and>
       fst (snd (session_load default_config demo_config 20 21 d' ((request_new 1 0)\<lparr>session_id := ''ab''\<rparr>, st'))) =
       (request_new 1 0)\<lparr>session_id := ''ab'', session := session demo_session\<rparr>"
proof -
  obtain b d' st' where w:
    "session_save default_config demo_config True None 5 5 10 demo_session (Map.empty, empty_store) = (b, d', st')"
    by (metis prod_cases3)
  then have b: "b" by (auto simp: session_save_def write_entire_file_def demo_session_def split: if_splits)
  have "fst (session_load default_config demo_config 20 21 d' ((request_new 1 0)\<lparr>session_id := ''ab''\<rparr>, st')) \<and>
       fst (snd (session_load default_config demo_config 20 21 d' ((request_new 1 0)\<lparr>session_id := ''ab''\<rparr>, st'))) =
       (request_new 1 0)\<lparr>session_id := ''ab''\<rparr>\<lparr>session := session demo_session\<rparr>"
    using w b by (intro session_saved_is_loaded [OF empty_store_inv, where now = 10])
      (simp_all add: empty_store_def demo_session_def)
  then show ?thesis using w b by simp
qed

text \<open>C13: a session whose numbers are whole numbers below a million in absolute value, and whose objects
  have one entry per key, is loaded again, as it was saved, by every later request with its identifier,
  whatever files were read in between and whatever other files were written or removed, those of all
  other sessions among them, with everything the cache evicts on the way. The save has to succeed, the
  file cache to be as its operations leave it, and the clock to move on between the accesses to the file.\<close>

theorem session_survives:
  assumes "files_ready cfg t (d, st)" "t \<le> now"
    and "session_save g cfg opened cut_off mt wall now r (d, st) = (True, d', st')"
    and "json_plain (session r)" "session_id r' = session_id r"
    and "undisturbed (now + 1) (session_path g (session_id r)) ops" "clock_after (now + 1) ops \<le> later"
    and "fold (file_op_step (files_read cfg) (files_write cfg) files_remove) ops (d', st') = (d'', st'')"
  shows "fst (session_load g cfg u later d'' (r', st'')) \<and>
    fst (snd (session_load g cfg u later d'' (r', st''))) = r'\<lparr>session := session r\<rparr>"
proof -
  have i: "session_id r \<noteq> []"
    and w: "files_write cfg (opened, cut_off, mt, wall) now (session_path g (session_id r)) (to_json (session r) False 0) (d, st) =
      (True, d', st')"
    using assms(3) by (auto simp: session_save_def files_write_def split: if_splits)
  have "fst (read_entire_file_cached cfg u later d'' d'' (session_path g (session_id r)) st'') = to_json (session r) False 0"
    using cached.read_later [OF assms(1,2) w assms(6,7), of u] unfolding assms(8)
    by (simp add: files_read_def case_prod_beta)
  then show ?thesis using json_plain_ok [OF assms(4)] assms(5) i by (intro session_load_saved) simp_all
qed

text \<open>Different sessions are in different files.\<close>

lemma session_path_inj: "session_path g i = session_path g j \<longleftrightarrow> i = j"
  by (simp add: session_path_def Let_def)

definition demo_other_session :: "(string, string, bool \<times> string option \<times> int \<times> int) file_op list" where
  "demo_other_session =
     [Write_file (True, None, 12, 12) 12 (session_path default_config ''cd'') ''{}'',
      Read_file 14 15 (session_path default_config ''cd''), Remove_file (session_path default_config ''cd'')]"

theorem session_survives_witness:
  "case session_save default_config demo_config True None 5 5 10 demo_session (Map.empty, empty_store) of
     (b, d', st') \<Rightarrow>
       case fold (file_op_step (files_read demo_config) (files_write demo_config) files_remove) demo_other_session (d', st') of
         (d'', st'') \<Rightarrow>
           b \<and> fst (session_load default_config demo_config 20 21 d'' ((request_new 1 0)\<lparr>session_id := ''ab''\<rparr>, st'')) \<and>
           fst (snd (session_load default_config demo_config 20 21 d'' ((request_new 1 0)\<lparr>session_id := ''ab''\<rparr>, st''))) =
           (request_new 1 0)\<lparr>session_id := ''ab''\<rparr>\<lparr>session := session demo_session\<rparr>"
proof -
  obtain b d' st' where w:
    "session_save default_config demo_config True None 5 5 10 demo_session (Map.empty, empty_store) = (b, d', st')"
    by (metis prod_cases3)
  then have b: "b" by (auto simp: session_save_def write_entire_file_def demo_session_def split: if_splits)
  obtain d'' st'' where f: "fold (file_op_step (files_read demo_config) (files_write demo_config) files_remove) demo_other_session (d', st') =
      (d'', st'')" by force
  have u: "undisturbed (10 + 1) (session_path default_config (session_id demo_session)) demo_other_session"
    by (simp add: demo_other_session_def session_path_inj demo_session_def)
  have r: "files_ready demo_config 10 (Map.empty, empty_store)" by (simp add: files_ready_def empty_store_inv) (simp add: empty_store_def)
  show ?thesis unfolding w f prod.case
    using session_survives [OF r _ w [unfolded eqTrueI [OF b]] _ _ u _ f, of "(request_new 1 0)\<lparr>session_id := ''ab''\<rparr>" 21 20] b
    by (simp add: demo_session_def demo_other_session_def)
qed

text \<open>\<open>session_start\<close> never looks at the identifier the client sent: whatever the session cookie holds,
  the request gets a new identifier and an empty session, and no cookie tells the client of it.\<close>

theorem session_start_forgets_cookie:
  assumes "session_id r = []" "dv_find (session_cookie_name g) (cookies r) = Some ck"
    and "d (session_path g (random_hex draw 16)) = None"
    and "map_of (file_cache st) (session_path g (random_hex draw 16)) = None" "store_inv cfg st"
  shows "fst (session_start g cfg draw now later d (r, st)) \<and>
    fst (snd (session_start g cfg draw now later d (r, st))) = r\<lparr>session_id := random_hex draw 16, session := NIL\<rparr>"
proof -
  have ne: "random_hex draw 16 \<noteq> []"
    using word_digits_length [of "draw 0"] by (auto simp: random_hex_16)
  obtain r1 st1 where l: "cache_lookup cfg now (session_path g (random_hex draw 16)) st = (r1, st1)" by force
  have "r1 = None" using cache_lookup_inv(3) [OF assms(5) l] assms(4) by (cases r1) auto
  then have "read_entire_file_cached cfg now later d d (session_path g (random_hex draw 16)) st = ([], st1)"
    using l assms(3) by (simp add: read_entire_file_cached_def)
  then show ?thesis using assms(1,2) ne
    by (simp add: session_start_def session_get_id_def session_load_def dv_clear_def)
qed

theorem session_start_forgets_cookie_witness:
  "let r = (request_new 0 0)\<lparr>cookies := OBJECT [(''session_id'', STRING ''0123'')]\<rparr> in
   fst (session_start default_config demo_config (\<lambda>_. 7) 1 2 Map.empty (r, empty_store)) \<and>
   fst (snd (session_start default_config demo_config (\<lambda>_. 7) 1 2 Map.empty (r, empty_store))) =
   r\<lparr>session_id := random_hex (\<lambda>_. 7) 16, session := NIL\<rparr>"
  unfolding Let_def
  by (rule session_start_forgets_cookie [OF _ _ _ _ empty_store_inv])
    (simp_all add: request_new_def default_config_def empty_store_def)

text \<open>\<open>session_clear\<close> removes the file but not the copy in the cache: within a second of the save, and
  unless the cache is just being maintained, the cleared session is loaded as if it were still there.\<close>

theorem cleared_session_still_loaded:
  assumes "store_inv cfg st" "list_all (\<lambda>e. last_check (snd e) < now) (file_cache st)"
    and "session_save g cfg True None mt wall now r (d, st) = (True, d', st')"
    and "length (to_json (session r) False 0) \<le> file_cache_max_size cfg" "json_ok (session r)"
    and "(call_counter st' + 1) mod 10 \<noteq> 0" "t < now + 1000000000" "session_id r' = session_id r"
  shows "let d'' = snd (snd (session_clear g (r, d'))) in
    d'' (session_path g (session_id r)) = None \<and>
    fst (session_load g cfg t later d'' (r', st')) \<and>
    fst (snd (session_load g cfg t later d'' (r', st'))) = r'\<lparr>session := session r\<rparr>"
proof -
  let ?f = "session_path g (session_id r)" and ?c = "to_json (session r) False 0"
  let ?e = "\<lparr>content = ?c, mtime = wall, last_check = now, fsize = length ?c\<rparr>"
  have i: "session_id r \<noteq> []" and st': "st' = evict_size cfg (insert_entry ?f ?c wall now st)"
    using assms(3,4) by (auto simp: session_save_def write_entire_file_def split: if_splits)
  have "map_of (file_cache (insert_entry ?f ?c wall now st)) ?f = Some ?e"
    by (simp add: insert_entry_cache map_of_emplace delete_conv')
  moreover have "\<forall>e\<in>set (file_cache (insert_entry ?f ?c wall now st)). fst e \<noteq> ?f \<longrightarrow> last_check (snd e) < last_check ?e"
    using assms(2) set_emplace [of ?f ?e "AList.delete ?f (file_cache st)"]
    by (auto simp: insert_entry_cache set_delete list_all_iff)
  ultimately have m: "map_of (file_cache st') ?f = Some ?e"
    unfolding st' using assms(1,4) by (intro evict_size_newest insert_entry_ok) (simp_all add: store_inv_def)
  have "fst (read_entire_file_cached cfg t later d'' d'' ?f st') = ?c" for d''
    using m assms(6,7) by (simp add: read_entire_file_cached_def cache_lookup_def maybe_maintain_def Let_def)
  then show ?thesis using i assms(5,8)
    by (auto simp: session_clear_def Let_def intro!: session_load_saved [THEN conjunct1] session_load_saved [THEN conjunct2])
qed

definition roomy_config :: cache_config where
  "roomy_config = \<lparr>file_cache_ttl = 600000000000, file_cache_max_size = 1000\<rparr>"

theorem cleared_session_still_loaded_witness:
  "case session_save default_config roomy_config True None 5 5 10 demo_session (Map.empty, empty_store) of
     (_, d', st') \<Rightarrow>
       let d'' = snd (snd (session_clear default_config (demo_session, d'))) in
       d'' (session_path default_config (session_id demo_session)) = None \<and>
       fst (session_load default_config roomy_config 20 21 d'' ((request_new 1 0)\<lparr>session_id := ''ab''\<rparr>, st')) \<and>
       fst (snd (session_load default_config roomy_config 20 21 d'' ((request_new 1 0)\<lparr>session_id := ''ab''\<rparr>, st'))) =
       (request_new 1 0)\<lparr>session_id := ''ab''\<rparr>\<lparr>session := session demo_session\<rparr>"
proof -
  have len: "length (to_json (session demo_session) False 0) = 9"
    by (simp add: demo_session_def to_json_def json_escape_def escape_char_def indent_fn_def newline_def)
  obtain b d' st' where w:
    "session_save default_config roomy_config True None 5 5 10 demo_session (Map.empty, empty_store) = (b, d', st')"
    by (metis prod_cases3)
  then have b: "b" by (auto simp: session_save_def write_entire_file_def demo_session_def split: if_splits)
  have "call_counter st' = 0" using w len
    by (auto simp: session_save_def write_entire_file_def demo_session_def roomy_config_def evict_size_def
        insert_entry_def remove_entry_def empty_store_def Let_def split: prod.splits if_splits)
  then show ?thesis using len b unfolding w prod.case
    by (intro cleared_session_still_loaded [OF empty_store_inv _ w [unfolded eqTrueI [OF b]]])
      (simp_all add: empty_store_def demo_session_def roomy_config_def)
qed

end
