(* ===== verification/Placement.thy ===== *)
theory Placement
  imports Memory Request "HOL-Library.Multiset"
begin

text \<open>
  Where requests live. Both servers take an arena from the pool, reserve \<open>sizeof(Request)\<close> bytes at
  its start and construct the request there (\<open>allocate_request\<close> in fcgi-connection.cpp,
  \<open>schedule_message\<close> and \<open>schedule_http\<close> in websockets.cpp), and give the arena back when the request
  is destroyed. The size and the alignment of the class are those of the platform, arguments here;
  the pool comes with the contents of the address space, because \<open>alloc\<close> clears what it hands out.
\<close>

record request_pool =
  manager :: arena_manager
  ram :: mem
  request_size :: size_t
  request_align :: size_t

definition place_request :: "nat \<Rightarrow> request_pool \<Rightarrow> request option \<times> request_pool" where
  "place_request now w =
     (case manager_get (manager w) of
        (None, m) \<Rightarrow> (None, w\<lparr>manager := m\<rparr>)
      | (Some p, m) \<Rightarrow>
          (case arena_alloc (request_size w) (request_align w) (arenas m ! p, ram w) of
             (None, _, _) \<Rightarrow> (None, w\<lparr>manager := manager_release (Some p) m\<rparr>)
           | (Some _, a, mem) \<Rightarrow>
               (Some (request_new p now), w\<lparr>manager := m\<lparr>arenas := (arenas m)[p := a]\<rparr>, ram := mem\<rparr>)))"

definition drop_request :: "request \<Rightarrow> request_pool \<Rightarrow> request_pool" where
  "drop_request r w = w\<lparr>manager := manager_release (Some (arena r)) (manager w)\<rparr>"

section \<open>The pool while requests live in it\<close>

text \<open>
  The arenas that are not in use are empty, every arena has room for a request at its start, and
  the manager's own invariant holds.
\<close>

definition roomy :: "request_pool \<Rightarrow> arena \<Rightarrow> bool" where
  "roomy w a \<longleftrightarrow> fst (arena_alloc (request_size w) (request_align w) (arena_reset a, ram w)) \<noteq> None"

definition pool_ok :: "request_pool \<Rightarrow> bool" where
  "pool_ok w \<longleftrightarrow> manager_ok (manager w) \<and>
     (\<forall>p\<in>free_arenas (manager w). a_offset (arenas (manager w) ! p) = 0) \<and>
     (\<forall>a\<in>set (arenas (manager w)). roomy w a)"

lemma roomy_cong: "a_data a = a_data b \<Longrightarrow> a_capacity a = a_capacity b \<Longrightarrow> request_size w = request_size w' \<Longrightarrow>
    request_align w = request_align w' \<Longrightarrow> roomy w a = roomy w' b"
  by (simp add: roomy_def arena_alloc_def arena_reset_def Let_def)

lemma alloc_keeps_block:
  "arena_alloc sz al (a, m) = (Some q, a', m') \<Longrightarrow>
    a_data a' = a_data a \<and> a_capacity a' = a_capacity a \<and> management_flag a' = management_flag a"
  by (auto simp: arena_alloc_def Let_def split: if_splits)

lemma roomy_alloc:
  "roomy w a \<Longrightarrow> a_offset a = 0 \<Longrightarrow> \<exists>q a' m'. arena_alloc (request_size w) (request_align w) (a, ram w) = (Some q, a', m')"
  by (auto simp: roomy_def arena_reset_def arena_alloc_def Let_def split: if_splits)

lemma place_request_free:
  assumes "pool_ok w" "free_arenas (manager w) \<noteq> {}"
  obtains p w' where "place_request now w = (Some (request_new p now), w')" "p \<in> free_arenas (manager w)"
    "free_arenas (manager w') = free_arenas (manager w) - {p}" "all_arenas (manager w') = all_arenas (manager w)"
    "pool_ok w'" "request_size w' = request_size w" "request_align w' = request_align w"
proof -
  have ok: "manager_ok (manager w)" using assms(1) by (simp add: pool_ok_def)
  obtain g m where g: "manager_get (manager w) = (g, m)" by force
  have "g \<noteq> None" using manager_get_None(2) [OF ok] g assms(2) by auto
  then obtain p where "g = Some p" by blast
  note g = g [unfolded this]
  note G = manager_get_Some [OF ok g]
  have p: "p < length (arenas m)" using G(1) ok
    unfolding G(5) by (simp add: free_arenas_def manager_ok_def)
  have "roomy w (arenas m ! p)" "a_offset (arenas m ! p) = 0"
    using assms(1) G(1) p unfolding G(5) pool_ok_def by auto
  from roomy_alloc [OF this] obtain q a mem where
    a: "arena_alloc (request_size w) (request_align w) (arenas m ! p, ram w) = (Some q, a, mem)" by blast
  note A = alloc_keeps_block [OF a]
  define w' where "w' = w\<lparr>manager := m\<lparr>arenas := (arenas m)[p := a]\<rparr>, ram := mem\<rparr>"
  have "place_request now w = (Some (request_new p now), w')"
    by (simp add: place_request_def g a w'_def)
  moreover have fr: "free_arenas (manager w') = free_arenas (manager w) - {p}"
    using G(2) by (simp add: w'_def free_arenas_def)
  moreover have "all_arenas (manager w') = all_arenas (manager w)"
    using G(3) by (simp add: w'_def all_arenas_def)
  moreover have "pool_ok w'"
    unfolding pool_ok_def
  proof (intro conjI ballI)
    show "manager_ok (manager w')" using G(4) A p
      by (simp add: w'_def manager_ok_def nth_list_update)
    show "a_offset (arenas (manager w') ! i) = 0" if "i \<in> free_arenas (manager w')" for i
      using that assms(1) G(5) unfolding fr by (auto simp: w'_def pool_ok_def)
    show "roomy w' b" if "b \<in> set (arenas (manager w'))" for b
    proof -
      from that consider "b = a" | "b \<in> set (arenas m)" using set_update_subset_insert [of "arenas m" p a]
        by (auto simp: w'_def)
      then show ?thesis
      proof cases
        case 1
        have "roomy w (arenas m ! p)" using assms(1) G(5) p by (simp add: pool_ok_def)
        then show ?thesis using A 1 roomy_cong [of b "arenas m ! p" w' w] by (simp add: w'_def)
      next
        case 2
        then have "roomy w b" using assms(1) G(5) by (simp add: pool_ok_def)
        then show ?thesis using roomy_cong [of b b w' w] by (simp add: w'_def)
      qed
    qed
  qed
  ultimately show ?thesis using G(1) by (intro that [of p w']) (simp_all add: w'_def)
qed

lemma place_request_full:
  "pool_ok w \<Longrightarrow> free_arenas (manager w) = {} \<Longrightarrow> place_request now w = (None, w)"
proof -
  assume a: "pool_ok w" "free_arenas (manager w) = {}"
  then have ok: "manager_ok (manager w)" by (simp add: pool_ok_def)
  obtain g m where g: "manager_get (manager w) = (g, m)" by force
  show ?thesis
  proof (cases g)
    case None
    with manager_get_None(1) [OF ok] g show ?thesis by (simp add: place_request_def)
  next
    case (Some p)
    with manager_get_Some(1) [OF ok] g a(2) show ?thesis by auto
  qed
qed

lemma drop_request_ok:
  assumes "pool_ok w" "arena r \<in> all_arenas (manager w)"
  shows "pool_ok (drop_request r w)"
    "free_arenas (manager (drop_request r w)) = insert (arena r) (free_arenas (manager w))"
    "all_arenas (manager (drop_request r w)) = all_arenas (manager w)"
proof -
  have ok: "manager_ok (manager w)" using assms(1) by (simp add: pool_ok_def)
  note R = manager_release_ok [OF ok assms(2)]
  show "free_arenas (manager (drop_request r w)) = insert (arena r) (free_arenas (manager w))"
    "all_arenas (manager (drop_request r w)) = all_arenas (manager w)" using R by (simp_all add: drop_request_def)
  let ?p = "arena r" and ?m = "manager w"
  have p: "?p < length (arenas ?m)" "unat (management_flag (arenas ?m ! ?p)) = ?p" "length (in_use ?m) = length (arenas ?m)"
    using assms(2) ok by (auto simp: all_arenas_def manager_ok_def)
  have cases: "manager (drop_request r w) = ?m \<and> ?p \<in> free_arenas ?m \<or>
      arenas (manager (drop_request r w)) = (arenas ?m)[?p := arena_reset (arenas ?m ! ?p)]"
    using p by (auto simp: drop_request_def manager_release_def free_arenas_def Let_def)
  show "pool_ok (drop_request r w)"
    unfolding pool_ok_def
  proof (intro conjI ballI)
    show "manager_ok (manager (drop_request r w))" using R(1) by (simp add: drop_request_def)
    show "a_offset (arenas (manager (drop_request r w)) ! i) = 0" if "i \<in> free_arenas (manager (drop_request r w))" for i
      using that cases assms(1) R(2) p
      by (auto simp: drop_request_def pool_ok_def nth_list_update arena_reset_def)
    show "roomy (drop_request r w) a" if "a \<in> set (arenas (manager (drop_request r w)))" for a
    proof -
      have "a \<in> set (arenas ?m) \<or> a = arena_reset (arenas ?m ! ?p)"
        using that cases set_update_subset_insert [of "arenas ?m" ?p "arena_reset (arenas ?m ! ?p)"] by auto
      then have "\<exists>b\<in>set (arenas ?m). a_data a = a_data b \<and> a_capacity a = a_capacity b"
        using nth_mem [OF p(1)] by (auto simp: arena_reset_def)
      then obtain b where "b \<in> set (arenas ?m)" "a_data a = a_data b" "a_capacity a = a_capacity b" by blast
      then show ?thesis using assms(1) roomy_cong [of a b "drop_request r w" w]
        by (simp add: pool_ok_def drop_request_def)
    qed
  qed
qed

text \<open>A pool as \<open>main\<close> creates it, when every block \<open>malloc\<close> returned has room for a request.\<close>

lemma fresh_pool_ok:
  assumes "manager_ok m" "\<forall>a\<in>set (arenas m). a_offset a = 0"
    and "\<forall>a\<in>set (arenas m). roomy \<lparr>manager = m, ram = mem, request_size = sz, request_align = al\<rparr> a"
  shows "pool_ok \<lparr>manager = m, ram = mem, request_size = sz, request_align = al\<rparr>"
  using assms by (auto simp: pool_ok_def free_arenas_def manager_ok_def)

section \<open>Held and free\<close>

text \<open>Both servers keep their requests' arenas and the free arenas in balance with the pool.\<close>

lemma count_mset_set_le: "count (mset_set A) x \<le> 1"
  by (cases "finite A \<and> x \<in> A") auto

lemma distinct_of_counts: "(\<And>a. count (mset xs) a \<le> 1) \<Longrightarrow> distinct xs"
proof (induction xs)
  case (Cons x xs)
  have c: "count (mset (x # xs)) a = (if x = a then 1 else 0) + count (mset xs) a" for a by simp
  have "count (mset xs) a \<le> 1" for a using Cons.prems [of a] c [of a] by linarith
  moreover have "count (mset xs) x = 0" using Cons.prems [of x] unfolding c by simp
  then have "x \<notin> set xs" by (simp only: count_mset_0_iff not_False_eq_True)
  ultimately show ?case using Cons.IH by simp
qed simp

text \<open>
  A pool whose free members are finitely many, seen as a balance: what is held, each time it is held,
  and what is free add up to a fixed multiset, whoever holds it.
\<close>

locale counted_pool = resource_pool acquire release free every inv
  for acquire :: "'m \<Rightarrow> nat option \<times> 'm"
    and release :: "nat \<Rightarrow> 'm \<Rightarrow> 'm"
    and free :: "'m \<Rightarrow> nat set"
    and every :: "'m \<Rightarrow> nat set"
    and inv :: "'m \<Rightarrow> bool" +
  assumes free_finite: "inv m \<Longrightarrow> finite (free m)"
begin

definition balance :: "nat multiset \<Rightarrow> nat multiset \<Rightarrow> 'm \<Rightarrow> bool" where
  "balance M held m \<longleftrightarrow> inv m \<and> held + mset_set (free m) = M"

lemma balance_acquire:
  assumes "balance M held m" "acquire m = (Some p, m')"
  shows "balance M (add_mset p held) m'"
proof -
  have ok: "inv m" using assms(1) by (simp add: balance_def)
  from acquire_Some [OF ok assms(2)] have p: "inv m'" "p \<in> free m" "free m' = free m - {p}" by simp_all
  have "mset_set (free m) = add_mset p (mset_set (free m'))"
    unfolding p(3) by (rule mset_set.remove [OF free_finite [OF ok] p(2)])
  with assms(1) p(1) show ?thesis by (simp add: balance_def)
qed

lemma balance_refused: "balance M held m \<Longrightarrow> acquire m = (None, m') \<Longrightarrow> balance M held m'"
  using acquire_None [of m m'] by (auto simp: balance_def)

lemma balance_release:
  assumes "balance M (add_mset p held) m" "p \<in> every m" "p \<notin> free m"
  shows "balance M held (release p m)"
  using assms release_law [of m p] free_finite [of m] by (auto simp: balance_def)

text \<open>When each member is counted once, what is held is not free.\<close>

lemma balance_held:
  assumes "balance (mset_set B) held m" "p \<in># held"
  shows "p \<notin> free m" "p \<in> B"
proof -
  have ok: "inv m" "count held p + count (mset_set (free m)) p = count (mset_set B) p"
    using assms(1) by (auto simp: balance_def simp flip: count_union)
  have pos: "1 \<le> count held p" using assms(2) by simp
  have le: "count (mset_set B) p \<le> 1" by (rule count_mset_set_le)
  show "p \<notin> free m"
  proof
    assume "p \<in> free m"
    then have "count (mset_set (free m)) p = 1" using free_finite [OF ok(1)] by simp
    with ok(2) pos le show False by linarith
  qed
  have "count (mset_set B) p \<noteq> 0" using ok(2) pos by linarith
  then show "p \<in> B" by (metis count_mset_set(2,3))
qed

lemma balance_split:
  assumes "balance (mset_set B) (mset held) m" "finite B"
  shows "distinct held" "set held \<inter> free m = {}" "set held \<union> free m = B"
proof -
  have ok: "inv m" "mset held + mset_set (free m) = mset_set B" using assms(1) by (simp_all add: balance_def)
  show "distinct held"
  proof (rule distinct_of_counts)
    show "count (mset held) a \<le> 1" for a
      using arg_cong [OF ok(2), of "\<lambda>M. count M a"] count_mset_set_le [of B a] by simp
  qed
  show "set held \<inter> free m = {}" using balance_held(1) [OF assms(1)] by auto
  show "set held \<union> free m = B" using arg_cong [OF ok(2), of set_mset] assms(2) free_finite [OF ok(1)] by simp
qed

end

text \<open>Requests as the members: taking a place and giving it back.\<close>

definition take_place :: "nat \<Rightarrow> request_pool \<Rightarrow> nat option \<times> request_pool" where
  "take_place now w = (case place_request now w of (r, w') \<Rightarrow> (map_option arena r, w'))"

definition give_place :: "nat \<Rightarrow> request_pool \<Rightarrow> request_pool" where
  "give_place p w = w\<lparr>manager := manager_release (Some p) (manager w)\<rparr>"

lemma drop_request_place: "drop_request r w = give_place (arena r) w"
  by (simp add: drop_request_def give_place_def)

interpretation places: counted_pool "take_place now" give_place "\<lambda>w. free_arenas (manager w)"
  "\<lambda>w. all_arenas (manager w)" pool_ok for now
proof
  fix w w' p assume ok: "pool_ok w" and t: "take_place now w = (Some p, w')"
  show "pool_ok w' \<and> p \<in> free_arenas (manager w) \<and> free_arenas (manager w') = free_arenas (manager w) - {p} \<and>
      all_arenas (manager w') = all_arenas (manager w)"
  proof (cases "free_arenas (manager w) = {}")
    case True
    with place_request_full [OF ok this, of now] t show ?thesis by (simp add: take_place_def)
  next
    case False
    obtain a v where "place_request now w = (Some (request_new a now), v)" "a \<in> free_arenas (manager w)"
      "free_arenas (manager v) = free_arenas (manager w) - {a}" "all_arenas (manager v) = all_arenas (manager w)" "pool_ok v"
      by (rule place_request_free [OF ok False, of now]) blast
    with t show ?thesis by (simp add: take_place_def)
  qed
next
  fix w w' assume ok: "pool_ok w" and t: "take_place now w = (None, w')"
  show "w' = w \<and> free_arenas (manager w) = {}"
  proof (cases "free_arenas (manager w) = {}")
    case True
    with place_request_full [OF ok this, of now] t show ?thesis by (simp add: take_place_def)
  next
    case False
    obtain a v where "place_request now w = (Some (request_new a now), v)" "a \<in> free_arenas (manager w)"
      "free_arenas (manager v) = free_arenas (manager w) - {a}" "all_arenas (manager v) = all_arenas (manager w)" "pool_ok v"
      by (rule place_request_free [OF ok False, of now]) blast
    with t show ?thesis by (simp add: take_place_def)
  qed
next
  fix w p assume "pool_ok w" "p \<in> all_arenas (manager w)"
  then show "pool_ok (give_place p w) \<and> free_arenas (manager (give_place p w)) = insert p (free_arenas (manager w)) \<and>
      all_arenas (manager (give_place p w)) = all_arenas (manager w)"
    using drop_request_ok [of w "request_new p 0"] by (simp add: drop_request_place)
next
  fix w assume "pool_ok w"
  then show "free_arenas (manager w) \<subseteq> all_arenas (manager w)"
    by (intro arenas.free_subset) (simp add: pool_ok_def)
qed simp

text \<open>A small pool: two arenas of 64 bytes, requests of 8 bytes.\<close>

definition demo_pool :: request_pool where
  "demo_pool = \<lparr>manager = create_arenas (\<lambda>i. 4096 * of_nat (i + 1)) 2 64, ram = (\<lambda>_. 0), request_size = 8, request_align = 8\<rparr>"

lemma demo_arenas: "arenas (manager demo_pool) =
    [\<lparr>a_data = 4096, a_capacity = 64, a_offset = 0, management_flag = 0\<rparr>,
     \<lparr>a_data = 8192, a_capacity = 64, a_offset = 0, management_flag = 1\<rparr>]"
  by (simp add: demo_pool_def create_arenas_def arena_create_def arena_reset_def upt_rec)

lemma demo_pool_ok: "pool_ok demo_pool"
proof -
  have "manager_ok (manager demo_pool)" by (simp add: demo_pool_def create_arenas_ok)
  moreover have "roomy demo_pool a" if "a \<in> set (arenas (manager demo_pool))" for a
    using that unfolding demo_arenas
    by (auto simp: roomy_def demo_pool_def arena_alloc_def arena_reset_def align_up_def Let_def)
  moreover have "a_offset (arenas (manager demo_pool) ! p) = 0" if "p \<in> free_arenas (manager demo_pool)" for p
    using that calculation(1) nth_mem [of p "arenas (manager demo_pool)"]
    by (auto simp: free_arenas_def manager_ok_def demo_arenas)
  ultimately show ?thesis by (simp add: pool_ok_def)
qed

lemma demo_pool_free: "card (free_arenas (manager demo_pool)) = 2"
proof -
  have "replicate 2 False = [False, False]" by (simp add: numeral_2_eq_2)
  then have "in_use (manager demo_pool) = [False, False]" by (simp add: demo_pool_def create_arenas_def)
  then have "free_arenas (manager demo_pool) = {0, 1}" by (auto simp: free_arenas_def less_Suc_eq nth_Cons')
  then show ?thesis by simp
qed

end
