(* ===== verification/Server.thy ===== *)
theory Server
  imports Session Printers Fastcgi
begin

text \<open>
  wasapi-server.cpp: what the program answers to a request, whichever of the two servers took it,
  and the start of the program. \<open>on_request_ready\<close> prints the request into a stream, cuts the text
  into FastCGI STDOUT records and ends the request. The signal handlers and the two threads that
  \<open>main\<close> starts are the operating system's; the servers they run are modelled in the theories
  Connection and Websockets.
\<close>

text \<open>What one call of \<open>send\<close> comes to; the count is never more than was offered.\<close>

datatype sent = Sent nat | Would_block | Send_failed

text \<open>What a write to the disk comes to: see \<open>write_entire_file\<close>.\<close>

record disk_reply =
  dr_opened :: bool
  dr_cut_off :: "string option"
  dr_mtime :: int
  dr_wall :: int
  dr_now :: int

definition preview_char :: "char \<Rightarrow> char" where
  "preview_char c =
     (if 32 \<le> uchar c \<and> uchar c < 127 then c
      else if c = CHR 0x0A \<or> c = CHR 0x0D \<or> c = CHR 0x09 then c
      else CHR ''.'')"

definition body_preview :: "global_config \<Rightarrow> request \<Rightarrow> string" where
  "body_preview g r =
     (let cap = (if body_preview_limit g \<noteq> 0 then unat (body_preview_limit g) else 1024);
          shown = (if length (body r) < cap then length (body r) else cap)
      in map preview_char (take shown (body r)) @
         (if shown < length (body r) then CHR 0x0A # ''[truncated]'' else []))"

text \<open>One heading and the variable below it.\<close>

definition print_part :: "global_config \<Rightarrow> string \<Rightarrow> dv \<Rightarrow> string" where
  "print_part g title v =
     ''-- '' @ title @ '' --'' @ endl @ print_any_limited (unat (print_env_limit g)) (nat (print_indent g)) 0 v"

definition response_text :: "global_config \<Rightarrow> request \<Rightarrow> string" where
  "response_text g r =
     print_part g ''ENV'' (env r) @ print_part g ''CONTEXT'' (req_context r) @
     print_part g ''COOKIES'' (cookies r) @ print_part g ''PARAMS'' (params r) @
     print_part g ''HEADERS(OUT)'' (headers r) @ print_part g ''FILES'' (files r) @
     print_part g ''SESSION'' (session r) @
     endl @ ''-- BODY ('' @ show_nat (body_bytes r) @ '' bytes) --'' @ endl @ body_preview g r"

text \<open>\<open>used\<close> is the offset of the request's arena.\<close>

definition answer_request ::
  "global_config \<Rightarrow> cache_config \<Rightarrow> disk_reply \<Rightarrow> nat \<Rightarrow> request \<times> bytes \<times> disk \<times> file_store
     \<Rightarrow> request \<times> bytes \<times> disk \<times> file_store" where
  "answer_request g cfg dr used = (\<lambda>(r, out, d, st).
     if has RESPONDED r then (r, out, d, st)
     else
       (let head = output_headers r;
            r1 = r\<lparr>env := dv_put ''DBG_ARENA_ALLOC'' (make_number (double_of_int (int used))) (env r)\<rparr>;
            out1 = append_stdout_text out (req_id r1) (head @ response_text g r1);
            (d1, st1) = (if session_id r1 \<noteq> []
              then snd (session_save g cfg (dr_opened dr) (dr_cut_off dr) (dr_mtime dr) (dr_wall dr) (dr_now dr) r1 (d, st))
              else (d, st));
            out2 = append_end_request out1 (req_id r1) 0 REQUEST_COMPLETE
        in (set_flag RESPONDED r1, out2, d1, st1)))"

section \<open>Facts\<close>

lemma response_text_flags [simp]: "response_text g (set_flag f r) = response_text g r"
  by (simp add: response_text_def body_preview_def set_flag_def Let_def)

lemma session_save_cong:
  "session_id r = session_id r' \<Longrightarrow> session r = session r' \<Longrightarrow>
     session_save g cfg opened cut_off mt wall now r x = session_save g cfg opened cut_off mt wall now r' x"
  by (simp add: session_save_def)

lemma end_request_record:
  "append_end_request out i 0 st = out @ encode_record (Record FCGI_END_REQUEST i [0, 0, 0, 0, st, 0, 0, 0])"
  using append_record_encode [of "[0, 0, 0, 0, st, 0, 0, 0]" out FCGI_END_REQUEST i]
  by (simp add: append_end_request_def be32_def)

text \<open>The records of a response: the chunks of the text, the empty record, the end.\<close>

definition response_records :: "u16 \<Rightarrow> bytes list \<Rightarrow> fcgi_record list" where
  "response_records i chunks =
     map (Record FCGI_STDOUT i) chunks @
     [Record FCGI_STDOUT i [], Record FCGI_END_REQUEST i [0, 0, 0, 0, REQUEST_COMPLETE, 0, 0, 0]]"

lemma answer_request_records:
  assumes "\<not> has RESPONDED r"
  obtains chunks r' fs where "answer_request g cfg dr used (r, out, d, st) =
      (r', out @ encode_records (response_records (req_id r) chunks), fs)"
    "r' = set_flag RESPONDED (r\<lparr>env := dv_put ''DBG_ARENA_ALLOC'' (make_number (double_of_int (int used))) (env r)\<rparr>)"
    "concat chunks = bytes_of (output_headers r @ response_text g r')"
    "list_all (\<lambda>c. c \<noteq> [] \<and> length c < 65536) chunks"
    "fs = (if session_id r = [] then (d, st) else
      snd (session_save g cfg (dr_opened dr) (dr_cut_off dr) (dr_mtime dr) (dr_wall dr) (dr_now dr) r (d, st)))"
proof -
  define r1 where "r1 = r\<lparr>env := dv_put ''DBG_ARENA_ALLOC'' (make_number (double_of_int (int used))) (env r)\<rparr>"
  define fs where "fs = (if session_id r1 \<noteq> []
      then snd (session_save g cfg (dr_opened dr) (dr_cut_off dr) (dr_mtime dr) (dr_wall dr) (dr_now dr) r1 (d, st))
      else (d, st))"
  obtain chunks where c: "append_stdout_text out (req_id r) (output_headers r @ response_text g r1) =
      out @ encode_records (map (Record FCGI_STDOUT (req_id r)) chunks @ [Record FCGI_STDOUT (req_id r) []])"
    "concat chunks = bytes_of (output_headers r @ response_text g r1)"
    "list_all (\<lambda>c. c \<noteq> [] \<and> length c < 65536) chunks"
    using stdout_text_chunks by blast
  have i: "req_id r1 = req_id r" by (simp add: r1_def)
  have "answer_request g cfg dr used (r, out, d, st) =
      (set_flag RESPONDED r1, out @ encode_records (response_records (req_id r) chunks), fs)"
    using assms c(1) unfolding answer_request_def prod.case r1_def [symmetric] Let_def i fs_def [symmetric]
    by (cases fs) (simp add: end_request_record response_records_def encode_records_append, simp add: encode_records_def)
  moreover have "fs = (if session_id r = [] then (d, st) else
      snd (session_save g cfg (dr_opened dr) (dr_cut_off dr) (dr_mtime dr) (dr_wall dr) (dr_now dr) r (d, st)))"
    using session_save_cong [of r1 r] by (simp add: fs_def r1_def)
  ultimately show ?thesis using c(2,3) 
    by (intro that [of "set_flag RESPONDED r1" chunks fs]) (simp_all add: r1_def)
qed

section \<open>Properties\<close>

text \<open>C14: a request that has not been answered is answered once: its response is a run of STDOUT records,
  none empty and none of more than 65535 bytes, that carry the headers and the printed request, an empty STDOUT record and one END_REQUEST, all with its id, behind what was
  in the buffer; a session with an identifier is saved; asking again changes nothing.\<close>

theorem answered_once:
  assumes "\<not> has RESPONDED r"
  shows "case answer_request g cfg dr used (r, out, d, st) of (r', out', fs) \<Rightarrow>
      (\<exists>chunks. out' = out @ encode_records (map (Record FCGI_STDOUT (req_id r)) chunks @
          [Record FCGI_STDOUT (req_id r) [],
           Record FCGI_END_REQUEST (req_id r) [0, 0, 0, 0, REQUEST_COMPLETE, 0, 0, 0]]) \<and>
        list_all (\<lambda>c. c \<noteq> [] \<and> length c < 65536) chunks \<and>
        string_of (concat chunks) = output_headers r @ response_text g r') \<and>
      has RESPONDED r' \<and>
      fs = (if session_id r = [] then (d, st) else
        snd (session_save g cfg (dr_opened dr) (dr_cut_off dr) (dr_mtime dr) (dr_wall dr) (dr_now dr) r (d, st))) \<and>
      answer_request g cfg dr used (r', out', fs) = (r', out', fs)"
  using assms
proof (rule answer_request_records [of r g cfg dr used out d st])
  fix chunks r' fs
  assume a: "answer_request g cfg dr used (r, out, d, st) =
      (r', out @ encode_records (response_records (req_id r) chunks), fs)"
    "r' = set_flag RESPONDED (r\<lparr>env := dv_put ''DBG_ARENA_ALLOC'' (make_number (double_of_int (int used))) (env r)\<rparr>)"
    "concat chunks = bytes_of (output_headers r @ response_text g r')"
    "list_all (\<lambda>c. c \<noteq> [] \<and> length c < 65536) chunks"
    and fs: "fs = (if session_id r = [] then (d, st) else
      snd (session_save g cfg (dr_opened dr) (dr_cut_off dr) (dr_mtime dr) (dr_wall dr) (dr_now dr) r (d, st)))"
  have "has RESPONDED r'" by (simp add: a(2))
  moreover have "answer_request g cfg dr used (r', out', fs) = (r', out', fs)" for out'
    using \<open>has RESPONDED r'\<close> by (cases fs) (simp add: answer_request_def)
  moreover have "string_of (concat chunks) = output_headers r @ response_text g r'"
    unfolding a(3) by (rule string_of_bytes_of)
  ultimately show ?thesis unfolding a(1) prod.case response_records_def fs [symmetric] using a(4) by blast
qed

theorem answered_once_witness:
  "case answer_request default_config demo_config \<lparr>dr_opened = True, dr_cut_off = None, dr_mtime = 5, dr_wall = 5, dr_now = 10\<rparr>
        64 (demo_session, [7], Map.empty, empty_store) of (r', out', fs) \<Rightarrow>
      (\<exists>chunks. out' = [7] @ encode_records (map (Record FCGI_STDOUT (req_id demo_session)) chunks @
          [Record FCGI_STDOUT (req_id demo_session) [],
           Record FCGI_END_REQUEST (req_id demo_session) [0, 0, 0, 0, REQUEST_COMPLETE, 0, 0, 0]]) \<and>
        list_all (\<lambda>c. c \<noteq> [] \<and> length c < 65536) chunks \<and>
        string_of (concat chunks) = output_headers demo_session @ response_text default_config r') \<and>
      has RESPONDED r' \<and>
      fs = (if session_id demo_session = [] then (Map.empty, empty_store) else
        snd (session_save default_config demo_config True None 5 5 10 demo_session (Map.empty, empty_store))) \<and>
      answer_request default_config demo_config \<lparr>dr_opened = True, dr_cut_off = None, dr_mtime = 5, dr_wall = 5, dr_now = 10\<rparr>
        64 (r', out', fs) = (r', out', fs)"
proof -
  have "\<not> has RESPONDED demo_session" by (simp add: demo_session_def has_def request_new_def)
  from answered_once [OF this, where g = default_config and cfg = demo_config and used = 64 and out = "[7]" and
      dr = "\<lparr>dr_opened = True, dr_cut_off = None, dr_mtime = 5, dr_wall = 5, dr_now = 10\<rparr>" and
      d = Map.empty and st = empty_store]
  show ?thesis by (simp only: disk_reply.simps)
qed

text \<open>The body preview is the front of the body, with every byte that is not printable ASCII or a line
  break or tab replaced by a dot, and it is cut at the limit and then marked.\<close>

theorem body_preview_safe:
  "let cap = (if body_preview_limit g = 0 then 1024 else unat (body_preview_limit g)) in
   body_preview g r = map preview_char (take cap (body r)) @
     (if cap < length (body r) then CHR 0x0A # ''[truncated]'' else []) \<and>
   list_all (\<lambda>c. 32 \<le> uchar c \<and> uchar c < 127 \<or> c \<in> {CHR 0x0A, CHR 0x0D, CHR 0x09}) (body_preview g r)"
proof -
  define cap where "cap = (if body_preview_limit g = 0 then 1024 else unat (body_preview_limit g))"
  have b: "body_preview g r = map preview_char (take cap (body r)) @
     (if cap < length (body r) then CHR 0x0A # ''[truncated]'' else [])"
    by (auto simp: body_preview_def cap_def Let_def)
  have p: "32 \<le> uchar (preview_char c) \<and> uchar (preview_char c) < 127 \<or> preview_char c \<in> {CHR 0x0A, CHR 0x0D, CHR 0x09}" for c
    by (simp add: preview_char_def)
  have "list_all (\<lambda>c. 32 \<le> uchar c \<and> uchar c < 127 \<or> c \<in> {CHR 0x0A, CHR 0x0D, CHR 0x09}) (map preview_char xs)" for xs
    unfolding list_all_iff using p by simp
  moreover have "list_all (\<lambda>c. 32 \<le> uchar c \<and> uchar c < 127 \<or> c \<in> {CHR 0x0A, CHR 0x0D, CHR 0x09}) (CHR 0x0A # ''[truncated]'')"
    by simp
  ultimately show ?thesis unfolding cap_def [symmetric] Let_def b list_all_append by simp
qed

end
