(* ===== verification/Runs.thy ===== *)
theory Runs
  imports Main
begin

text \<open>
  Event loops. Both servers work off one event after the other with a step function that has no
  result where the code has none; what holds before a run and survives every step holds after it.
  The locale is interpreted for the FastCGI server, the WebSocket server and the program made of
  the two.
\<close>

locale event_runs =
  fixes step :: "'ev \<Rightarrow> 's \<Rightarrow> 's option"
    and run :: "'ev list \<Rightarrow> 's \<Rightarrow> 's option"
  assumes run_Nil: "run [] s = Some s"
    and run_Cons: "run (ev # evs) s = (case step ev s of None \<Rightarrow> None | Some s' \<Rightarrow> run evs s')"
begin

lemma run_append: "run (xs @ ys) s = (case run xs s of None \<Rightarrow> None | Some s' \<Rightarrow> run ys s')"
  by (induction xs arbitrary: s) (simp_all add: run_Nil run_Cons split: option.split)

lemma run_invariant:
  assumes "run evs s = Some s'" "I s"
    and "\<And>ev s s'. ev \<in> set evs \<Longrightarrow> step ev s = Some s' \<Longrightarrow> I s \<Longrightarrow> I s'"
  shows "I s'"
  using assms
proof (induction evs arbitrary: s)
  case (Cons ev evs)
  obtain s1 where s1: "step ev s = Some s1" "run evs s1 = Some s'"
    using Cons.prems(1) by (auto simp: run_Cons split: option.splits)
  then have "I s1" using Cons.prems(2,3) by (metis list.set_intros(1))
  with s1(2) show ?case by (rule Cons.IH) (use Cons.prems(3) in \<open>metis list.set_intros(2)\<close>)
qed (simp add: run_Nil)

text \<open>The states that a run goes through, seen through \<open>f\<close>, when no step is stuck.\<close>

lemma run_simulation:
  assumes "\<And>ev s. ev \<in> set evs \<Longrightarrow> \<exists>s'. step ev s = Some s' \<and> f s' = g ev (f s)"
  shows "\<exists>s'. run evs s = Some s' \<and> f s' = fold g evs (f s)"
  using assms
proof (induction evs arbitrary: s)
  case (Cons ev evs)
  obtain s1 where s1: "step ev s = Some s1" "f s1 = g ev (f s)"
    using Cons.prems by (metis list.set_intros(1))
  have "\<exists>s'. run evs s1 = Some s' \<and> f s' = fold g evs (f s1)"
    by (rule Cons.IH) (use Cons.prems in \<open>metis list.set_intros(2)\<close>)
  with s1 show ?case by (simp add: run_Cons)
qed (simp add: run_Nil)

end

end
