(* ===== verification/Connection.thy ===== *)
theory Connection
  imports Server Placement Runs "HOL-Library.Monad_Syntax"
begin

text \<open>
  fcgi-connection.cpp: the FastCGI server. One thread owns the connections and works off the events
  that epoll reports; the worker threads run the queued tasks and leave the requests that are ready
  in \<open>g_pending_output\<close>. A request is identified by its arena, which is where its pointer points; a
  task and an entry of \<open>pending_output\<close> hold such pointers and a connection's descriptor. When one of
  them is followed and nothing lives there any more, or when a request map is worked on while the
  code iterates over it, C++ says nothing about what happens; the operations are \<open>None\<close> then.

  The kernel is an argument: \<open>sends\<close> is what the coming calls of \<open>send\<close> return, \<open>interest\<close> the epoll
  set, \<open>wire\<close> and \<open>closed_fds\<close> record what was sent and which descriptors were closed. All clock
  readings while one event is handled are the same. The pool of workers runs tasks in any order
  (theory Worker has its interleavings), each in one step.
\<close>

section \<open>The state\<close>

definition EPOLLIN :: u32 where "EPOLLIN = 1"
definition EPOLLOUT :: u32 where "EPOLLOUT = 4"
definition EPOLLERR :: u32 where "EPOLLERR = 8"
definition EPOLLHUP :: u32 where "EPOLLHUP = 16"
definition EPOLLET :: u32 where "EPOLLET = push_bit 31 1"

record connection =
  c_fd :: int
  c_in_buf :: bytes
  c_out_buf :: bytes
  c_out_pos :: nat
  c_requests :: "(u16 \<times> request) list"
  c_closed :: bool
  c_waiting :: bool
  active_workers :: nat
  epoll_mask :: u32
  want_write_interest :: bool

definition new_connection :: connection where
  "new_connection =
     \<lparr>c_fd = - 1, c_in_buf = [], c_out_buf = [], c_out_pos = 0, c_requests = [], c_closed = False, c_waiting = False,
      active_workers = 0, epoll_mask = EPOLLIN OR EPOLLET, want_write_interest = False\<rparr>"

type_synonym files_world = "disk \<times> file_store"

record server =
  conns :: "(int \<times> connection) list"
  pool :: request_pool
  fcgi_tasks :: "(int \<times> nat) list"
  pending_output :: "nat list"
  close_queue :: "int list"
  waiting_conns :: "int list"
  accept_paused :: bool
  interest :: "(int \<times> u32) list"
  sends :: "sent list"
  wire :: "(int \<times> bytes) list"
  closed_fds :: "int list"
  disk_files :: files_world

text \<open>
  What the server was given: the configuration, how uploads are saved, the callback, the listening
  socket. The eventfd write of a worker is the event \<open>Output_ready\<close> below.
\<close>

record server_env =
  se_config :: global_config
  se_cache :: cache_config
  se_saver :: "files_world saver"
  user_request_ready :: "request \<times> bytes \<times> files_world \<Rightarrow> request \<times> bytes \<times> files_world"
  listen_fd :: int

definition put_conn :: "int \<Rightarrow> connection \<Rightarrow> server \<Rightarrow> server" where
  "put_conn fd c s = s\<lparr>conns := AList.update fd c (conns s)\<rparr>"

section \<open>Interest in writing\<close>

definition maybe_update_epoll :: "u32 \<Rightarrow> connection \<times> (int \<times> u32) list \<Rightarrow> connection \<times> (int \<times> u32) list" where
  "maybe_update_epoll desired = (\<lambda>(c, ep).
     if desired = epoll_mask c then (c, ep)
     else (c\<lparr>epoll_mask := desired\<rparr>,
           if map_of ep (c_fd c) = None then ep else AList.update (c_fd c) desired ep))"

definition update_write_interest :: "bool \<Rightarrow> connection \<times> (int \<times> u32) list \<Rightarrow> connection \<times> (int \<times> u32) list" where
  "update_write_interest want = (\<lambda>(c, ep).
     let base = EPOLLIN OR EPOLLET;
         desired = (if want then base OR EPOLLOUT else base);
         have_out = (epoll_mask c AND EPOLLOUT \<noteq> 0)
     in if have_out = want then (c, ep)
        else (case maybe_update_epoll desired (c, ep) of (c1, ep1) \<Rightarrow> (c1\<lparr>want_write_interest := want\<rparr>, ep1)))"

text \<open>The connection \<open>fd\<close> with its interest changed, in the server.\<close>

definition write_interest :: "bool \<Rightarrow> int \<Rightarrow> connection \<Rightarrow> server \<Rightarrow> server" where
  "write_interest want fd c s =
     (case update_write_interest want (c, interest s) of (c1, ep) \<Rightarrow> put_conn fd c1 (s\<lparr>interest := ep\<rparr>))"

definition modify_listen_interest :: "bool \<Rightarrow> int \<Rightarrow> server \<Rightarrow> server" where
  "modify_listen_interest add lfd s =
     (if add then (if map_of (interest s) lfd = None then s\<lparr>interest := AList.update lfd (EPOLLIN OR EPOLLET) (interest s)\<rparr> else s)
      else s\<lparr>interest := AList.delete lfd (interest s)\<rparr>)"

definition pause_accept :: "int \<Rightarrow> server \<Rightarrow> server" where
  "pause_accept lfd s = (if accept_paused s then s else (modify_listen_interest False lfd s)\<lparr>accept_paused := True\<rparr>)"

definition resume_accept :: "int \<Rightarrow> server \<Rightarrow> server" where
  "resume_accept lfd s = (if \<not> accept_paused s then s else (modify_listen_interest True lfd s)\<lparr>accept_paused := False\<rparr>)"

section \<open>Closing and sending\<close>

text \<open>The scan over the requests ends at the first that decides.\<close>

fun scan_requests :: "(u16 \<times> request) list \<Rightarrow> bool \<times> bool" where
  "scan_requests [] = (True, False)"
| "scan_requests ((i, r) # rs) =
     (if \<not> has RESPONDED r then (False, False)
      else if has KEEP_CONNECTION r then (True, True)
      else scan_requests rs)"

definition should_close_connection :: "connection \<Rightarrow> bool" where
  "should_close_connection c =
     (if c_closed c then active_workers c = 0 \<and> c_out_pos c = length (c_out_buf c)
      else (case scan_requests (c_requests c) of
              (all_responded, any_keep) \<Rightarrow>
                all_responded \<and> \<not> any_keep \<and> c_out_pos c = length (c_out_buf c) \<and> active_workers c = 0))"

datatype send_end = Drained | Blocked | Failed_send

text \<open>The loop around \<open>send\<close>: how it ends, the position, what was sent, the results left.\<close>

fun send_loop :: "sent list \<Rightarrow> bytes \<Rightarrow> nat \<Rightarrow> send_end \<times> nat \<times> bytes \<times> sent list" where
  "send_loop rs out pos =
     (if length out \<le> pos then (Drained, pos, [], rs)
      else case rs of
             [] \<Rightarrow> (Blocked, pos, [], [])
           | Would_block # rs' \<Rightarrow> (Blocked, pos, [], rs')
           | Send_failed # rs' \<Rightarrow> (Failed_send, pos, [], rs')
           | Sent n # rs' \<Rightarrow>
               if n = 0 then (Failed_send, pos, [], rs')
               else
                 (let k = min n (length out - pos)
                  in case send_loop rs' out (pos + k) of
                       (e, p, bs, rs'') \<Rightarrow> (e, p, take k (drop pos out) @ bs, rs'')))"

declare send_loop.simps [simp del]

definition flush_connection :: "int \<Rightarrow> server \<Rightarrow> server" where
  "flush_connection fd s =
     (case map_of (conns s) fd of
        None \<Rightarrow> s
      | Some c \<Rightarrow>
          (case send_loop (sends s) (c_out_buf c) (c_out_pos c) of
             (e, p, bs, rs) \<Rightarrow>
               (let c1 = c\<lparr>c_out_pos := p\<rparr>;
                    s1 = s\<lparr>sends := rs, wire := (if bs = [] then wire s else wire s @ [(c_fd c, bs)])\<rparr>
                in case e of
                     Drained \<Rightarrow>
                       (let c2 = (if p \<noteq> 0 then c1\<lparr>c_out_buf := [], c_out_pos := 0\<rparr> else c1)
                        in (write_interest False fd c2 s1)\<lparr>close_queue :=
                              (if should_close_connection c2 then close_queue s @ [c_fd c] else close_queue s)\<rparr>)
                   | Blocked \<Rightarrow> write_interest True fd c1 s1
                   | Failed_send \<Rightarrow> put_conn fd (c1\<lparr>c_closed := True\<rparr>) s1)))"

section \<open>Records of a connection\<close>

text \<open>The path prefix is cut off the two variables when they are strings that start with it.\<close>

definition strip_prefix :: "string \<Rightarrow> string \<Rightarrow> dv \<Rightarrow> dv" where
  "strip_prefix pre var ev =
     (case dv_find var ev of
        Some (STRING uri) \<Rightarrow>
          (if substr uri 0 (length pre) = pre then
             (let stripped = substr_from uri (length pre)
              in dv_put var (STRING (if stripped = [] then ''/'' else stripped)) ev)
           else ev)
      | _ \<Rightarrow> ev)"

definition strip_path_prefix :: "global_config \<Rightarrow> dv \<Rightarrow> dv" where
  "strip_path_prefix g ev =
     (let pre = fcgi_path_prefix g
      in if pre = [] then ev else strip_prefix pre ''PATH_INFO'' (strip_prefix pre ''REQUEST_URI'' ev))"

text \<open>What the two callbacks of \<open>process_buffer\<close> work on, besides the request.\<close>

record io_world =
  iw_pool :: request_pool
  iw_tasks :: "(int \<times> nat) list"
  iw_active :: nat

definition allocate_request_in :: "nat \<Rightarrow> int \<Rightarrow> u16 \<Rightarrow> io_world \<Rightarrow> request option \<times> io_world" where
  "allocate_request_in now fd i w =
     (case place_request now (iw_pool w) of
        (None, p) \<Rightarrow> (None, w\<lparr>iw_pool := p\<rparr>)
      | (Some r, p) \<Rightarrow> (Some (r\<lparr>req_id := i, conn_ptr := Some fd\<rparr>), w\<lparr>iw_pool := p\<rparr>))"

text \<open>
  The owner \<open>conn_ptr\<close> of a request that \<open>process_buffer\<close> hands over is the connection it was called
  for, whose count \<open>iw_active\<close> is.
\<close>

definition internal_on_request_ready :: "global_config \<Rightarrow> request \<Rightarrow> io_world \<Rightarrow> request \<times> io_world" where
  "internal_on_request_ready g r w =
     (if has RESPONDED r then (r, w)
      else case conn_ptr r of
             None \<Rightarrow> (r, w)
           | Some fd \<Rightarrow>
               (r\<lparr>env := strip_path_prefix g (env r), worker_active := True\<rparr>,
                w\<lparr>iw_active := iw_active w + 1, iw_tasks := iw_tasks w @ [(fd, arena r)]\<rparr>))"

definition io_callbacks :: "global_config \<Rightarrow> nat \<Rightarrow> int \<Rightarrow> io_world callbacks" where
  "io_callbacks g now fd =
     \<lparr>allocate_request = allocate_request_in now fd, on_request_ready = internal_on_request_ready g\<rparr>"

definition config_limits :: "global_config \<Rightarrow> limits" where
  "config_limits g = \<lparr>max_params_bytes = unat (cfg_max_params_bytes g), max_stdin_bytes = unat (cfg_max_stdin_bytes g)\<rparr>"

definition load_io :: "connection \<Rightarrow> server \<Rightarrow> io_world fcgi_state" where
  "load_io c s =
     \<lparr>requests = c_requests c, out_buf = c_out_buf c, waiting_for_arena = False,
      world = \<lparr>iw_pool = pool s, iw_tasks = fcgi_tasks s, iw_active = active_workers c\<rparr>\<rparr>"

definition store_io :: "int \<Rightarrow> connection \<Rightarrow> io_world fcgi_state \<Rightarrow> server \<Rightarrow> server" where
  "store_io fd c f s =
     put_conn fd (c\<lparr>c_requests := requests f, c_out_buf := out_buf f, c_waiting := waiting_for_arena f,
         active_workers := iw_active (world f)\<rparr>)
       (s\<lparr>pool := iw_pool (world f), fcgi_tasks := iw_tasks (world f)\<rparr>)"

definition process_fcgi :: "server_env \<Rightarrow> nat \<Rightarrow> int \<Rightarrow> server \<Rightarrow> server" where
  "process_fcgi e now fd s =
     (case map_of (conns s) fd of
        None \<Rightarrow> s
      | Some c \<Rightarrow>
          if c_closed c then s
          else
            (case process_buffer (config_limits (se_config e)) (io_callbacks (se_config e) now fd) (c_in_buf c) (load_io c s) of
               (st, rest, f) \<Rightarrow> store_io fd (c\<lparr>c_in_buf := rest, c_closed := (st = CLOSE)\<rparr>) f s))"

section \<open>Giving requests back\<close>

text \<open>
  The loop over the waiting connections, and what it does with one. \<open>busy\<close> is the connection whose request map the caller is
  iterating over, if any: were its records processed now, the map would change under the iteration,
  with an entry in it whose request is gone.
\<close>

definition serve_waiting :: "server_env \<Rightarrow> nat \<Rightarrow> int \<Rightarrow> connection \<Rightarrow> server \<Rightarrow> bool \<times> server" where
  "serve_waiting e now fd c s =
     (let s1 = process_fcgi e now fd s;
          still = (case map_of (conns s1) fd of None \<Rightarrow> False | Some c1 \<Rightarrow> c_waiting c1)
      in if c_waiting c \<and> \<not> still then (True, flush_connection fd s1)
         else if still then (False, s1\<lparr>waiting_conns := waiting_conns s1 @ [fd]\<rparr>)
         else (False, s1))"

fun waiting_loop :: "server_env \<Rightarrow> nat \<Rightarrow> int option \<Rightarrow> nat \<Rightarrow> nat \<Rightarrow> server \<Rightarrow> server option" where
  "waiting_loop e now busy 0 budget s = Some s"
| "waiting_loop e now busy (Suc n) budget s =
     (case waiting_conns s of
        [] \<Rightarrow> Some s
      | fd # rest \<Rightarrow>
          if budget = 0 then Some s
          else
            (let s1 = s\<lparr>waiting_conns := rest\<rparr>
             in case map_of (conns s1) fd of
                  None \<Rightarrow> waiting_loop e now busy n budget s1
                | Some c \<Rightarrow>
                    if c_closed c then waiting_loop e now busy n budget s1
                    else if busy = Some fd then None
                    else
                      (case serve_waiting e now fd c s1 of
                         (served, s2) \<Rightarrow> waiting_loop e now busy n (if served then budget - 1 else budget) s2)))"

text \<open>The count is cast to \<open>int\<close>.\<close>

definition process_waiting_connections :: "server_env \<Rightarrow> nat \<Rightarrow> int option \<Rightarrow> server \<Rightarrow> server option" where
  "process_waiting_connections e now busy s =
     (let budget = sint (ucast (available_count (manager (pool s))) :: 32 word)
      in if budget \<le> 0 \<or> waiting_conns s = [] then Some s
         else waiting_loop e now busy (length (waiting_conns s)) (nat budget) s)"

definition release_request :: "server_env \<Rightarrow> nat \<Rightarrow> int option \<Rightarrow> request \<Rightarrow> server \<Rightarrow> server option" where
  "release_request e now busy r s =
     (let s1 = s\<lparr>pool := drop_request r (pool s)\<rparr>;
          s2 = (if accept_paused s1 \<and> 0 < available_count (manager (pool s1)) then resume_accept (listen_fd e) s1 else s1)
      in process_waiting_connections e now busy s2)"

text \<open>The uploaded files of a request are removed from the disk.\<close>

definition unlink_upload :: "global_config \<Rightarrow> dv \<Rightarrow> disk \<Rightarrow> disk" where
  "unlink_upload g f d =
     (case f of
        OBJECT m \<Rightarrow>
          (case dv_find ''temp_path'' f of
             Some (STRING tp) \<Rightarrow>
               (if \<not> keep_uploaded_files g \<and> cleanup_temp_on_disconnect g \<and> tp \<noteq> [] then d(tp := None) else d)
           | _ \<Rightarrow> d)
      | _ \<Rightarrow> d)"

definition finalize_request :: "global_config \<Rightarrow> request \<times> disk \<Rightarrow> request \<times> disk" where
  "finalize_request g = (\<lambda>(r, d).
     case files r of
       ARRAY fs \<Rightarrow>
         (if fs \<noteq> [] then (r\<lparr>files := make_array, body := []\<rparr>, fold (unlink_upload g) fs d)
          else (r\<lparr>body := []\<rparr>, d))
     | _ \<Rightarrow> (r\<lparr>body := []\<rparr>, d))"

text \<open>What \<open>finalize_request\<close> leaves behind of a request that is released right after it.\<close>

definition finalize_files :: "global_config \<Rightarrow> request \<Rightarrow> server \<Rightarrow> server" where
  "finalize_files g r s =
     s\<lparr>disk_files := (snd (finalize_request g (r, fst (disk_files s))), snd (disk_files s))\<rparr>"

fun cleanup_loop :: "server_env \<Rightarrow> nat \<Rightarrow> int \<Rightarrow> (u16 \<times> request) list \<Rightarrow> server \<Rightarrow> server option" where
  "cleanup_loop e now fd [] s = Some s"
| "cleanup_loop e now fd ((i, r) # rs) s =
     (let s1 = (if \<not> has RESPONDED r then finalize_files (se_config e) r s else s)
      in do { s2 \<leftarrow> release_request e now (Some fd) r s1; cleanup_loop e now fd rs s2 })"

definition cleanup_connection_requests :: "server_env \<Rightarrow> nat \<Rightarrow> int \<Rightarrow> server \<Rightarrow> server option" where
  "cleanup_connection_requests e now fd s =
     (case map_of (conns s) fd of
        None \<Rightarrow> Some s
      | Some c \<Rightarrow>
          do { s1 \<leftarrow> cleanup_loop e now fd (c_requests c) s;
               Some (put_conn fd (c\<lparr>c_requests := []\<rparr>) s1) })"

definition close_connection :: "server_env \<Rightarrow> nat \<Rightarrow> int \<Rightarrow> server \<Rightarrow> server option" where
  "close_connection e now fd s =
     (case map_of (conns s) fd of
        None \<Rightarrow> Some s
      | Some c \<Rightarrow>
          do { s1 \<leftarrow> cleanup_connection_requests e now fd s;
               Some (s1\<lparr>interest := AList.delete fd (interest s1), closed_fds := closed_fds s1 @ [fd],
                        conns := AList.delete fd (conns s1)\<rparr>) })"

text \<open>
  What \<open>serve\<close> does with the connections when \<open>run\<close> has returned. The epoll descriptor is gone by then,
  so changes of the interest no longer reach the kernel.
\<close>

fun cleanup_all :: "server_env \<Rightarrow> nat \<Rightarrow> int list \<Rightarrow> server \<Rightarrow> server option" where
  "cleanup_all e now [] s = Some s"
| "cleanup_all e now (fd # fds) s =
     do { s1 \<leftarrow> cleanup_connection_requests e now fd s;
          cleanup_all e now fds (s1\<lparr>closed_fds := closed_fds s1 @ [fd]\<rparr>) }"

definition serve_cleanup :: "server_env \<Rightarrow> nat \<Rightarrow> server \<Rightarrow> server option" where
  "serve_cleanup e now s =
     do { s1 \<leftarrow> cleanup_all e now (map fst (conns s)) s;
          Some (s1\<lparr>conns := [], closed_fds := closed_fds s1 @ [listen_fd e]\<rparr>) }"

text \<open>The loop over the requests that are done with; \<open>ids\<close> are the keys when it starts.\<close>

fun sweep_requests :: "server_env \<Rightarrow> nat \<Rightarrow> int \<Rightarrow> u16 list \<Rightarrow> server \<Rightarrow> server option" where
  "sweep_requests e now fd [] s = Some s"
| "sweep_requests e now fd (i # ids) s =
     (case map_of (conns s) fd of
        None \<Rightarrow> Some s
      | Some c \<Rightarrow>
          (case map_of (c_requests c) i of
             None \<Rightarrow> sweep_requests e now fd ids s
           | Some r \<Rightarrow>
               if \<not> worker_active r \<and> (has RESPONDED r \<or> has FAILED r \<or> has ABORTED r) then
                 (let s1 = (if has RESPONDED r then finalize_files (se_config e) r s else s)
                  in do { s2 \<leftarrow> release_request e now (Some fd) r s1;
                          sweep_requests e now fd ids
                            (put_conn fd (c\<lparr>c_requests := AList.delete i (c_requests c)\<rparr>) s2) })
               else sweep_requests e now fd ids s))"

text \<open>The deferred closes; \<open>g_conns[cfd]\<close> makes a connection where there is none.\<close>

fun close_all :: "server_env \<Rightarrow> nat \<Rightarrow> int list \<Rightarrow> server \<Rightarrow> server option" where
  "close_all e now [] s = Some s"
| "close_all e now (fd # fds) s =
     (let s1 = (if map_of (conns s) fd = None then put_conn fd new_connection s else s)
      in case map_of (conns s1) fd of
           None \<Rightarrow> None
         | Some c \<Rightarrow>
             if should_close_connection c then do { s2 \<leftarrow> close_connection e now fd s1; close_all e now fds s2 }
             else close_all e now fds s1)"

section \<open>Events\<close>

text \<open>\<open>fds\<close> are the descriptors that the coming calls of \<open>accept\<close> return.\<close>

fun accept_loop :: "int \<Rightarrow> int list \<Rightarrow> server \<Rightarrow> server" where
  "accept_loop lfd [] s = s"
| "accept_loop lfd (cfd # fds) s =
     (let c = (case map_of (conns s) cfd of None \<Rightarrow> new_connection | Some c \<Rightarrow> c);
          s1 = put_conn cfd (c\<lparr>c_fd := cfd\<rparr>)
            (s\<lparr>interest := (if map_of (interest s) cfd = None then AList.update cfd (EPOLLIN OR EPOLLET) (interest s)
                           else interest s)\<rparr>)
      in if available_count (manager (pool s1)) = 0 then pause_accept lfd s1 else accept_loop lfd fds s1)"

definition handle_new_connections :: "int \<Rightarrow> int list \<Rightarrow> server \<Rightarrow> server" where
  "handle_new_connections lfd fds s =
     (if available_count (manager (pool s)) = 0 then pause_accept lfd s else accept_loop lfd fds s)"

text \<open>\<open>received\<close> is what the receive loop got, \<open>eof\<close> whether it ended with the end of the stream or an error.\<close>

definition read_input :: "server_env \<Rightarrow> nat \<Rightarrow> int \<Rightarrow> bytes \<Rightarrow> bool \<Rightarrow> server \<Rightarrow> server" where
  "read_input e now fd received eof s =
     (case map_of (conns s) fd of
        None \<Rightarrow> s
      | Some c \<Rightarrow>
          (let s1 = process_fcgi e now fd
                 (put_conn fd (c\<lparr>c_in_buf := c_in_buf c @ received, c_closed := c_closed c \<or> eof\<rparr>) s);
               now_waiting = (case map_of (conns s1) fd of None \<Rightarrow> False | Some c1 \<Rightarrow> c_waiting c1);
               s2 = (if \<not> c_waiting c \<and> now_waiting then s1\<lparr>waiting_conns := waiting_conns s1 @ [fd]\<rparr> else s1)
           in flush_connection fd s2))"

definition handle_io :: "server_env \<Rightarrow> nat \<Rightarrow> int \<Rightarrow> u32 \<Rightarrow> bytes \<Rightarrow> bool \<Rightarrow> server \<Rightarrow> server option" where
  "handle_io e now fd events received eof s =
     (case map_of (conns s) fd of
        None \<Rightarrow> Some s
      | Some c \<Rightarrow>
          (let s1 = (if events AND (EPOLLHUP OR EPOLLERR) \<noteq> 0 then put_conn fd (c\<lparr>c_closed := True\<rparr>) s else s);
               s2 = (if events AND EPOLLIN \<noteq> 0 then read_input e now fd received eof s1 else s1);
               s3 = (if events AND EPOLLOUT \<noteq> 0 then flush_connection fd s2 else s2);
               ids = (case map_of (conns s3) fd of None \<Rightarrow> [] | Some c3 \<Rightarrow> map fst (c_requests c3))
           in do {
                s4 \<leftarrow> sweep_requests e now fd ids s3;
                let s5 = (case map_of (conns s4) fd of
                    None \<Rightarrow> s4
                  | Some c4 \<Rightarrow> if should_close_connection c4 then s4\<lparr>close_queue := close_queue s4 @ [fd]\<rparr> else s4);
                close_all e now (close_queue s5) (s5\<lparr>close_queue := []\<rparr>) }))"

text \<open>The request that lives in an arena, with its connection and its id.\<close>

fun find_arena :: "nat \<Rightarrow> (u16 \<times> request) list \<Rightarrow> (u16 \<times> request) option" where
  "find_arena p [] = None"
| "find_arena p ((i, r) # rs) = (if arena r = p then Some (i, r) else find_arena p rs)"

fun deref :: "nat \<Rightarrow> (int \<times> connection) list \<Rightarrow> (int \<times> u16 \<times> request) option" where
  "deref p [] = None"
| "deref p ((fd, c) # cs) =
     (case find_arena p (c_requests c) of
        Some (i, r) \<Rightarrow> Some (fd, i, r)
      | None \<Rightarrow> deref p cs)"

text \<open>Writing through such a pointer.\<close>

definition write_request :: "int \<Rightarrow> u16 \<Rightarrow> request \<Rightarrow> server \<Rightarrow> server" where
  "write_request fd i r s =
     (case map_of (conns s) fd of
        None \<Rightarrow> s
      | Some c \<Rightarrow> put_conn fd (c\<lparr>c_requests := AList.update i r (c_requests c)\<rparr>) s)"

definition append_output :: "int \<Rightarrow> bytes \<Rightarrow> server \<Rightarrow> server" where
  "append_output fd local_out s =
     (case map_of (conns s) fd of
        None \<Rightarrow> s
      | Some c \<Rightarrow>
          if local_out = [] then s
          else
            (let was_empty = (c_out_pos c = length (c_out_buf c));
                 c1 = c\<lparr>c_out_buf := c_out_buf c @ local_out\<rparr>
             in if was_empty then write_interest True fd c1 s else put_conn fd c1 s))"

fun pending_loop :: "server_env \<Rightarrow> nat list \<Rightarrow> server \<Rightarrow> server option" where
  "pending_loop e [] s = Some s"
| "pending_loop e (p # ps) s =
     (case deref p (conns s) of
        None \<Rightarrow> None
      | Some (owner, i, r) \<Rightarrow>
          if has RESPONDED r then pending_loop e ps s
          else case conn_ptr r of
                 None \<Rightarrow> pending_loop e ps s
               | Some fd \<Rightarrow>
                   (case map_of (conns s) fd of
                      None \<Rightarrow> None
                    | Some c \<Rightarrow>
                        if c_closed c then pending_loop e ps s
                        else
                          (case user_request_ready e (r, [], disk_files s) of
                             (r', local_out, fw) \<Rightarrow>
                               pending_loop e ps
                                 (append_output fd local_out (write_request owner i r' (s\<lparr>disk_files := fw\<rparr>))))))"

definition process_pending_output :: "server_env \<Rightarrow> server \<Rightarrow> server option" where
  "process_pending_output e s = pending_loop e (pending_output s) (s\<lparr>pending_output := []\<rparr>)"

section \<open>Housekeeping\<close>

text \<open>
  Seconds as doubles in the source, nanoseconds here; the difference and the comparison are exact
  here, where the code rounds to 53 bits.
\<close>

definition timed_out :: "global_config \<Rightarrow> nat \<Rightarrow> request \<Rightarrow> bool" where
  "timed_out g now r \<longleftrightarrow>
     \<not> has RESPONDED r \<and> \<not> dbl_neg (max_request_time g) \<and> 0 < dbl_num (max_request_time g) \<and>
     dbl_num (max_request_time g) * 10 ^ 9 < (int now - int (start_time r)) * dbl_den (max_request_time g)"

fun expire_requests :: "global_config \<Rightarrow> nat \<Rightarrow> (u16 \<times> request) list \<Rightarrow> bytes \<Rightarrow> (u16 \<times> request) list \<times> bytes" where
  "expire_requests g now [] out = ([], out)"
| "expire_requests g now ((i, r) # rs) out =
     (if timed_out g now r then
        (case expire_requests g now rs (append_end_request out (req_id r) 0 OVERLOADED) of
           (rs', out') \<Rightarrow> ((i, set_flag RESPONDED (set_flag FAILED r)) # rs', out'))
      else (case expire_requests g now rs out of (rs', out') \<Rightarrow> ((i, r) # rs', out')))"

definition expire_connection :: "global_config \<Rightarrow> nat \<Rightarrow> connection \<Rightarrow> connection" where
  "expire_connection g now c =
     (case expire_requests g now (c_requests c) (c_out_buf c) of
        (rs, out) \<Rightarrow> c\<lparr>c_requests := rs, c_out_buf := out\<rparr>)"

fun close_listed :: "server_env \<Rightarrow> nat \<Rightarrow> int list \<Rightarrow> server \<Rightarrow> server option" where
  "close_listed e now [] s = Some s"
| "close_listed e now (fd # fds) s = do { s1 \<leftarrow> close_connection e now fd s; close_listed e now fds s1 }"

definition housekeeping_close_idle :: "server_env \<Rightarrow> nat \<Rightarrow> server \<Rightarrow> server option" where
  "housekeeping_close_idle e now s =
     (let cs = map (\<lambda>(fd, c). (fd, expire_connection (se_config e) now c)) (conns s);
          to_close = map fst (filter (\<lambda>(fd, c). should_close_connection c) cs)
      in close_listed e now to_close (s\<lparr>conns := cs\<rparr>))"

section \<open>The worker's side\<close>

text \<open>The clock readings and random words of one task.\<close>

record task_inputs =
  ti_now :: int
  ti_later :: int
  ti_draw :: "nat \<Rightarrow> u64"

definition task_body :: "server_env \<Rightarrow> task_inputs \<Rightarrow> request \<times> files_world \<Rightarrow> request \<times> files_world" where
  "task_body e ti = (\<lambda>(r0, d0, st0).
     let g = se_config e;
         (r1, st1) = parse_endpoint_file (se_cache e) (ti_now ti) (ti_later ti) d0 (dv_find (endpoint_file_path g) (env r0)) (r0, st0);
         r2 = parse_cookie_header (dv_find (http_cookies_var g) (env r1)) r1;
         r3 = parse_query_params (dv_find (http_query_var g) (env r2)) r2;
         (r4, d4, st4) = parse_form_data (se_saver e) (upload_tmp_dir g) (r3, d0, st1);
         (r5, st5) =
           (if session_auto_load g then
              (case dv_find (session_cookie_name g) (cookies r4) of
                 Some (STRING sid) \<Rightarrow>
                   snd (session_start g (se_cache e) (ti_draw ti) (ti_now ti) (ti_later ti) d4 (r4, st4))
               | _ \<Rightarrow> (r4, st4))
            else (r4, st4))
     in (r5\<lparr>headers := dv_put ''Content-Type'' (STRING (default_content_type g)) (headers r5)\<rparr>, d4, st5))"

text \<open>The task at position \<open>k\<close> of those queued or taken, run to its end.\<close>

definition run_fcgi_task :: "server_env \<Rightarrow> nat \<Rightarrow> task_inputs \<Rightarrow> server \<Rightarrow> server option" where
  "run_fcgi_task e k ti s =
     (if k < length (fcgi_tasks s) then
        (let (fd, p) = fcgi_tasks s ! k;
             s1 = s\<lparr>fcgi_tasks := take k (fcgi_tasks s) @ drop (Suc k) (fcgi_tasks s)\<rparr>
         in case (deref p (conns s1), map_of (conns s1) fd) of
              (Some (owner, i, r), Some c) \<Rightarrow>
                (let (r', s2) =
                   (if \<not> has RESPONDED r \<and> \<not> c_closed c then
                      (case task_body e ti (r, disk_files s1) of
                         (r1, fw) \<Rightarrow> (r1, s1\<lparr>disk_files := fw, pending_output := pending_output s1 @ [p]\<rparr>))
                    else (r, s1));
                     s3 = write_request owner i (r'\<lparr>worker_active := False\<rparr>) s2
                 in case map_of (conns s3) fd of
                      None \<Rightarrow> None
                    | Some c' \<Rightarrow> Some (put_conn fd (c'\<lparr>active_workers := active_workers c' - 1\<rparr>) s3))
            | _ \<Rightarrow> None)
      else Some s)"

section \<open>The event loop\<close>

text \<open>What epoll reports, with what the kernel and the clocks answer meanwhile, and the workers' steps.\<close>

datatype fcgi_event =
    Accepted "int list"
  | Output_ready
  | Timer nat
  | Io nat int u32 bytes bool
  | Worker nat task_inputs

definition server_step :: "server_env \<Rightarrow> fcgi_event \<times> sent list \<Rightarrow> server \<Rightarrow> server option" where
  "server_step e = (\<lambda>(ev, rs) s0.
     let s = s0\<lparr>sends := rs\<rparr>
     in case ev of
          Accepted fds \<Rightarrow> Some (handle_new_connections (listen_fd e) fds s)
        | Output_ready \<Rightarrow> process_pending_output e s
        | Timer now \<Rightarrow> housekeeping_close_idle e now s
        | Io now fd events received eof \<Rightarrow> handle_io e now fd events received eof s
        | Worker k ti \<Rightarrow> run_fcgi_task e k ti s)"

fun server_run :: "server_env \<Rightarrow> (fcgi_event \<times> sent list) list \<Rightarrow> server \<Rightarrow> server option" where
  "server_run e [] s = Some s"
| "server_run e (ev # evs) s = do { s1 \<leftarrow> server_step e ev s; server_run e evs s1 }"

lemmas [handler_defs] = server_step_def handle_new_connections_def process_pending_output_def housekeeping_close_idle_def
  handle_io_def run_fcgi_task_def

interpretation fcgi_events: event_runs "server_step e" "server_run e" for e
  by unfold_locales (simp_all add: Option.bind_def split: option.split)

text \<open>The state in which \<open>run\<close> enters its loop.\<close>

definition initial_server :: "server_env \<Rightarrow> request_pool \<Rightarrow> files_world \<Rightarrow> server" where
  "initial_server e p fw =
     \<lparr>conns = [], pool = p, fcgi_tasks = [], pending_output = [], close_queue = [], waiting_conns = [],
      accept_paused = False, interest = [(listen_fd e, EPOLLIN OR EPOLLET)], sends = [], wire = [], closed_fds = [],
      disk_files = fw\<rparr>"

end
