(* ===== verification/Handlers.thy ===== *)
theory Handlers
  imports Connection
begin

text \<open>
  What the handlers of the FastCGI server change, and how an invariant goes through them. A handler
  is made of a few operations; an invariant that survives these survives every handler that is
  composed of them. The locale is interpreted for the ledger of arenas (theory Ownership) and for
  the pointers that queued tasks hold (theory Pointers).
\<close>

section \<open>Frames\<close>

lemma conns_put [simp]: "map_of (conns (put_conn fd c s)) = (map_of (conns s))(fd \<mapsto> c)"
  by (simp add: put_conn_def)

lemma update_interest_keeps:
  assumes "update_write_interest want (c, ep) = (c1, ep1)"
  shows "c_requests c1 = c_requests c" "c_closed c1 = c_closed c" "c_out_buf c1 = c_out_buf c" "c_out_pos c1 = c_out_pos c"
    "c_in_buf c1 = c_in_buf c" "c_waiting c1 = c_waiting c" "active_workers c1 = active_workers c" "c_fd c1 = c_fd c"
  using assms by (auto simp: update_write_interest_def maybe_update_epoll_def Let_def split: if_splits)

lemma write_interest_other: "fd' \<noteq> fd \<Longrightarrow> map_of (conns (write_interest want fd c s)) fd' = map_of (conns s) fd'"
  by (simp add: write_interest_def split: prod.split)

lemma flush_other: "fd' \<noteq> fd \<Longrightarrow> map_of (conns (flush_connection fd s)) fd' = map_of (conns s) fd'"
  by (simp add: flush_connection_def Let_def write_interest_other split: option.split prod.split send_end.split)

lemma process_other: "fd' \<noteq> fd \<Longrightarrow> map_of (conns (process_fcgi e now fd s)) fd' = map_of (conns s) fd'"
  by (simp add: process_fcgi_def store_io_def split: option.split prod.split)

lemma serve_waiting_other:
  "serve_waiting e now fd c s = (used, s') \<Longrightarrow> fd' \<noteq> fd \<Longrightarrow> map_of (conns s') fd' = map_of (conns s) fd'"
  by (auto simp: serve_waiting_def Let_def flush_other process_other split: if_splits)

lemma resume_keeps [simp]:
  "conns (resume_accept lfd s) = conns s" "pool (resume_accept lfd s) = pool s"
  "fcgi_tasks (resume_accept lfd s) = fcgi_tasks s" "waiting_conns (resume_accept lfd s) = waiting_conns s"
  by (simp_all add: resume_accept_def modify_listen_interest_def)

lemma pause_keeps [simp]:
  "conns (pause_accept lfd s) = conns s" "pool (pause_accept lfd s) = pool s"
  "fcgi_tasks (pause_accept lfd s) = fcgi_tasks s"
  by (simp_all add: pause_accept_def modify_listen_interest_def)

lemma finalize_files_keeps [simp]:
  "conns (finalize_files g r s) = conns s" "pool (finalize_files g r s) = pool s"
  "fcgi_tasks (finalize_files g r s) = fcgi_tasks s" "waiting_conns (finalize_files g r s) = waiting_conns s"
  by (simp_all add: finalize_files_def)

section \<open>Invariants\<close>

locale server_invariant =
  fixes I :: "server \<Rightarrow> bool"
  assumes depends: "I s \<Longrightarrow> conns s' = conns s \<Longrightarrow> pool s' = pool s \<Longrightarrow> fcgi_tasks s' = fcgi_tasks s \<Longrightarrow> I s'"
    and put: "I s \<Longrightarrow> map_of (conns s) fd = Some c \<Longrightarrow> c_requests c' = c_requests c \<Longrightarrow>
      active_workers c' = active_workers c \<Longrightarrow> I (put_conn fd c' s)"
    and process: "I s \<Longrightarrow> I (process_fcgi e now fd s)"
begin

lemma fields [simp]:
  "I (s\<lparr>pending_output := v1\<rparr>) = I s" "I (s\<lparr>close_queue := v2\<rparr>) = I s" "I (s\<lparr>waiting_conns := v3\<rparr>) = I s"
  "I (s\<lparr>accept_paused := v4\<rparr>) = I s" "I (s\<lparr>interest := v5\<rparr>) = I s" "I (s\<lparr>sends := v6\<rparr>) = I s"
  "I (s\<lparr>wire := v7\<rparr>) = I s" "I (s\<lparr>closed_fds := v8\<rparr>) = I s" "I (s\<lparr>disk_files := v9\<rparr>) = I s"
  by (rule iffI; erule depends; simp)+

lemma interest:
  assumes "I s" "map_of (conns s) fd = Some c" "c_requests c' = c_requests c" "active_workers c' = active_workers c"
  shows "I (write_interest want fd c' s)"
proof -
  obtain c1 ep where u: "update_write_interest want (c', interest s) = (c1, ep)" by force
  then show ?thesis using assms update_interest_keeps(1,7) [OF u]
    by (simp add: write_interest_def) (rule put [of _ fd c]; simp)
qed

lemma flush: "I s \<Longrightarrow> I (flush_connection fd s)"
  by (auto simp: flush_connection_def Let_def split: option.split prod.split send_end.split intro!: interest put)

lemma resume [simp]: "I (resume_accept lfd s) = I s"
  by (rule iffI; erule depends; simp)

lemma pause [simp]: "I (pause_accept lfd s) = I s"
  by (rule iffI; erule depends; simp)

lemma finalize [simp]: "I (finalize_files g r s) = I s"
  by (rule iffI; erule depends; simp)

lemma append: "I s \<Longrightarrow> I (append_output fd out s)"
  by (auto simp: append_output_def Let_def split: option.split intro!: interest put)

lemma serve_waiting: "serve_waiting e now fd c s = (used, s') \<Longrightarrow> I s \<Longrightarrow> I s'"
  by (auto simp: serve_waiting_def Let_def flush process split: if_splits)

text \<open>The loop over the waiting connections, which leaves the busy one alone.\<close>

lemma waiting_loop:
  "waiting_loop e now busy n budget s = Some s' \<Longrightarrow> I s \<Longrightarrow>
     I s' \<and> (\<forall>fd. busy = Some fd \<longrightarrow> map_of (conns s') fd = map_of (conns s) fd)"
proof (induction n arbitrary: budget s)
  case (Suc n)
  show ?case
  proof (cases "waiting_conns s = [] \<or> budget = 0")
    case True
    with Suc.prems show ?thesis by (auto split: list.splits)
  next
    case False
    then obtain fd rest where w: "waiting_conns s = fd # rest" by (auto simp: neq_Nil_conv)
    define s1 where "s1 = s\<lparr>waiting_conns := rest\<rparr>"
    have ok1: "I s1" and c1: "conns s1 = conns s" using Suc.prems(2) by (simp_all add: s1_def)
    note eq = Suc.prems(1) [unfolded waiting_loop.simps w list.case s1_def [symmetric] Let_def]
    show ?thesis
    proof (cases "\<exists>c. map_of (conns s1) fd = Some c \<and> \<not> c_closed c")
      case True
      then obtain c used s2 where c: "map_of (conns s1) fd = Some c" "\<not> c_closed c"
        and s2: "serve_waiting e now fd c s1 = (used, s2)" by (metis surj_pair)
      then have "busy \<noteq> Some fd" "waiting_loop e now busy n (if used then budget - 1 else budget) s2 = Some s'"
        using eq False by (auto split: if_splits)
      then show ?thesis
        using Suc.IH [of "if used then budget - 1 else budget" s2] serve_waiting [OF s2] serve_waiting_other [OF s2] ok1 c1
        by auto
    next
      case no: False
      then have "waiting_loop e now busy n budget s1 = Some s'" using eq False by (auto split: option.splits if_splits)
      then show ?thesis using Suc.IH [of budget s1] ok1 c1 by simp
    qed
  qed
qed simp

lemma process_waiting:
  "process_waiting_connections e now busy s = Some s' \<Longrightarrow> I s \<Longrightarrow>
     I s' \<and> (\<forall>fd. busy = Some fd \<longrightarrow> map_of (conns s') fd = map_of (conns s) fd)"
  by (auto simp: process_waiting_connections_def Let_def dest: waiting_loop split: if_splits)

lemma release:
  assumes "release_request e now busy r s = Some s'" "I (s\<lparr>pool := drop_request r (pool s)\<rparr>)"
  shows "I s'" "\<forall>fd. busy = Some fd \<longrightarrow> map_of (conns s') fd = map_of (conns s) fd"
proof -
  define s1 where "s1 = s\<lparr>pool := drop_request r (pool s)\<rparr>"
  have "I s' \<and> (\<forall>fd. busy = Some fd \<longrightarrow> map_of (conns s') fd = map_of (conns s1) fd)"
    using assms process_waiting [of e now busy "resume_accept (listen_fd e) s1" s'] process_waiting [of e now busy s1 s']
    by (auto simp: release_request_def s1_def [symmetric] Let_def split: if_splits)
  then show "I s'" "\<forall>fd. busy = Some fd \<longrightarrow> map_of (conns s') fd = map_of (conns s) fd" by (simp_all add: s1_def)
qed

lemma read_input: "I s \<Longrightarrow> I (read_input e now fd received eof s)"
  by (auto simp: read_input_def Let_def intro!: flush process put split: option.split)

text \<open>An event of a connection, when sweeping and closing keep the invariant.\<close>

lemma handle_io:
  assumes "handle_io e now fd events received eof s = Some s'" "I s"
    and sweep: "\<And>ids s s'. sweep_requests e now fd ids s = Some s' \<Longrightarrow> I s \<Longrightarrow> I s'"
    and close: "\<And>fds s s'. close_all e now fds s = Some s' \<Longrightarrow> I s \<Longrightarrow> I s'"
  shows "I s'"
proof (cases "map_of (conns s) fd")
  case None
  with assms(1,2) show ?thesis by (simp add: handle_io_def)
next
  case (Some c)
  define s1 where "s1 = (if events AND (EPOLLHUP OR EPOLLERR) \<noteq> 0 then put_conn fd (c\<lparr>c_closed := True\<rparr>) s else s)"
  define s2 where "s2 = (if events AND EPOLLIN \<noteq> 0 then read_input e now fd received eof s1 else s1)"
  define s3 where "s3 = (if events AND EPOLLOUT \<noteq> 0 then flush_connection fd s2 else s2)"
  define ids where "ids = (case map_of (conns s3) fd of None \<Rightarrow> [] | Some c3 \<Rightarrow> map fst (c_requests c3))"
  have s3: "I s3"
    using assms(2) Some by (simp add: s1_def s2_def s3_def put read_input flush)
  have eq: "handle_io e now fd events received eof s = do { s4 \<leftarrow> sweep_requests e now fd ids s3;
      let s5 = (case map_of (conns s4) fd of
          None \<Rightarrow> s4
        | Some c4 \<Rightarrow> if should_close_connection c4 then s4\<lparr>close_queue := close_queue s4 @ [fd]\<rparr> else s4);
      close_all e now (close_queue s5) (s5\<lparr>close_queue := []\<rparr>) }"
    unfolding handle_io_def Some option.case Let_def s1_def s2_def s3_def ids_def ..
  obtain s4 where s4: "sweep_requests e now fd ids s3 = Some s4"
    using assms(1) unfolding eq by (cases "sweep_requests e now fd ids s3") simp_all
  define s5 where "s5 = (case map_of (conns s4) fd of
          None \<Rightarrow> s4
        | Some c4 \<Rightarrow> if should_close_connection c4 then s4\<lparr>close_queue := close_queue s4 @ [fd]\<rparr> else s4)"
  have s': "close_all e now (close_queue s5) (s5\<lparr>close_queue := []\<rparr>) = Some s'"
    using assms(1) unfolding eq s4 by (simp add: s5_def Let_def)
  have "I s4" by (rule sweep [OF s4 s3])
  then have "I s5" by (auto simp: s5_def split: option.split)
  then show ?thesis using close [OF s'] by simp
qed

end

end
