(* ===== verification/Ownership.thy ===== *)
theory Ownership
  imports Handlers "HOL-Library.Multiset"
begin

text \<open>
  Who owns which arena in the FastCGI server. The requests of all connections and the free arenas of
  the pool are one ledger, a multiset of arenas; every operation of the server keeps its sum.
\<close>

section \<open>Requests and their arenas\<close>

definition arenas_in :: "(u16 \<times> request) list \<Rightarrow> nat multiset" where
  "arenas_in rs = image_mset (\<lambda>ir. arena (snd ir)) (mset rs)"

lemma arenas_in_simps [simp]:
  "arenas_in [] = {#}" "arenas_in ((i, r) # rs) = add_mset (arena r) (arenas_in rs)"
  by (simp_all add: arenas_in_def)

lemma arenas_in_update_new: "map_of rs i = None \<Longrightarrow> arenas_in (AList.update i r rs) = add_mset (arena r) (arenas_in rs)"
  by (simp add: update_fresh map_of_eq_None_iff arenas_in_def)

lemma arenas_in_update: "map_of rs i = Some r \<Longrightarrow> arena r' = arena r \<Longrightarrow> arenas_in (AList.update i r' rs) = arenas_in rs"
  by (induction rs) (auto simp: arenas_in_def split: if_splits)

lemma arenas_in_delete:
  "umap_ok rs \<Longrightarrow> map_of rs i = Some r \<Longrightarrow> arenas_in rs = add_mset (arena r) (arenas_in (AList.delete i rs))"
  by (induction rs) (auto simp: arenas_in_def umap_ok_def delete_id map_of_eq_None_iff split: if_splits)

text \<open>What identifies a request: its place, its owner, its id.\<close>

definition placed :: "nat \<Rightarrow> int \<Rightarrow> u16 \<Rightarrow> request \<Rightarrow> bool" where
  "placed a fd i r \<longleftrightarrow> arena r = a \<and> conn_ptr r = Some fd \<and> req_id r = i"

lemma placed_simps [simp]:
  "placed a fd i (set_flag f r) = placed a fd i r" "placed a fd i (r\<lparr>env := ev\<rparr>) = placed a fd i r"
  "placed a fd i (r\<lparr>body := b\<rparr>) = placed a fd i r" "placed a fd i (r\<lparr>body_bytes := n\<rparr>) = placed a fd i r"
  "placed a fd i (r\<lparr>params_bytes := n\<rparr>) = placed a fd i r" "placed a fd i (r\<lparr>worker_active := w\<rparr>) = placed a fd i r"
  by (simp_all add: placed_def)

lemma placed_fail: "placed a fd i (fst (fail_request st (r, out))) = placed a fd i r"
  by (simp add: fail_request_def)

lemma placed_params_loop: "placed a fd i (fst (params_loop lim p (r, out))) = placed a fd i r"
proof (induction lim p "(r, out)" arbitrary: r out rule: params_loop.induct)
  case (1 lim p r out)
  obtain n p1 where d1: "decode_length p = (n, p1)" by force
  obtain v p2 where d2: "decode_length p1 = (v, p2)" by force
  let ?r = "r\<lparr>env := dv_put (string_of (take n p2)) (make_string (string_of (take v (drop n p2)))) (env r),
    params_bytes := params_bytes r + (n + v)\<rparr>"
  have "placed a fd i (fst (params_loop lim (drop (n + v) p2) (?r, out))) = placed a fd i ?r"
    if "p \<noteq> []" "\<not> length p2 < n + v" "\<not> max_params_bytes lim < params_bytes r + n + v"
    using 1 [OF that(1) d1 [symmetric] refl d2 [symmetric] refl that(2,3) refl refl refl] .
  then show ?case
    by (subst params_loop.simps) (simp add: d1 d2 Let_def placed_fail)
qed

lemma actions_placed: "actions_keep lim (\<lambda>_. placed a fd i)"
  by (auto simp: actions_keep_def begin_action_def params_action_def stdin_action_def abort_action_def Let_def
      placed_fail placed_params_loop)

section \<open>One connection\<close>

definition io_ledger :: "io_world fcgi_state \<Rightarrow> nat multiset" where
  "io_ledger f = arenas_in (requests f) + mset_set (free_arenas (manager (iw_pool (world f))))"

text \<open>The requests of a map: distinct ids, each request with its own, owned by \<open>fd\<close>, in an arena of the pool.\<close>

definition requests_ok :: "nat set \<Rightarrow> int \<Rightarrow> (u16 \<times> request) list \<Rightarrow> bool" where
  "requests_ok A fd rs \<longleftrightarrow> umap_ok rs \<and> (\<forall>(i, r)\<in>set rs. arena r \<in> A \<and> placed (arena r) fd i r)"

lemma requests_ok_Nil [simp]: "requests_ok A fd []"
  by (simp add: requests_ok_def)

lemma requests_ok_map_of: "requests_ok A fd rs \<Longrightarrow> map_of rs i = Some r \<Longrightarrow> arena r \<in> A \<and> placed (arena r) fd i r"
  by (auto simp: requests_ok_def dest: map_of_SomeD)

lemma requests_ok_update:
  "requests_ok A fd rs \<Longrightarrow> a \<in> A \<Longrightarrow> placed a fd i r \<Longrightarrow> requests_ok A fd (AList.update i r rs)"
  using set_update_le [of i r rs] by (auto simp: requests_ok_def placed_def)

lemma requests_ok_delete: "requests_ok A fd rs \<Longrightarrow> requests_ok A fd (AList.delete i rs)"
  using set_delete_le [of i rs] by (auto simp: requests_ok_def)

definition io_ok :: "nat set \<Rightarrow> nat multiset \<Rightarrow> int \<Rightarrow> io_world fcgi_state \<Rightarrow> bool" where
  "io_ok A M fd f \<longleftrightarrow> pool_ok (iw_pool (world f)) \<and> all_arenas (manager (iw_pool (world f))) = A \<and>
     requests_ok A fd (requests f) \<and> io_ledger f = M"

lemma io_ok_balance:
  "io_ok A M fd f \<longleftrightarrow> all_arenas (manager (iw_pool (world f))) = A \<and> requests_ok A fd (requests f) \<and>
     places.balance M (arenas_in (requests f)) (iw_pool (world f))"
  by (auto simp: io_ok_def io_ledger_def places.balance_def)

lemma io_ok_cong [simp]:
  "io_ok A M fd (f\<lparr>out_buf := b\<rparr>) = io_ok A M fd f" "io_ok A M fd (f\<lparr>waiting_for_arena := v\<rparr>) = io_ok A M fd f"
  "world f = w \<Longrightarrow> io_ok A M fd (f\<lparr>world := w\<lparr>iw_active := n, iw_tasks := ts\<rparr>\<rparr>) = io_ok A M fd f"
  by (auto simp add: io_ok_def io_ledger_def)

lemma io_ok_store:
  "io_ok A M fd f \<Longrightarrow> map_of (requests f) i = Some r \<Longrightarrow> placed (arena r) fd i r' \<Longrightarrow> io_ok A M fd (store_req i r' f)"
  using requests_ok_map_of [of A fd "requests f" i r]
  by (auto simp: io_ok_def io_ledger_def store_req_def arenas_in_update placed_def intro!: requests_ok_update)

lemma io_ok_current:
  assumes "io_ok A M fd f" "current_req (io_callbacks g now fd) i f = (q, f')"
  shows "io_ok A M fd f' \<and> (case q of None \<Rightarrow> True | Some r \<Rightarrow> map_of (requests f') i = Some r)"
proof (cases "map_of (requests f) i")
  case (Some r)
  with assms show ?thesis by (auto simp: current_req_def split: option.splits)
next
  case None
  let ?w = "world f"
  have b: "places.balance M (arenas_in (requests f)) (iw_pool ?w)" and A: "all_arenas (manager (iw_pool ?w)) = A"
    using assms(1) by (simp_all add: io_ok_balance)
  then have ok: "pool_ok (iw_pool ?w)" by (simp add: places.balance_def)
  obtain r p where pl: "place_request now (iw_pool ?w) = (r, p)" by force
  show ?thesis
  proof (cases r)
    case None
    have "take_place now (iw_pool ?w) = (None, p)" using pl None by (simp add: take_place_def)
    with places.acquire_None [OF ok this] pl None assms \<open>map_of (requests f) i = None\<close> show ?thesis
      by (auto simp: current_req_def io_callbacks_def allocate_request_in_def)
  next
    case (Some r0)
    have t: "take_place now (iw_pool ?w) = (Some (arena r0), p)" using pl Some by (simp add: take_place_def)
    note T = places.acquire_Some [OF ok t]
    have "arena r0 \<in> A" using T places.free_subset [OF ok] A by blast
    moreover have "q = Some (r0\<lparr>req_id := i, conn_ptr := Some fd\<rparr>)"
      "f' = f\<lparr>world := ?w\<lparr>iw_pool := p\<rparr>, requests := AList.update i (r0\<lparr>req_id := i, conn_ptr := Some fd\<rparr>) (requests f)\<rparr>"
      using assms(2) None pl Some by (auto simp: current_req_def io_callbacks_def allocate_request_in_def)
    ultimately show ?thesis using assms(1) T A places.balance_acquire [OF b t] None
      by (auto simp: io_ok_balance arenas_in_update_new placed_def intro!: requests_ok_update)
  qed
qed

lemma placed_ready: "placed a fd i (fst (internal_on_request_ready g r w)) = placed a fd i r"
  by (auto simp: internal_on_request_ready_def placed_def split: option.split)

lemma ready_world:
  "\<exists>n ts. snd (internal_on_request_ready g r w) = w\<lparr>iw_active := n, iw_tasks := ts\<rparr>"
proof -
  have same: "\<exists>n ts. w = w\<lparr>iw_active := n, iw_tasks := ts\<rparr>"
    by (rule exI [of _ "iw_active w"], rule exI [of _ "iw_tasks w"]) simp
  show ?thesis by (auto simp: internal_on_request_ready_def same split: option.split)
qed

lemma io_ok_finish:
  assumes "io_ok A M fd f" "map_of (requests f) i = Some r" "placed (arena r) fd i r'"
  shows "io_ok A M fd (finish_record (io_callbacks g now fd) i (r', out) f)"
proof -
  let ?f1 = "store_req i r' (f\<lparr>out_buf := out\<rparr>)"
  have ok: "io_ok A M fd ?f1" using io_ok_store [of A M fd "f\<lparr>out_buf := out\<rparr>" i r r'] assms by simp
  obtain r2 w2 where w2: "internal_on_request_ready g r' (world ?f1) = (r2, w2)" by force
  have "placed (arena r') fd i r2" using placed_ready [of "arena r'" fd i g r' "world ?f1"] assms(3) w2
    by (simp add: placed_def)
  moreover have "io_ok A M fd (?f1\<lparr>world := w2\<rparr>)"
    using ready_world [of g r' "world ?f1"] ok w2 io_ok_cong(3) [OF refl, where f = ?f1] by auto
  moreover have "map_of (requests ?f1) i = Some r'" by (simp add: store_req_def)
  ultimately show ?thesis using ok w2 io_ok_store [of A M fd "?f1\<lparr>world := w2\<rparr>" i r' r2]
    by (simp add: finish_record_def Let_def io_callbacks_def)
qed

lemma io_ok_handle:
  assumes "io_ok A M fd f"
  shows "case handle_record lim (io_callbacks g now fd) rc f of Inl f' \<Rightarrow> io_ok A M fd f' | Inr f' \<Rightarrow> io_ok A M fd f'"
proof -
  obtain ty i content where rc: "rc = Record ty i content" by (cases rc)
  obtain q f' where c: "current_req (io_callbacks g now fd) i f = (q, f')" by force
  note p = io_ok_current [OF assms c]
  have fin: "io_ok A M fd (finish_record (io_callbacks g now fd) i x f')"
    if "q = Some r" "\<And>a. placed a fd i r \<Longrightarrow> placed a fd i (fst x)" for r x
  proof -
    have m: "io_ok A M fd f'" "map_of (requests f') i = Some r" using p that(1) by simp_all
    then have "placed (arena r) fd i r" using requests_ok_map_of by (auto simp: io_ok_def)
    then show ?thesis using io_ok_finish [OF m, of "fst x" g now "snd x"] that(2) by simp
  qed
  have acts: "placed a fd i r \<Longrightarrow> placed a fd i (begin_action content r)"
    "placed a fd i r \<Longrightarrow> placed a fd i (fst (params_action lim content (r, out)))"
    "placed a fd i r \<Longrightarrow> placed a fd i (fst (stdin_action lim content (r, out)))"
    "placed a fd i r \<Longrightarrow> placed a fd i (fst (abort_action (r, out)))" for a r out
    using actions_placed [of lim a fd i] by (simp_all add: actions_keep_def)
  show ?thesis using p c assms acts
    by (cases q) (auto simp: handle_record_def with_request_def rc intro!: fin)
qed

lemma io_ok_process:
  assumes "io_ok A M fd f" "process_buffer lim (io_callbacks g now fd) buf f = (st, rest, f')"
  shows "io_ok A M fd f'"
proof -
  from process_buffer_loop [OF assms(2)] obtain e r where
    l: "record_loop lim (io_callbacks g now fd) buf f = (e, r, f')" by blast
  show ?thesis
  proof (rule fcgi_loop.run_invariant [where I = "io_ok A M fd", OF l assms(1)])
    fix rc f f' assume "io_ok A M fd f"
    from io_ok_handle [OF this, of lim g now rc]
    show "handle_record lim (io_callbacks g now fd) rc f = Inl f' \<Longrightarrow> io_ok A M fd f'"
      "handle_record lim (io_callbacks g now fd) rc f = Inr f' \<Longrightarrow> io_ok A M fd f'" by auto
  qed
qed

section \<open>The server\<close>

definition conn_arenas :: "(int \<times> connection) list \<Rightarrow> nat multiset" where
  "conn_arenas cs = (\<Sum>fc\<leftarrow>cs. arenas_in (c_requests (snd fc)))"

definition ledger :: "server \<Rightarrow> nat multiset" where
  "ledger s = conn_arenas (conns s) + mset_set (free_arenas (manager (pool s)))"

definition server_ok :: "nat set \<Rightarrow> nat multiset \<Rightarrow> server \<Rightarrow> bool" where
  "server_ok A M s \<longleftrightarrow> pool_ok (pool s) \<and> all_arenas (manager (pool s)) = A \<and> umap_ok (conns s) \<and>
     (\<forall>(fd, c)\<in>set (conns s). requests_ok A fd (c_requests c)) \<and> ledger s = M"

lemma server_ok_balance:
  "server_ok A M s \<longleftrightarrow> all_arenas (manager (pool s)) = A \<and> umap_ok (conns s) \<and>
     (\<forall>(fd, c)\<in>set (conns s). requests_ok A fd (c_requests c)) \<and> places.balance M (conn_arenas (conns s)) (pool s)"
  by (auto simp: server_ok_def places.balance_def ledger_def)

lemma conn_arenas_update:
  "map_of cs fd = Some c \<Longrightarrow>
     conn_arenas (AList.update fd c' cs) + arenas_in (c_requests c) = conn_arenas cs + arenas_in (c_requests c')"
  by (induction cs) (auto simp: conn_arenas_def ac_simps split: if_splits)

lemma conn_arenas_new:
  "map_of cs fd = None \<Longrightarrow> conn_arenas (AList.update fd c cs) = conn_arenas cs + arenas_in (c_requests c)"
  by (simp add: update_fresh map_of_eq_None_iff conn_arenas_def)

lemma conn_arenas_delete:
  "umap_ok cs \<Longrightarrow> map_of cs fd = Some c \<Longrightarrow> conn_arenas cs = conn_arenas (AList.delete fd cs) + arenas_in (c_requests c)"
  by (induction cs) (auto simp: conn_arenas_def umap_ok_def delete_id map_of_eq_None_iff ac_simps split: if_splits)

lemma server_ok_conn: "server_ok A M s \<Longrightarrow> map_of (conns s) fd = Some c \<Longrightarrow> requests_ok A fd (c_requests c)"
  by (auto simp: server_ok_def dest: map_of_SomeD)

lemma conns_ok_update:
  "\<forall>(fd, c)\<in>set cs. requests_ok A fd (c_requests c) \<Longrightarrow> requests_ok A fd (c_requests c) \<Longrightarrow>
     \<forall>(fd, c)\<in>set (AList.update fd c cs). requests_ok A fd (c_requests c)"
  using set_update_le [of fd c cs] by blast

lemma sums_shift:
  fixes a :: "nat multiset"
  shows "a' + r = a + r' \<Longrightarrow> r' + f' + n = r + f \<Longrightarrow> a' + f' + n = a + f"
proof -
  assume a: "a' + r = a + r'" "r' + f' + n = r + f"
  have "(a' + f' + n) + (r + r') = (a' + r) + (r' + f' + n)" by (simp add: ac_simps)
  also have "\<dots> = (a + f) + (r + r')" unfolding a by (simp add: ac_simps)
  finally show ?thesis by simp
qed

text \<open>Changing one connection's requests and the pool together.\<close>

lemma server_ok_change:
  assumes "server_ok A M s" "map_of (conns s) fd = Some c" "requests_ok A fd (c_requests c')"
    and "pool_ok (pool s')" "all_arenas (manager (pool s')) = A" "conns s' = AList.update fd c' (conns s)"
    and "arenas_in (c_requests c') + mset_set (free_arenas (manager (pool s'))) + N =
      arenas_in (c_requests c) + mset_set (free_arenas (manager (pool s)))"
  shows "server_ok A (M - N) s'"
proof -
  have "conn_arenas (conns s') + arenas_in (c_requests c) = conn_arenas (conns s) + arenas_in (c_requests c')"
    unfolding assms(6) by (rule conn_arenas_update [OF assms(2)])
  then have "ledger s' + N = ledger s" unfolding ledger_def using assms(7) by (rule sums_shift)
  then have "ledger s' = M - N" using assms(1) by (auto simp: server_ok_def)
  moreover have "\<forall>(fd, c)\<in>set (conns s'). requests_ok A fd (c_requests c)"
    unfolding assms(6) using assms(1,3) by (intro conns_ok_update) (simp_all add: server_ok_def)
  moreover have "umap_ok (conns s')" using assms(1) by (simp add: server_ok_def assms(6))
  ultimately show ?thesis using assms(4,5) by (simp add: server_ok_def)
qed

lemma server_ok_put:
  "server_ok A M s \<Longrightarrow> map_of (conns s) fd = Some c \<Longrightarrow> c_requests c' = c_requests c \<Longrightarrow> server_ok A M (put_conn fd c' s)"
  using server_ok_change [of A M s fd c c' "put_conn fd c' s" "{#}"] server_ok_conn [of A M s fd c]
  by (simp add: put_conn_def server_ok_def)

lemma server_ok_tasks [simp]: "server_ok A M (s\<lparr>fcgi_tasks := ts\<rparr>) = server_ok A M s"
  by (simp add: server_ok_def ledger_def)

lemma process_ok:
  assumes "server_ok A M s"
  shows "server_ok A M (process_fcgi e now fd s)"
proof (cases "map_of (conns s) fd")
  case None
  with assms show ?thesis by (simp add: process_fcgi_def)
next
  case (Some c)
  obtain st rest f where p: "process_buffer (config_limits (se_config e)) (io_callbacks (se_config e) now fd)
      (c_in_buf c) (load_io c s) = (st, rest, f)" by (metis prod_cases3)
  let ?M = "arenas_in (c_requests c) + mset_set (free_arenas (manager (pool s)))"
  have "io_ok A ?M fd (load_io c s)"
    using assms server_ok_conn [OF assms Some] by (simp add: io_ok_def io_ledger_def load_io_def server_ok_def)
  from io_ok_process [OF this p] have f: "io_ok A ?M fd f" .
  then have "server_ok A (M - {#}) (store_io fd (c\<lparr>c_in_buf := rest, c_closed := (st = CLOSE)\<rparr>) f s)"
    by (intro server_ok_change [OF assms Some])
      (auto simp: store_io_def put_conn_def io_ok_def io_ledger_def)
  with Some p assms show ?thesis by (simp add: process_fcgi_def)
qed

interpretation accounts: server_invariant "server_ok A M" for A M
proof
  show "server_ok A M s'" if "server_ok A M s" "conns s' = conns s" "pool s' = pool s" for s s'
    using that by (simp add: server_ok_def ledger_def)
qed (simp_all add: server_ok_put process_ok)

section \<open>Giving arenas back\<close>

lemma release_ok:
  assumes "release_request e now busy r s = Some s'" "server_ok A M s" "arena r \<in> A"
    and "arena r \<notin> free_arenas (manager (pool s))"
  shows "server_ok A (add_mset (arena r) M) s'" "\<forall>fd. busy = Some fd \<longrightarrow> map_of (conns s') fd = map_of (conns s) fd"
proof -
  have ok: "pool_ok (pool s)" "arena r \<in> all_arenas (manager (pool s))" using assms(2,3) by (simp_all add: server_ok_def)
  have "server_ok A (add_mset (arena r) M) (s\<lparr>pool := drop_request r (pool s)\<rparr>)"
    using assms(2,4) drop_request_ok [OF ok] by (simp add: server_ok_def ledger_def)
  from accounts.release [OF assms(1) this]
  show "server_ok A (add_mset (arena r) M) s'" "\<forall>fd. busy = Some fd \<longrightarrow> map_of (conns s') fd = map_of (conns s) fd"
    by simp_all
qed

text \<open>A request that a connection holds and that the ledger counts once is not free.\<close>

lemma held_not_free:
  assumes "server_ok A M s" "map_of (conns s) fd = Some c" "(i, r) \<in> set (c_requests c)" "count M (arena r) = 1"
  shows "arena r \<notin> free_arenas (manager (pool s))"
proof
  assume "arena r \<in> free_arenas (manager (pool s))"
  then have "arena r \<in># mset_set (free_arenas (manager (pool s)))" by (simp add: free_arenas_def)
  moreover have "arena r \<in># arenas_in (c_requests c)" using assms(3) by (force simp: arenas_in_def)
  moreover have "conn_arenas (conns s) = conn_arenas (AList.delete fd (conns s)) + arenas_in (c_requests c)"
    using assms(1,2) by (intro conn_arenas_delete) (simp_all add: server_ok_def)
  ultimately have "arena r \<in># mset_set (free_arenas (manager (pool s)))" "arena r \<in># conn_arenas (conns s)" by simp_all
  then have "1 \<le> count (mset_set (free_arenas (manager (pool s)))) (arena r)" "1 \<le> count (conn_arenas (conns s)) (arena r)"
    by (simp_all only: count_greater_eq_one_iff)
  then have "2 \<le> count (ledger s) (arena r)" unfolding ledger_def by (simp only: count_union)
  with assms(1,4) show False by (simp add: server_ok_def)
qed

section \<open>Closing\<close>

text \<open>With the arenas \<open>B\<close>, the server's share of the pool \<open>A\<close>, counted once each.\<close>

abbreviation whole :: "nat set \<Rightarrow> nat set \<Rightarrow> server \<Rightarrow> bool" where
  "whole A B s \<equiv> server_ok A (mset_set B) s"

lemma whole_finite: "server_ok A M s \<Longrightarrow> finite A"
  by (auto simp: server_ok_def all_arenas_def)

lemma cleanup_loop_ok:
  assumes "cleanup_loop e now fd rs s = Some s'" "server_ok A (mset_set B + arenas_in gone) s"
    and "map_of (conns s) fd = Some c" "mset (c_requests c) = mset gone + mset rs" "arenas_in (c_requests c) \<subseteq># mset_set B"
  shows "server_ok A (mset_set B + arenas_in (c_requests c)) s' \<and> map_of (conns s') fd = Some c"
  using assms
proof (induction rs arbitrary: gone s)
  case Nil
  then have "arenas_in (c_requests c) = arenas_in gone" by (simp add: arenas_in_def)
  with Nil show ?case by simp
next
  case (Cons ir rs)
  obtain i r where ir: "ir = (i, r)" by force
  define s1 where "s1 = (if \<not> has RESPONDED r then finalize_files (se_config e) r s else s)"
  have s1: "server_ok A (mset_set B + arenas_in gone) s1" "conns s1 = conns s" using Cons.prems(2) by (simp_all add: s1_def)
  obtain s2 where s2: "release_request e now (Some fd) r s1 = Some s2" "cleanup_loop e now fd rs s2 = Some s'"
    using Cons.prems(1) by (auto simp: ir s1_def [symmetric] Let_def bind_eq_Some_conv)
  have sum: "arenas_in (c_requests c) = arenas_in gone + add_mset (arena r) (arenas_in rs)"
    using Cons.prems(4) by (simp add: arenas_in_def ir)
  have mem: "(i, r) \<in> set (c_requests c)" using Cons.prems(4) by (metis ir list.set_intros(1) set_mset_mset union_iff)
  have A: "arena r \<in> A"
    using server_ok_conn [OF Cons.prems(2,3)] mem by (auto simp: requests_ok_def)
  have "count (arenas_in (c_requests c)) (arena r) \<le> count (mset_set B) (arena r)"
    using Cons.prems(5) by (simp add: subseteq_mset_def)
  moreover have "count (mset_set B) (arena r) \<le> 1" by (rule count_mset_set_le)
  ultimately have one: "count (mset_set B) (arena r) = 1" "count (arenas_in gone) (arena r) = 0"
    unfolding sum by simp_all
  then have "arena r \<notin> free_arenas (manager (pool s1))"
    using held_not_free [of A _ s1 fd c i r] s1 Cons.prems(3) mem by simp
  from release_ok [OF s2(1) s1(1) A this]
  have "server_ok A (mset_set B + arenas_in (ir # gone)) s2" "map_of (conns s2) fd = Some c"
    using Cons.prems(3) by (simp_all add: s1 ir)
  from Cons.IH [OF s2(2) this] Cons.prems(4,5) show ?case by simp
qed

lemma requests_le:
  assumes "whole A B s" "map_of (conns s) fd = Some c"
  shows "arenas_in (c_requests c) \<subseteq># mset_set B"
proof -
  have "conn_arenas (conns s) = conn_arenas (AList.delete fd (conns s)) + arenas_in (c_requests c)"
    using assms by (intro conn_arenas_delete) (simp_all add: server_ok_def)
  moreover have "mset_set B = ledger s" using assms(1) by (simp add: server_ok_def)
  ultimately show ?thesis unfolding ledger_def by (simp add: ac_simps)
qed

lemma whole_held:
  assumes "whole A B s" "map_of (conns s) fd = Some c" "(i, r) \<in> set (c_requests c)"
  shows "arena r \<notin> free_arenas (manager (pool s))"
proof (rule held_not_free [OF assms])
  have "arena r \<in># arenas_in (c_requests c)" using assms(3) by (force simp: arenas_in_def)
  then have "1 \<le> count (mset_set B) (arena r)"
    using mset_subset_eqD [OF requests_le [OF assms(1,2)]] by (simp only: count_greater_eq_one_iff)
  with count_mset_set_le [of B "arena r"] show "count (mset_set B) (arena r) = 1" by linarith
qed

lemma cleanup_ok:
  assumes "cleanup_connection_requests e now fd s = Some s'" "whole A B s"
  shows "whole A B s'"
proof (cases "map_of (conns s) fd")
  case None
  with assms show ?thesis by (simp add: cleanup_connection_requests_def)
next
  case (Some c)
  obtain s1 where s1: "cleanup_loop e now fd (c_requests c) s = Some s1" "s' = put_conn fd (c\<lparr>c_requests := []\<rparr>) s1"
    using assms(1) Some by (auto simp: cleanup_connection_requests_def bind_eq_Some_conv)
  note M = cleanup_loop_ok [OF s1(1), of A B "[]" c]
  have ok: "server_ok A (mset_set B + arenas_in (c_requests c)) s1" "map_of (conns s1) fd = Some c"
    using M assms(2) Some requests_le [OF assms(2) Some] by simp_all
  have "server_ok A (mset_set B + arenas_in (c_requests c) - arenas_in (c_requests c)) s'" unfolding s1(2)
    by (rule server_ok_change [OF ok, where c' = "c\<lparr>c_requests := []\<rparr>"]) (use ok in \<open>simp_all add: put_conn_def server_ok_def\<close>)
  then show ?thesis by simp
qed

lemma cleanup_empties:
  assumes "cleanup_connection_requests e now fd s = Some s'" "map_of (conns s) fd = Some c"
  obtains c' where "map_of (conns s') fd = Some c'" "c_requests c' = []"
  using assms by (auto simp: cleanup_connection_requests_def bind_eq_Some_conv)

lemma close_ok:
  assumes "close_connection e now fd s = Some s'" "whole A B s"
  shows "whole A B s'"
proof (cases "map_of (conns s) fd")
  case None
  with assms show ?thesis by (simp add: close_connection_def)
next
  case (Some c)
  obtain s1 where s1: "cleanup_connection_requests e now fd s = Some s1"
    and s': "s' = s1\<lparr>interest := AList.delete fd (interest s1), closed_fds := closed_fds s1 @ [fd],
      conns := AList.delete fd (conns s1)\<rparr>"
    using assms(1) Some by (auto simp: close_connection_def bind_eq_Some_conv)
  have w: "whole A B s1" by (rule cleanup_ok [OF s1 assms(2)])
  obtain c' where c': "map_of (conns s1) fd = Some c'" "c_requests c' = []" by (rule cleanup_empties [OF s1 Some])
  have d: "conn_arenas (AList.delete fd (conns s1)) = conn_arenas (conns s1)"
    using conn_arenas_delete [OF _ c'(1)] w c'(2) by (simp add: server_ok_def)
  have "\<forall>(fd, c)\<in>set (AList.delete fd (conns s1)). requests_ok A fd (c_requests c)"
    using set_delete_le [of fd "conns s1"] w unfolding server_ok_def by blast
  then show ?thesis using w d unfolding s' by (simp add: server_ok_def ledger_def)
qed

lemma sweep_ok:
  "sweep_requests e now fd ids s = Some s' \<Longrightarrow> whole A B s \<Longrightarrow> whole A B s'"
proof (induction ids arbitrary: s)
  case (Cons i ids)
  show ?case
  proof (cases "\<exists>c r. map_of (conns s) fd = Some c \<and> map_of (c_requests c) i = Some r \<and> \<not> worker_active r \<and>
      (has RESPONDED r \<or> has FAILED r \<or> has ABORTED r)")
    case True
    then obtain c r where cr: "map_of (conns s) fd = Some c" "map_of (c_requests c) i = Some r" "\<not> worker_active r"
      "has RESPONDED r \<or> has FAILED r \<or> has ABORTED r" by blast
    define s1 where "s1 = (if has RESPONDED r then finalize_files (se_config e) r s else s)"
    have s1: "whole A B s1" "conns s1 = conns s" using Cons.prems(2) by (simp_all add: s1_def)
    obtain s2 where s2: "release_request e now (Some fd) r s1 = Some s2"
      "sweep_requests e now fd ids (put_conn fd (c\<lparr>c_requests := AList.delete i (c_requests c)\<rparr>) s2) = Some s'"
      using Cons.prems(1) cr by (auto simp: s1_def [symmetric] Let_def bind_eq_Some_conv split: if_splits)
    note R = server_ok_conn [OF Cons.prems(2) cr(1)]
    have A: "arena r \<in> A" using requests_ok_map_of [OF R cr(2)] by simp
    have free: "arena r \<notin> free_arenas (manager (pool s1))"
      using whole_held [OF s1(1)] s1(2) cr(1) map_of_SomeD [OF cr(2)] by simp
    note ok2 = release_ok [OF s2(1) s1(1) A free]
    have c2: "map_of (conns s2) fd = Some c" using ok2(2) s1(2) cr(1) by simp
    have "arenas_in (c_requests c) = add_mset (arena r) (arenas_in (AList.delete i (c_requests c)))"
      using R cr(2) by (intro arenas_in_delete) (simp_all add: requests_ok_def)
    then have "server_ok A (add_mset (arena r) (mset_set B) - {#arena r#})
        (put_conn fd (c\<lparr>c_requests := AList.delete i (c_requests c)\<rparr>) s2)"
      by (intro server_ok_change [OF ok2(1) c2, where c' = "c\<lparr>c_requests := AList.delete i (c_requests c)\<rparr>"])
        (use ok2(1) R in \<open>simp_all add: put_conn_def server_ok_def requests_ok_delete\<close>)
    then show ?thesis using Cons.IH [OF s2(2)] by simp
  next
    case False
    then have "sweep_requests e now fd ids s = Some s' \<or> s' = s"
      using Cons.prems(1) by (auto split: option.splits if_splits)
    then show ?thesis using Cons by blast
  qed
qed simp

lemma put_new_ok:
  "server_ok A M s \<Longrightarrow> map_of (conns s) fd = None \<Longrightarrow> c_requests c = [] \<Longrightarrow> server_ok A M (put_conn fd c s)"
  using conns_ok_update [of "conns s" A fd c] by (simp add: server_ok_def put_conn_def ledger_def conn_arenas_new)

lemma close_all_ok:
  "close_all e now fds s = Some s' \<Longrightarrow> whole A B s \<Longrightarrow> whole A B s'"
proof (induction fds arbitrary: s)
  case (Cons fd fds)
  define s1 where "s1 = (if map_of (conns s) fd = None then put_conn fd new_connection s else s)"
  have s1: "whole A B s1" using Cons.prems(2) by (simp add: s1_def put_new_ok new_connection_def)
  from Cons.prems(1) obtain c where c: "map_of (conns s1) fd = Some c"
    "(if should_close_connection c then do { s2 \<leftarrow> close_connection e now fd s1; close_all e now fds s2 }
      else close_all e now fds s1) = Some s'"
    by (auto simp: s1_def [symmetric] Let_def split: option.splits)
  then show ?case using Cons.IH s1 close_ok by (auto simp: bind_eq_Some_conv split: if_splits)
qed simp

section \<open>Events\<close>

lemma accept_loop_ok: "server_ok A M s \<Longrightarrow> server_ok A M (accept_loop lfd fds s)"
proof (induction fds arbitrary: s)
  case (Cons cfd fds)
  show ?case using Cons
    by (auto simp: Let_def put_new_ok new_connection_def server_ok_put split: option.split intro!: Cons.IH)
qed simp

lemma handle_io_ok: "handle_io e now fd events received eof s = Some s' \<Longrightarrow> whole A B s \<Longrightarrow> whole A B s'"
  by (erule accounts.handle_io) (blast intro: sweep_ok close_all_ok)+

text \<open>Following a request's pointer.\<close>

lemma find_arena_Some: "umap_ok rs \<Longrightarrow> find_arena p rs = Some (i, r) \<Longrightarrow> map_of rs i = Some r \<and> arena r = p"
proof (induction rs)
  case (Cons jb rs)
  obtain j b where jb: "jb = (j, b)" by force
  show ?case
  proof (cases "arena b = p")
    case False
    with Cons jb have m: "map_of rs i = Some r" "arena r = p" by (simp_all add: umap_ok_def)
    then have "i \<in> fst ` set rs" by (force dest: map_of_SomeD)
    with Cons.prems(1) jb have "i \<noteq> j" by (auto simp: umap_ok_def)
    with m jb show ?thesis by simp
  qed (use Cons.prems jb in simp)
qed simp

lemma deref_Some:
  "umap_ok cs \<Longrightarrow> (\<And>k c. (k, c) \<in> set cs \<Longrightarrow> umap_ok (c_requests c)) \<Longrightarrow> deref p cs = Some (fd, i, r) \<Longrightarrow>
     \<exists>c. map_of cs fd = Some c \<and> map_of (c_requests c) i = Some r \<and> arena r = p"
proof (induction cs)
  case (Cons kc cs)
  obtain k c where kc: "kc = (k, c)" by force
  show ?case
  proof (cases "find_arena p (c_requests c)")
    case None
    then have "\<exists>c. map_of cs fd = Some c \<and> map_of (c_requests c) i = Some r \<and> arena r = p"
      using Cons kc by (intro Cons.IH) (auto simp: umap_ok_def)
    moreover from this have "fd \<noteq> k" using Cons.prems(1) kc by (force simp: umap_ok_def dest!: map_of_SomeD)
    ultimately show ?thesis by (simp add: kc)
  next
    case (Some ir)
    have "umap_ok (c_requests c)" using Cons.prems(2) kc by auto
    then show ?thesis using Some Cons.prems(3) kc find_arena_Some [of "c_requests c" p i r] by simp
  qed
qed simp

lemma server_deref:
  "server_ok A M s \<Longrightarrow> deref p (conns s) = Some (fd, i, r) \<Longrightarrow>
     \<exists>c. map_of (conns s) fd = Some c \<and> map_of (c_requests c) i = Some r \<and> arena r = p"
  by (intro deref_Some) (auto simp: server_ok_def requests_ok_def)

definition same_place :: "request \<Rightarrow> request \<Rightarrow> bool" where
  "same_place r r' \<longleftrightarrow> arena r' = arena r \<and> conn_ptr r' = conn_ptr r \<and> req_id r' = req_id r"

definition keeps_place :: "(request \<times> bytes \<times> files_world \<Rightarrow> request \<times> bytes \<times> files_world) \<Rightarrow> bool" where
  "keeps_place cb \<longleftrightarrow> (\<forall>r out fw. same_place r (fst (cb (r, out, fw))))"

lemma write_request_ok:
  assumes "server_ok A M s" "map_of (conns s) fd = Some c" "map_of (c_requests c) i = Some r" "same_place r r'"
  shows "server_ok A M (write_request fd i r' s)"
proof -
  note R = server_ok_conn [OF assms(1,2)]
  have "requests_ok A fd (AList.update i r' (c_requests c))"
    using requests_ok_map_of [OF R assms(3)] assms(4)
    by (intro requests_ok_update [OF R, of "arena r"]) (simp_all add: placed_def same_place_def)
  then have "server_ok A (M - {#}) (put_conn fd (c\<lparr>c_requests := AList.update i r' (c_requests c)\<rparr>) s)"
    using assms(1,3,4)
    by (intro server_ok_change [OF assms(1,2), where c' = "c\<lparr>c_requests := AList.update i r' (c_requests c)\<rparr>"])
      (simp_all add: put_conn_def server_ok_def arenas_in_update same_place_def)
  with assms(2) show ?thesis by (simp add: write_request_def)
qed

lemma pending_loop_ok:
  assumes "keeps_place (user_request_ready e)"
  shows "pending_loop e ps s = Some s' \<Longrightarrow> server_ok A M s \<Longrightarrow> server_ok A M s'"
proof (induction ps arbitrary: s)
  case (Cons p ps)
  then obtain owner i r where d: "deref p (conns s) = Some (owner, i, r)" by (auto split: option.splits)
  from server_deref [OF Cons.prems(2) d] obtain c where c: "map_of (conns s) owner = Some c" "map_of (c_requests c) i = Some r"
    by blast
  obtain r' out fw where u: "user_request_ready e (r, [], disk_files s) = (r', out, fw)" by (metis prod_cases3)
  then have "same_place r r'" using assms by (metis keeps_place_def fst_conv)
  then have "server_ok A M (append_output fd out (write_request owner i r' (s\<lparr>disk_files := fw\<rparr>)))" for fd
    using Cons.prems(2) c by (intro accounts.append write_request_ok [where c = c and r = r]) simp_all
  then show ?case
    using Cons.prems d u Cons.IH by (auto split: if_splits option.splits)
qed simp

definition expired :: "global_config \<Rightarrow> nat \<Rightarrow> request \<Rightarrow> request" where
  "expired g now r = (if timed_out g now r then set_flag RESPONDED (set_flag FAILED r) else r)"

lemma expire_requests_map: "fst (expire_requests g now rs out) = map (\<lambda>(i, r). (i, expired g now r)) rs"
  by (induction g now rs out rule: expire_requests.induct) (auto simp: expired_def split: prod.split)

lemma expired_placed [simp]: "placed a fd i (expired g now r) = placed a fd i r" "arena (expired g now r) = arena r"
  by (simp_all add: expired_def)

lemma expire_connection_requests:
  "c_requests (expire_connection g now c) = map (\<lambda>(i, r). (i, expired g now r)) (c_requests c)"
  using expire_requests_map [of g now "c_requests c" "c_out_buf c"]
  by (cases "expire_requests g now (c_requests c) (c_out_buf c)") (simp add: expire_connection_def)

lemma expire_connection_keeps:
  "arenas_in (c_requests (expire_connection g now c)) = arenas_in (c_requests c)"
  "requests_ok A fd (c_requests c) \<Longrightarrow> requests_ok A fd (c_requests (expire_connection g now c))"
proof -
  show "arenas_in (c_requests (expire_connection g now c)) = arenas_in (c_requests c)"
    by (simp add: expire_connection_requests arenas_in_def image_mset.compositionality comp_def case_prod_beta
        flip: mset_map)
  assume "requests_ok A fd (c_requests c)"
  then show "requests_ok A fd (c_requests (expire_connection g now c))"
    by (force simp: expire_connection_requests requests_ok_def umap_ok_def comp_def case_prod_beta)
qed

lemma close_listed_ok: "close_listed e now fds s = Some s' \<Longrightarrow> whole A B s \<Longrightarrow> whole A B s'"
  by (induction fds arbitrary: s) (auto simp: bind_eq_Some_conv dest: close_ok)

lemma housekeeping_ok:
  assumes "housekeeping_close_idle e now s = Some s'" "whole A B s"
  shows "whole A B s'"
proof -
  define cs where "cs = map (\<lambda>(fd, c). (fd, expire_connection (se_config e) now c)) (conns s)"
  have "map fst cs = map fst (conns s)" by (simp add: cs_def comp_def case_prod_beta)
  moreover have "conn_arenas cs = conn_arenas (conns s)"
    by (simp add: cs_def conn_arenas_def comp_def case_prod_beta expire_connection_keeps)
  ultimately have "whole A B (s\<lparr>conns := cs\<rparr>)"
    using assms(2) by (auto simp: server_ok_def umap_ok_def ledger_def) (auto simp: cs_def intro!: expire_connection_keeps)
  then show ?thesis using assms(1) close_listed_ok
    by (auto simp: housekeeping_close_idle_def cs_def [symmetric] Let_def)
qed

text \<open>A worker changes what the request says, not where it lives.\<close>

lemma same_place_refl [simp]: "same_place r r"
  by (simp add: same_place_def)

definition task_keeps :: "request \<Rightarrow> request \<Rightarrow> bool" where
  "task_keeps r r' \<longleftrightarrow> same_place r r' \<and> flags r' = flags r \<and> env r' = env r \<and> body r' = body r"

lemma form_data_place: "parse_form_data save dir (r, w) = (r', w') \<Longrightarrow> task_keeps r r'"
  by (auto simp: parse_form_data_def parse_json_form_data_def parse_urlencoded_form_data_def
      parse_multipart_form_data_def task_keeps_def same_place_def Let_def split: option.splits if_splits prod.splits dv.splits)

lemma session_place: "session_start g cfg draw now later d (r, st) = (b, r', st') \<Longrightarrow> task_keeps r r'"
  by (auto simp: session_start_def session_load_def session_get_id_def task_keeps_def same_place_def Let_def
      split: option.splits if_splits prod.splits bool.splits)

lemma task_body_place:
  assumes "task_body e ti (r, fw) = (r', fw')"
  shows "task_keeps r r'"
proof -
  obtain d st where fw: "fw = (d, st)" by force
  let ?g = "se_config e"
  obtain r1 st1 where p1: "parse_endpoint_file (se_cache e) (ti_now ti) (ti_later ti) d (dv_find (endpoint_file_path ?g) (env r)) (r, st) = (r1, st1)"
    by force
  define r3 where "r3 = parse_query_params (dv_find (http_query_var ?g)
      (env (parse_cookie_header (dv_find (http_cookies_var ?g) (env r1)) r1)))
      (parse_cookie_header (dv_find (http_cookies_var ?g) (env r1)) r1)"
  obtain r4 d4 st4 where p4: "parse_form_data (se_saver e) (upload_tmp_dir ?g) (r3, d, st1) = (r4, d4, st4)"
    by (metis prod_cases3)
  have "task_keeps r r1"
    using p1 by (auto simp: parse_endpoint_file_def task_keeps_def same_place_def split: option.splits dv.splits prod.splits)
  then have "task_keeps r r3"
    by (simp add: r3_def parse_query_params_def parse_cookie_header_def task_keeps_def same_place_def Let_def)
  then have 4: "task_keeps r r4" using form_data_place [OF p4] by (simp add: task_keeps_def same_place_def)
  obtain b r5 st5 where p5: "session_start ?g (se_cache e) (ti_draw ti) (ti_now ti) (ti_later ti) d4 (r4, st4) = (b, r5, st5)"
    by (metis prod_cases3)
  have 5: "task_keeps r r5" using session_place [OF p5] 4 by (simp add: task_keeps_def same_place_def)
  have "r' = r4\<lparr>headers := dv_put ''Content-Type'' (STRING (default_content_type ?g)) (headers r4)\<rparr> \<or>
    r' = r5\<lparr>headers := dv_put ''Content-Type'' (STRING (default_content_type ?g)) (headers r5)\<rparr>"
    using assms unfolding task_body_def fw prod.case Let_def p1
    by (auto simp: r3_def [symmetric] p4 p5 split: if_splits option.splits dv.splits)
  with 4 5 show "task_keeps r r'" by (auto simp: task_keeps_def same_place_def)
qed

lemma fcgi_task_ok:
  assumes "run_fcgi_task e k ti s = Some s'" "server_ok A M s"
  shows "server_ok A M s'"
proof (cases "k < length (fcgi_tasks s)")
  case False
  with assms show ?thesis by (simp add: run_fcgi_task_def)
next
  case True
  obtain fd p where t: "fcgi_tasks s ! k = (fd, p)" by force
  define s1 where "s1 = s\<lparr>fcgi_tasks := take k (fcgi_tasks s) @ drop (Suc k) (fcgi_tasks s)\<rparr>"
  note eq = assms(1) [unfolded run_fcgi_task_def t Let_def s1_def [symmetric] prod.case]
  obtain owner i r c where d: "deref p (conns s1) = Some (owner, i, r)" and c: "map_of (conns s1) fd = Some c"
    using eq True by (auto split: option.splits)
  have ok1: "server_ok A M s1" using assms(2) by (simp add: s1_def)
  from server_deref [OF ok1 d] obtain co where co: "map_of (conns s1) owner = Some co" "map_of (c_requests co) i = Some r"
    by blast
  obtain r' s2 where s2: "(if \<not> has RESPONDED r \<and> \<not> c_closed c
      then case task_body e ti (r, disk_files s1) of
             (r1, fw) \<Rightarrow> (r1, s1\<lparr>disk_files := fw, pending_output := pending_output s1 @ [p]\<rparr>)
      else (r, s1)) = (r', s2)" by force
  then have r': "same_place r r'" "conns s2 = conns s1" "server_ok A M s2"
    using task_body_place ok1 by (auto simp: task_keeps_def split: if_splits prod.splits)
  define s3 where "s3 = write_request owner i (r'\<lparr>worker_active := False\<rparr>) s2"
  have ok3: "server_ok A M s3" unfolding s3_def
    using r' co by (intro write_request_ok [where c = co and r = r]) (simp_all add: same_place_def)
  obtain c' where c': "map_of (conns s3) fd = Some c'" "s' = put_conn fd (c'\<lparr>active_workers := active_workers c' - 1\<rparr>) s3"
    using eq True by (auto simp: d c s2 s3_def [symmetric] split: option.splits)
  then show ?thesis using server_ok_put [OF ok3 c'(1)] by simp
qed

section \<open>All runs\<close>

lemma server_step_ok:
  assumes "keeps_place (user_request_ready e)" "server_step e ev s = Some s'" "whole A B s"
  shows "whole A B s'"
proof -
  obtain x rs where ev: "ev = (x, rs)" by force
  have ok: "whole A B (s\<lparr>sends := rs\<rparr>)" using assms(3) by simp
  show ?thesis
  proof (cases x)
    case (Accepted fds)
    with assms(2) ev ok accept_loop_ok [OF ok, of "listen_fd e" fds] show ?thesis
      by (auto simp: server_step_def handle_new_connections_def Let_def)
  next
    case Output_ready
    with assms(1,2) ev ok show ?thesis
      using pending_loop_ok [OF assms(1), of "pending_output s" "s\<lparr>sends := rs, pending_output := []\<rparr>" s']
      by (simp add: server_step_def process_pending_output_def)
  next
    case (Timer now)
    with assms(2) ev housekeeping_ok [OF _ ok] show ?thesis by (simp add: server_step_def)
  next
    case (Io now fd events received eof)
    with assms(2) ev handle_io_ok [OF _ ok] show ?thesis by (simp add: server_step_def)
  next
    case (Worker k ti)
    with assms(2) ev fcgi_task_ok [OF _ ok] show ?thesis by (simp add: server_step_def)
  qed
qed

lemma server_run_ok:
  "keeps_place (user_request_ready e) \<Longrightarrow> server_run e evs s = Some s' \<Longrightarrow> whole A B s \<Longrightarrow> whole A B s'"
  by (rule fcgi_events.run_invariant) (auto dest: server_step_ok)

lemma conn_arenas_concat: "conn_arenas cs = mset (concat (map (\<lambda>(fd, c). map (\<lambda>(i, r). arena r) (c_requests c)) cs))"
  by (induction cs) (auto simp: conn_arenas_def arenas_in_def case_prod_beta simp flip: mset_map)

lemma answer_keeps_place: "keeps_place (answer_request g cfg dr used)"
  by (auto simp: keeps_place_def same_place_def answer_request_def Let_def set_flag_def split: prod.split)

text \<open>An arena that the ledger counts once leads to its one request.\<close>

lemma deref_held:
  assumes "server_ok A M s" "map_of (conns s) fd = Some c" "map_of (c_requests c) i = Some r" "count M (arena r) \<le> 1"
  shows "deref (arena r) (conns s) = Some (fd, i, r)"
proof -
  let ?p = "arena r"
  have some: "find_arena (arena r) rs \<noteq> None" if "(i, r) \<in> set rs" for rs using that by (induction rs) auto
  have "deref ?p cs \<noteq> None" if "(fd, c) \<in> set cs" for cs
    using that some [OF map_of_SomeD [OF assms(3)]] by (induction cs) (auto split: option.split)
  then obtain fd' i' r' where d: "deref ?p (conns s) = Some (fd', i', r')"
    using map_of_SomeD [OF assms(2)] by (metis not_Some_eq surj_pair)
  from server_deref [OF assms(1) d] obtain c' where c': "map_of (conns s) fd' = Some c'" "map_of (c_requests c') i' = Some r'"
    "arena r' = ?p" by blast
  have ok: "umap_ok (conns s)" "umap_ok (c_requests c)" using assms(1) server_ok_conn [OF assms(1,2)]
    by (simp_all add: server_ok_def requests_ok_def)
  have in_c: "?p \<in># arenas_in rs" if "map_of rs j = Some q" "arena q = ?p" for rs j q
    using map_of_SomeD [OF that(1)] that(2) by (force simp: arenas_in_def)
  have l: "conn_arenas (conns s) = conn_arenas (AList.delete fd (conns s)) + arenas_in (c_requests c)"
    by (rule conn_arenas_delete [OF ok(1) assms(2)])
  have sub: "count (conn_arenas (conns s)) ?p \<le> 1"
    using assms(1,4) by (auto simp: server_ok_def ledger_def)
  have "fd' = fd"
  proof (rule ccontr)
    assume "fd' \<noteq> fd"
    then have "map_of (AList.delete fd (conns s)) fd' = Some c'" using c'(1) by simp
    then have "?p \<in># conn_arenas (AList.delete fd (conns s))"
      using conn_arenas_delete [of "AList.delete fd (conns s)" fd' c'] ok(1) in_c [OF c'(2,3)] by simp
    moreover have "?p \<in># arenas_in (c_requests c)" by (rule in_c [OF assms(3) refl])
    ultimately show False using sub unfolding l count_union
      by (simp only: count_greater_eq_one_iff [symmetric] One_nat_def)
  qed
  moreover have "i' = i"
  proof (rule ccontr)
    assume "i' \<noteq> i"
    then have "map_of (AList.delete i (c_requests c)) i' = Some r'" using c' assms(2) \<open>fd' = fd\<close> by simp
    then have "?p \<in># arenas_in (AList.delete i (c_requests c))" using in_c c'(3) by blast
    then have "2 \<le> count (arenas_in (c_requests c)) ?p"
      using arenas_in_delete [OF ok(2) assms(3)] by (simp add: Suc_le_eq)
    with sub show False unfolding l count_union by linarith
  qed
  ultimately show ?thesis using d c' assms(2,3) by simp
qed

end
