(* ===== verification/Serving.thy ===== *)
theory Serving
  imports Ownership
begin

text \<open>
  What the FastCGI server does for a client, over several events: the way of a request from its
  records to the bytes of its answer, who owns the arenas, and what happens to connections that
  do not fit the pattern of one request per connection.
\<close>

section \<open>Masks\<close>

lemma epoll_bits [simp]:
  "EPOLLIN \<noteq> 0" "EPOLLOUT \<noteq> 0" "EPOLLIN AND (EPOLLHUP OR EPOLLERR) = 0" "EPOLLIN AND EPOLLOUT = 0"
  "EPOLLOUT AND (EPOLLHUP OR EPOLLERR) = 0" "EPOLLOUT AND EPOLLIN = 0"
  "(EPOLLIN OR EPOLLET) AND EPOLLOUT = 0" "((EPOLLIN OR EPOLLET) OR EPOLLOUT) AND EPOLLOUT \<noteq> 0"
  "(EPOLLIN OR EPOLLET) \<noteq> ((EPOLLIN OR EPOLLET) OR EPOLLOUT)" "((EPOLLIN OR EPOLLET) OR EPOLLOUT) \<noteq> (EPOLLIN OR EPOLLET)"
  by (simp_all add: EPOLLIN_def EPOLLOUT_def EPOLLHUP_def EPOLLERR_def EPOLLET_def)

text \<open>A connection that is registered for reading only, or for writing too.\<close>

definition reads_only :: "connection \<Rightarrow> bool" where
  "reads_only c \<longleftrightarrow> epoll_mask c = EPOLLIN OR EPOLLET"

lemma interest_off [simp]: "reads_only c \<Longrightarrow> write_interest False fd c s = put_conn fd c s"
  by (simp add: reads_only_def write_interest_def update_write_interest_def)

section \<open>Sending\<close>

lemma send_loop_order:
  "send_loop rs out pos = (e, p, bs, rs') \<Longrightarrow> pos \<le> length out \<Longrightarrow>
     pos \<le> p \<and> p \<le> length out \<and> bs = take (p - pos) (drop pos out) \<and> (e = Drained \<longrightarrow> p = length out) \<and>
     (e \<noteq> Drained \<longrightarrow> p < length out)"
proof (induction rs out pos arbitrary: e p bs rs' rule: send_loop.induct)
  case (1 rs out pos)
  show ?case
  proof (cases "length out \<le> pos")
    case True
    with 1(2,3) show ?thesis by (auto simp: send_loop.simps [of rs])
  next
    case less: False
    show ?thesis
    proof (cases "\<exists>n rs1. rs = Sent n # rs1 \<and> 0 < n")
      case False
      with 1(2) less show ?thesis by (subst (asm) send_loop.simps) (auto split: list.splits sent.splits if_splits)
    next
      case True
      then obtain n rs1 where rs: "rs = Sent n # rs1" "0 < n" by blast
      define k where "k = min n (length out - pos)"
      obtain e1 p1 bs1 rs2 where l: "send_loop rs1 out (pos + k) = (e1, p1, bs1, rs2)" by (metis prod_cases4)
      have eq: "e = e1" "p = p1" "bs = take k (drop pos out) @ bs1"
        using 1(2) less rs l by (simp_all add: send_loop.simps [of "Sent n # rs1"] k_def Let_def)
      have kb: "0 < k" "pos + k \<le> length out" using rs(2) less by (simp_all add: k_def)
      have IH: "pos + k \<le> p1 \<and> p1 \<le> length out \<and> bs1 = take (p1 - (pos + k)) (drop (pos + k) out) \<and>
          (e1 = Drained \<longrightarrow> p1 = length out) \<and> (e1 \<noteq> Drained \<longrightarrow> p1 < length out)"
        using 1(1) [OF less rs(1) refl _ k_def] l kb rs(2) by blast
      have "take (p1 - pos) (drop pos out) = take k (drop pos out) @ take (p1 - (pos + k)) (drop (pos + k) out)"
      proof -
        have "p1 - pos = k + (p1 - (pos + k))" using IH by linarith
        then have "take (p1 - pos) (drop pos out) = take k (drop pos out) @ take (p1 - (pos + k)) (drop k (drop pos out))"
          by (metis take_add)
        then show ?thesis by (simp add: add.commute)
      qed
      with IH show ?thesis unfolding eq by auto
    qed
  qed
qed

lemma send_loop_all:
  "length out \<le> n + pos \<Longrightarrow> pos < length out \<Longrightarrow> send_loop (Sent n # rs) out pos = (Drained, length out, drop pos out, rs)"
proof -
  assume n: "length out \<le> n + pos" "pos < length out"
  then have "min n (length out - pos) = length out - pos" "n \<noteq> 0" by simp_all
  moreover have "send_loop rs out (length out) = (Drained, length out, [], rs)" by (simp add: send_loop.simps)
  ultimately show ?thesis using n by (simp add: send_loop.simps [of "Sent n # rs"] Let_def)
qed

lemma send_loop_empty [simp]: "send_loop rs [] 0 = (Drained, 0, [], rs)"
  by (simp add: send_loop.simps)

section \<open>Quiet releases\<close>

lemma process_waiting_quiet [simp]: "waiting_conns s = [] \<Longrightarrow> process_waiting_connections e now busy s = Some s"
  by (simp add: process_waiting_connections_def)

lemma release_quiet:
  assumes "waiting_conns s = []"
  shows "\<exists>ep pa. release_request e now busy r s = Some (s\<lparr>pool := drop_request r (pool s), interest := ep, accept_paused := pa\<rparr>)"
proof -
  have same: "\<exists>ep pa. t = t\<lparr>interest := ep, accept_paused := pa\<rparr>" for t
    by (rule exI [of _ "interest t"], rule exI [of _ "accept_paused t"]) simp
  define s1 where "s1 = s\<lparr>pool := drop_request r (pool s)\<rparr>"
  have w: "waiting_conns s1 = []" "waiting_conns (resume_accept lfd s1) = []" for lfd
    using assms by (simp_all add: s1_def resume_accept_def modify_listen_interest_def)
  have "\<exists>ep pa. resume_accept lfd s1 = s1\<lparr>interest := ep, accept_paused := pa\<rparr>" for lfd
    using same [of s1] same [of "s1\<lparr>accept_paused := False\<rparr>"]
    by (auto simp: resume_accept_def modify_listen_interest_def)
  then have "\<exists>ep pa. release_request e now busy r s = Some (s1\<lparr>interest := ep, accept_paused := pa\<rparr>)"
    using same [of s1] w by (auto simp: release_request_def s1_def [symmetric] Let_def)
  then show ?thesis by (simp add: s1_def)
qed

section \<open>The way of a request\<close>

abbreviation fresh_conn :: "int \<Rightarrow> connection" where
  "fresh_conn fd \<equiv> new_connection\<lparr>c_fd := fd\<rparr>"

lemma fresh_conn_simps [simp]:
  "c_in_buf new_connection = []" "c_out_buf new_connection = []" "c_out_pos new_connection = 0"
  "c_requests new_connection = []" "\<not> c_closed new_connection" "\<not> c_waiting new_connection"
  "active_workers new_connection = 0" "reads_only new_connection"
  by (simp_all add: new_connection_def reads_only_def)

lemma reads_only_cong [simp]:
  "reads_only (c\<lparr>c_fd := v1\<rparr>) = reads_only c" "reads_only (c\<lparr>c_in_buf := v2\<rparr>) = reads_only c"
  "reads_only (c\<lparr>c_out_buf := v3\<rparr>) = reads_only c" "reads_only (c\<lparr>c_out_pos := v4\<rparr>) = reads_only c"
  "reads_only (c\<lparr>c_requests := v5\<rparr>) = reads_only c" "reads_only (c\<lparr>c_closed := v6\<rparr>) = reads_only c"
  "reads_only (c\<lparr>c_waiting := v7\<rparr>) = reads_only c" "reads_only (c\<lparr>active_workers := v8\<rparr>) = reads_only c"
  by (simp_all add: reads_only_def)

text \<open>Sizes a web server keeps to and the limits allow.\<close>

definition request_fits :: "global_config \<Rightarrow> (string \<times> string) list list \<Rightarrow> bytes list \<Rightarrow> bool" where
  "request_fits g pss bodies \<longleftrightarrow>
     list_all (\<lambda>ps. ps \<noteq> [] \<and> length (concat (map encode_nv ps)) < 65536) pss \<and>
     pairs_size (concat pss) \<le> unat (cfg_max_params_bytes g) \<and>
     list_all (\<lambda>b. b \<noteq> [] \<and> length b < 65536) bodies \<and> length (concat bodies) \<le> unat (cfg_max_stdin_bytes g)"

text \<open>The records reach \<open>process_fcgi\<close>: one request, queued for a worker.\<close>

lemma request_processed:
  assumes ok: "whole A A s" and c: "map_of (conns s) fd = Some c" "c_requests c = []" "\<not> c_closed c" "active_workers c = 0"
    and free: "free_arenas (manager (pool s)) \<noteq> {}" and fits: "request_fits (se_config e) pss bodies"
    and buf: "c_in_buf c = encode_records (client_request i keep pss bodies)"
  shows "\<exists>r p. process_fcgi e now fd s =
      put_conn fd (c\<lparr>c_in_buf := [], c_closed := False, c_requests := [(i, r)], c_waiting := False, active_workers := Suc 0\<rparr>)
        (s\<lparr>pool := p, fcgi_tasks := fcgi_tasks s @ [(fd, arena r)]\<rparr>) \<and>
    worker_active r \<and> is_ready r \<and> \<not> has ABORTED r \<and> has KEEP_CONNECTION r = keep \<and> req_id r = i \<and> conn_ptr r = Some fd \<and>
    env r = strip_path_prefix (se_config e) (put_pairs (concat pss) (env (request_new (arena r) now))) \<and>
    body r = string_of (concat bodies)"
proof -
  let ?g = "se_config e" and ?f = "load_io c s"
  let ?cb = "io_callbacks ?g now fd"
  have "pool_ok (pool s)" using ok by (simp add: server_ok_def)
  from place_request_free [OF this free, of now] obtain p w where
    P: "place_request now (pool s) = (Some (request_new p now), w)" by metis
  let ?r0 = "(request_new p now)\<lparr>req_id := i, conn_ptr := Some fd\<rparr>" and ?w = "world ?f\<lparr>iw_pool := w\<rparr>"
  have al: "allocate_request ?cb i (world ?f) = (Some ?r0, ?w)"
    by (simp add: io_callbacks_def allocate_request_in_def load_io_def P)
  have new: "map_of (requests ?f) i = None" "flags ?r0 = 0" "params_bytes ?r0 = 0" "body_bytes ?r0 = 0" "body ?r0 = []"
    "req_id ?r0 = i" "arena ?r0 = p" "env ?r0 = env (request_new p now)"
    by (simp_all add: load_io_def c(2) request_new_def)
  have sizes: "\<forall>ps\<in>set pss. ps \<noteq> [] \<and> length (concat (map encode_nv ps)) < 65536"
    "pairs_size (concat pss) \<le> max_params_bytes (config_limits ?g)" "\<forall>b\<in>set bodies. b \<noteq> [] \<and> length b < 65536"
    "length (concat bodies) \<le> max_stdin_bytes (config_limits ?g)"
    using fits unfolding request_fits_def list_all_iff config_limits_def by auto
  have cb: "on_request_ready ?cb = internal_on_request_ready ?g" by (simp add: io_callbacks_def)
  from process_whole [OF new(1) al new(2-4) sizes, of keep] obtain r where
    r: "process_buffer (config_limits ?g) ?cb (encode_records (client_request i keep pss bodies)) ?f =
      (OK, [], store_req i (fst (internal_on_request_ready ?g r ?w)) (?f\<lparr>world := snd (internal_on_request_ready ?g r ?w)\<rparr>))"
    "is_ready r" "has KEEP_CONNECTION r = keep" "req_id r = i" "arena r = p"
    "env r = put_pairs (concat pss) (env (request_new p now))" "body r = string_of (concat bodies)" "\<not> has ABORTED r"
    unfolding new(5-8) cb append_Nil by blast
  obtain r1 w1 where rw: "internal_on_request_ready ?g r ?w = (r1, w1)" by force
  let ?M = "arenas_in (c_requests c) + mset_set (free_arenas (manager (pool s)))"
  have "io_ok A ?M fd ?f"
    using ok server_ok_conn [OF ok c(1)] by (simp add: io_ok_def io_ledger_def load_io_def server_ok_def)
  from io_ok_process [OF this r(1)] have "io_ok A ?M fd (store_req i r1 (?f\<lparr>world := w1\<rparr>))" by (simp add: rw)
  then have "conn_ptr r1 = Some fd" by (simp add: io_ok_def requests_ok_def placed_def store_req_def load_io_def c(2))
  then have "conn_ptr r = Some fd" "\<not> has RESPONDED r"
    using rw r(2) by (auto simp: internal_on_request_ready_def is_ready_def split: option.splits)
  then have q: "r1 = r\<lparr>env := strip_path_prefix ?g (env r), worker_active := True\<rparr>"
    "w1 = ?w\<lparr>iw_active := Suc 0, iw_tasks := fcgi_tasks s @ [(fd, p)]\<rparr>"
    using rw r(5) c(4) by (simp_all add: internal_on_request_ready_def load_io_def)
  have "process_fcgi e now fd s =
      put_conn fd (c\<lparr>c_in_buf := [], c_closed := False, c_requests := [(i, r1)], c_waiting := False, active_workers := Suc 0\<rparr>)
        (s\<lparr>pool := w, fcgi_tasks := fcgi_tasks s @ [(fd, arena r1)]\<rparr>)"
    using r(1) c buf by (simp add: process_fcgi_def rw store_io_def) (simp add: q r(5) store_req_def load_io_def)
  moreover have "is_ready r1" using r(2) by (simp add: q is_ready_def has_def)
  moreover have "has KEEP_CONNECTION r1 = keep" using r(3) by (simp add: q has_def)
  moreover have "\<not> has ABORTED r1" using r(8) by (simp add: q has_def)
  ultimately show ?thesis using r(4-7) \<open>conn_ptr r = Some fd\<close>
    by (intro exI [of _ r1] exI [of _ w]) (simp add: q)
qed

lemma scan_single [simp]:
  "scan_requests [(i, r)] = (has RESPONDED r, has RESPONDED r \<and> has KEEP_CONNECTION r)"
  by simp

lemma flush_empty:
  assumes "map_of (conns s) fd = Some c" "c_out_buf c = []" "c_out_pos c = 0" "reads_only c"
  shows "flush_connection fd s =
    (put_conn fd c s)\<lparr>close_queue := (if should_close_connection c then close_queue s @ [c_fd c] else close_queue s)\<rparr>"
proof -
  have e: "c\<lparr>c_out_pos := 0\<rparr> = c" using assms(3) by simp
  show ?thesis using assms by (simp add: flush_connection_def Let_def put_conn_def e)
qed

lemma put_conn_twice [simp]: "put_conn fd c (put_conn fd c' s) = put_conn fd c s"
  by (simp add: put_conn_def)

lemma put_conn_keeps [simp]:
  "pool (put_conn fd c s) = pool s" "fcgi_tasks (put_conn fd c s) = fcgi_tasks s"
  "pending_output (put_conn fd c s) = pending_output s" "close_queue (put_conn fd c s) = close_queue s"
  "waiting_conns (put_conn fd c s) = waiting_conns s" "wire (put_conn fd c s) = wire s"
  "closed_fds (put_conn fd c s) = closed_fds s" "disk_files (put_conn fd c s) = disk_files s"
  "sends (put_conn fd c s) = sends s" "interest (put_conn fd c s) = interest s"
  "accept_paused (put_conn fd c s) = accept_paused s"
  by (simp_all add: put_conn_def)

lemma put_conn_waiting: "(put_conn fd c s)\<lparr>waiting_conns := v\<rparr> = put_conn fd c (s\<lparr>waiting_conns := v\<rparr>)"
  by (cases s) (simp add: put_conn_def)

lemma request_arrives:
  assumes ok: "whole A A s" and c: "map_of (conns s) fd = Some (fresh_conn fd)" and cq: "close_queue s = []"
    and free: "free_arenas (manager (pool s)) \<noteq> {}" and fits: "request_fits (se_config e) pss bodies"
  shows "\<exists>r s1. handle_io e now fd EPOLLIN (encode_records (client_request i keep pss bodies)) False s = Some s1 \<and>
    map_of (conns s1) fd = Some ((fresh_conn fd)\<lparr>c_requests := [(i, r)], active_workers := Suc 0\<rparr>) \<and>
    fcgi_tasks s1 = fcgi_tasks s @ [(fd, arena r)] \<and> pending_output s1 = pending_output s \<and> close_queue s1 = [] \<and>
    waiting_conns s1 = waiting_conns s \<and> wire s1 = wire s \<and> closed_fds s1 = closed_fds s \<and> disk_files s1 = disk_files s \<and>
    (\<forall>k. k \<noteq> fd \<longrightarrow> map_of (conns s1) k = map_of (conns s) k) \<and>
    worker_active r \<and> is_ready r \<and> \<not> has ABORTED r \<and> has KEEP_CONNECTION r = keep \<and> req_id r = i \<and> conn_ptr r = Some fd \<and>
    env r = strip_path_prefix (se_config e) (put_pairs (concat pss) (env (request_new (arena r) now))) \<and>
    body r = string_of (concat bodies)"
proof -
  define bs where "bs = encode_records (client_request i keep pss bodies)"
  define c0 where "c0 = (fresh_conn fd)\<lparr>c_in_buf := bs\<rparr>"
  have ok0: "whole A A (put_conn fd c0 s)" by (rule server_ok_put [OF ok c]) (simp add: c0_def)
  from request_processed [OF ok0, of fd c0 e pss bodies i keep now] free fits obtain r p where
    r: "process_fcgi e now fd (put_conn fd c0 s) =
      put_conn fd (c0\<lparr>c_in_buf := [], c_closed := False, c_requests := [(i, r)], c_waiting := False, active_workers := Suc 0\<rparr>)
        ((put_conn fd c0 s)\<lparr>pool := p, fcgi_tasks := fcgi_tasks s @ [(fd, arena r)]\<rparr>)"
    "worker_active r" "is_ready r" "has KEEP_CONNECTION r = keep" "req_id r = i" "conn_ptr r = Some fd"
    "env r = strip_path_prefix (se_config e) (put_pairs (concat pss) (env (request_new (arena r) now)))"
    "body r = string_of (concat bodies)" "\<not> has ABORTED r"
    by (auto simp: c0_def bs_def)
  define c1 where "c1 = (fresh_conn fd)\<lparr>c_requests := [(i, r)], active_workers := Suc 0\<rparr>"
  have c1: "c0\<lparr>c_in_buf := [], c_closed := False, c_requests := [(i, r)], c_waiting := False, active_workers := Suc 0\<rparr> = c1"
    by (simp add: c0_def c1_def new_connection_def)
  define s1 where "s1 = put_conn fd c1 ((put_conn fd c0 s)\<lparr>pool := p, fcgi_tasks := fcgi_tasks s @ [(fd, arena r)]\<rparr>)"
  have "(fresh_conn fd)\<lparr>c_in_buf := bs, c_closed := False\<rparr> = c0" by (simp add: c0_def new_connection_def)
  moreover have "\<not> should_close_connection c1" using r(3) by (simp add: c1_def should_close_connection_def is_ready_def)
  ultimately have "read_input e now fd bs False s = put_conn fd c1 s1"
    using c r(1) by (simp add: read_input_def c1 s1_def [symmetric] Let_def)
      (subst flush_empty [where c = c1]; simp add: s1_def c1_def)
  then have "handle_io e now fd EPOLLIN bs False s = Some ((put_conn fd c1 s1)\<lparr>close_queue := []\<rparr>)"
    using c r(2) \<open>\<not> should_close_connection c1\<close> cq
    by (simp add: handle_io_def Let_def) (simp add: c1_def s1_def)
  then show ?thesis using r(2-9) cq
    by (intro exI [of _ r] exI [of _ "(put_conn fd c1 s1)\<lparr>close_queue := []\<rparr>"]) (simp add: bs_def s1_def c1_def)
qed

lemma task_runs:
  assumes ok: "whole A A s" and c: "map_of (conns s) fd = Some c" "c_requests c = [(i, r)]" "\<not> c_closed c"
    and t: "fcgi_tasks s = ts @ (fd, arena r) # us" and r: "\<not> has RESPONDED r"
    and b: "task_body e ti (r, disk_files s) = (r', fw)"
  shows "run_fcgi_task e (length ts) ti s =
    Some (put_conn fd (c\<lparr>c_requests := [(i, r'\<lparr>worker_active := False\<rparr>)], active_workers := active_workers c - 1\<rparr>)
      (s\<lparr>fcgi_tasks := ts @ us, disk_files := fw, pending_output := pending_output s @ [arena r]\<rparr>))"
proof -
  define s1 where "s1 = s\<lparr>fcgi_tasks := ts @ us\<rparr>"
  have "arena r \<in> A" using requests_ok_map_of [OF server_ok_conn [OF ok c(1)], of i r] c(2) by simp
  then have "deref (arena r) (conns s1) = Some (fd, i, r)"
    using ok whole_finite [OF ok] c by (intro deref_held [where A = A and M = "mset_set A" and c = c]) (simp_all add: s1_def)
  then have "run_fcgi_task e (length ts) ti s = Some (put_conn fd (c\<lparr>c_requests := [(i, r'\<lparr>worker_active := False\<rparr>)],
      active_workers := active_workers c - 1\<rparr>)
      (s1\<lparr>disk_files := fw, pending_output := pending_output s1 @ [arena r]\<rparr>))"
    using t r b c by (simp add: run_fcgi_task_def s1_def [symmetric] Let_def)
      (simp add: s1_def write_request_def put_conn_def)
  then show ?thesis by (simp add: s1_def)
qed

text \<open>The other end of \<open>reads_only\<close>.\<close>

definition writes_too :: "connection \<Rightarrow> connection" where
  "writes_too c = c\<lparr>epoll_mask := (EPOLLIN OR EPOLLET) OR EPOLLOUT, want_write_interest := True\<rparr>"

lemma interest_on:
  assumes "reads_only c"
  shows "\<exists>ep. write_interest True fd c s = put_conn fd (writes_too c) (s\<lparr>interest := ep\<rparr>)"
proof -
  have "fst (update_write_interest True (c, interest s)) = writes_too c"
    using assms by (simp add: update_write_interest_def maybe_update_epoll_def reads_only_def writes_too_def Let_def)
  then obtain ep where "update_write_interest True (c, interest s) = (writes_too c, ep)" by (metis prod.collapse)
  then show ?thesis by (auto simp: write_interest_def)
qed

lemma interest_back:
  "\<exists>ep. write_interest False fd (writes_too c) s =
    put_conn fd (c\<lparr>epoll_mask := EPOLLIN OR EPOLLET, want_write_interest := False\<rparr>) (s\<lparr>interest := ep\<rparr>)"
proof -
  let ?c = "c\<lparr>epoll_mask := EPOLLIN OR EPOLLET, want_write_interest := False\<rparr>"
  have "fst (update_write_interest False (writes_too c, interest s)) = ?c"
    by (simp add: update_write_interest_def maybe_update_epoll_def writes_too_def Let_def)
  then obtain ep where "update_write_interest False (writes_too c, interest s) = (?c, ep)" by (metis prod.collapse)
  then show ?thesis by (auto simp: write_interest_def)
qed

lemma output_collected:
  assumes ok: "whole A A s" and c: "map_of (conns s) fd = Some c" "c_requests c = [(i, r)]" "\<not> c_closed c" "reads_only c"
      "c_out_buf c = []" "c_out_pos c = 0"
    and r: "\<not> has RESPONDED r" "conn_ptr r = Some fd" and p: "pending_output s = [arena r]"
    and u: "user_request_ready e (r, [], disk_files s) = (r', out, fw)" "out \<noteq> []"
  shows "\<exists>ep. process_pending_output e s =
    Some (put_conn fd (writes_too (c\<lparr>c_requests := [(i, r')], c_out_buf := out\<rparr>))
      (s\<lparr>pending_output := [], disk_files := fw, interest := ep\<rparr>))"
proof -
  define s1 where "s1 = s\<lparr>pending_output := []\<rparr>"
  have "arena r \<in> A" using requests_ok_map_of [OF server_ok_conn [OF ok c(1)], of i r] c(2) by simp
  then have d: "deref (arena r) (conns s1) = Some (fd, i, r)"
    using ok whole_finite [OF ok] c by (intro deref_held [where A = A and M = "mset_set A" and c = c]) (simp_all add: s1_def)
  have s1: "map_of (conns s1) fd = Some c" "disk_files s1 = disk_files s" using c(1) by (simp_all add: s1_def)
  let ?c = "c\<lparr>c_requests := [(i, r')], c_out_buf := out\<rparr>"
  have "write_request fd i r' (s1\<lparr>disk_files := fw\<rparr>) = put_conn fd (c\<lparr>c_requests := [(i, r')]\<rparr>) (s1\<lparr>disk_files := fw\<rparr>)"
    using c s1 by (simp add: write_request_def)
  then have "append_output fd out (write_request fd i r' (s1\<lparr>disk_files := fw\<rparr>)) =
      write_interest True fd ?c (put_conn fd (c\<lparr>c_requests := [(i, r')]\<rparr>) (s1\<lparr>disk_files := fw\<rparr>))"
    using c(5,6) u(2) by (simp add: append_output_def Let_def)
  then obtain ep where "append_output fd out (write_request fd i r' (s1\<lparr>disk_files := fw\<rparr>)) =
      put_conn fd (writes_too ?c) ((put_conn fd (c\<lparr>c_requests := [(i, r')]\<rparr>) (s1\<lparr>disk_files := fw\<rparr>))\<lparr>interest := ep\<rparr>)"
    using interest_on [of ?c fd] c(4) by auto
  also have "\<dots> = put_conn fd (writes_too ?c) (s1\<lparr>disk_files := fw, interest := ep\<rparr>)"
    by (simp add: put_conn_def)
  finally have "process_pending_output e s = Some (put_conn fd (writes_too ?c) (s1\<lparr>disk_files := fw, interest := ep\<rparr>))"
    using p d r c(3) s1 u(1) by (simp add: process_pending_output_def s1_def [symmetric])
  then show ?thesis by (auto simp: s1_def)
qed

text \<open>A connection without requests is closed and forgotten.\<close>

definition forget :: "int \<Rightarrow> server \<Rightarrow> server" where
  "forget fd s = s\<lparr>interest := AList.delete fd (interest s), closed_fds := closed_fds s @ [fd],
    conns := AList.delete fd (conns s)\<rparr>"

lemma forget_simps [simp]:
  "map_of (conns (forget fd s)) fd = None" "closed_fds (forget fd s) = closed_fds s @ [fd]" "wire (forget fd s) = wire s"
  "pool (forget fd s) = pool s"
  by (simp_all add: forget_def delete_conv')

lemma close_idle:
  assumes "map_of (conns s) fd = Some c" "c_requests c = []"
  shows "close_connection e now fd s = Some (forget fd s)"
  using assms by (simp add: close_connection_def cleanup_connection_requests_def put_conn_def delete_update_same forget_def)

lemma close_all_idle:
  "map_of (conns s) fd = Some c \<Longrightarrow> should_close_connection c \<Longrightarrow> c_requests c = [] \<Longrightarrow>
     close_all e now (fd # fds) s = close_all e now fds (forget fd s)"
  by (simp add: close_idle)

text \<open>Closing what is not there creates it, and closes the descriptor.\<close>

lemma close_all_gone:
  assumes "map_of (conns s) fd = None"
  shows "close_all e now (fd # fds) s = close_all e now fds (forget fd (put_conn fd new_connection s))"
proof -
  have "should_close_connection new_connection" by (simp add: should_close_connection_def)
  then show ?thesis using assms close_idle [of "put_conn fd new_connection s" fd new_connection e now] by simp
qed

lemma flush_all:
  assumes "map_of (conns s) fd = Some (writes_too c)" "c_fd c = fd" "c_out_pos c = 0" "c_out_buf c \<noteq> []"
    and "sends s = Sent n # rs" "length (c_out_buf c) \<le> n"
  shows "\<exists>ep m w. flush_connection fd s =
    put_conn fd (c\<lparr>c_out_buf := [], c_out_pos := 0, epoll_mask := m, want_write_interest := w\<rparr>)
      (s\<lparr>sends := rs, wire := wire s @ [(fd, c_out_buf c)], interest := ep,
         close_queue := (if should_close_connection (c\<lparr>c_out_buf := []\<rparr>) then close_queue s @ [fd] else close_queue s)\<rparr>)"
proof -
  let ?c = "c\<lparr>c_out_buf := [], c_out_pos := 0\<rparr>"
  let ?s = "s\<lparr>sends := rs, wire := wire s @ [(fd, c_out_buf c)]\<rparr>"
  have l: "send_loop (sends s) (c_out_buf c) (c_out_pos c) = (Drained, length (c_out_buf c), c_out_buf c, rs)"
    unfolding assms(5) using assms(3,4,6) send_loop_all [of "c_out_buf c" n "c_out_pos c" rs] by simp
  have w: "(writes_too c)\<lparr>c_out_pos := length (c_out_buf c), c_out_buf := [], c_out_pos := 0\<rparr> = writes_too ?c"
    by (simp add: writes_too_def)
  have k: "should_close_connection (writes_too ?c) = should_close_connection (c\<lparr>c_out_buf := []\<rparr>)"
    using assms(3) by (simp add: should_close_connection_def writes_too_def)
  have fields: "c_out_buf (writes_too c) = c_out_buf c" "c_out_pos (writes_too c) = c_out_pos c" "c_fd (writes_too c) = c_fd c"
    by (simp_all add: writes_too_def)
  obtain ep where ep: "write_interest False fd (writes_too ?c) ?s =
      put_conn fd (?c\<lparr>epoll_mask := EPOLLIN OR EPOLLET, want_write_interest := False\<rparr>) (?s\<lparr>interest := ep\<rparr>)"
    using interest_back by blast
  have "flush_connection fd s = (write_interest False fd (writes_too ?c) ?s)\<lparr>close_queue :=
      (if should_close_connection (c\<lparr>c_out_buf := []\<rparr>) then close_queue s @ [fd] else close_queue s)\<rparr>"
    unfolding flush_connection_def assms(1) option.case fields l prod.case Let_def send_end.case
    using assms(2,4) k by (simp only: w length_0_conv if_False not_False_eq_True if_True)
  then show ?thesis unfolding ep put_conn_def
    by (intro exI [of _ ep] exI [of _ "EPOLLIN OR EPOLLET"] exI [of _ False]) simp
qed

lemma answer_sent:
  assumes ok: "whole A A s" and c: "map_of (conns s) fd = Some (writes_too c)" "c_fd c = fd" "c_requests c = [(i, r)]"
      "c_out_pos c = 0" "c_out_buf c \<noteq> []" "\<not> c_closed c" "active_workers c = 0"
    and r: "has RESPONDED r" "\<not> worker_active r"
    and s: "close_queue s = []" "waiting_conns s = []" "sends s = Sent n # rs" "length (c_out_buf c) \<le> n"
  shows "\<exists>s'. handle_io e now fd EPOLLOUT [] False s = Some s' \<and> map_of (conns s') fd = None \<and>
    wire s' = wire s @ [(fd, c_out_buf c)] \<and> arena r \<in> free_arenas (manager (pool s')) \<and>
    closed_fds s' = closed_fds s @ (if has KEEP_CONNECTION r then [fd] else [fd, fd])"
proof -
  define keep where "keep = has KEEP_CONNECTION r"
  have k: "should_close_connection (c\<lparr>c_out_buf := []\<rparr>) = (\<not> keep)"
    using c r by (simp add: should_close_connection_def keep_def)
  obtain ep m w where "flush_connection fd s =
      put_conn fd (c\<lparr>c_out_buf := [], c_out_pos := 0, epoll_mask := m, want_write_interest := w\<rparr>)
        (s\<lparr>sends := rs, wire := wire s @ [(fd, c_out_buf c)], interest := ep,
         close_queue := (if \<not> keep then close_queue s @ [fd] else close_queue s)\<rparr>)"
    using flush_all [OF c(1,2,4,5) s(3,4)] unfolding k by blast
  moreover define c3 where "c3 = c\<lparr>c_out_buf := [], c_out_pos := 0, epoll_mask := m, want_write_interest := w\<rparr>"
  moreover define s3 where "s3 = put_conn fd c3 (s\<lparr>sends := rs, wire := wire s @ [(fd, c_out_buf c)], interest := ep,
         close_queue := (if \<not> keep then close_queue s @ [fd] else close_queue s)\<rparr>)"
  ultimately have fl: "flush_connection fd s = s3" by simp
  have s3: "map_of (conns s3) fd = Some c3" "c_requests c3 = [(i, r)]" "pool s3 = pool s" "waiting_conns s3 = []"
    "close_queue s3 = (if \<not> keep then [fd] else [])" "wire s3 = wire s @ [(fd, c_out_buf c)]" "closed_fds s3 = closed_fds s"
    using c(3) s(1,2) by (simp_all add: s3_def c3_def)
  define s4 where "s4 = finalize_files (se_config e) r s3"
  have s4: "conns s4 = conns s3" "pool s4 = pool s" "waiting_conns s4 = []" "close_queue s4 = close_queue s3"
    "wire s4 = wire s3" "closed_fds s4 = closed_fds s3"
    using s3(3,4) by (simp_all add: s4_def finalize_files_def)
  obtain ep5 pa where s5: "release_request e now (Some fd) r s4 =
      Some (s4\<lparr>pool := drop_request r (pool s4), interest := ep5, accept_paused := pa\<rparr>)"
    using release_quiet [OF s4(3)] by blast
  define c5 where "c5 = c3\<lparr>c_requests := []\<rparr>"
  define s6 where "s6 = put_conn fd c5 (s4\<lparr>pool := drop_request r (pool s4), interest := ep5, accept_paused := pa\<rparr>)"
  have sw: "sweep_requests e now fd [i] s3 = Some s6"
    using s3(1,2) r s5 by (simp add: s4_def [symmetric] s6_def c5_def Let_def)
  have s6: "map_of (conns s6) fd = Some c5" "close_queue s6 = close_queue s3" "wire s6 = wire s3" "closed_fds s6 = closed_fds s"
    "pool s6 = drop_request r (pool s)" using s4 s3(7) by (simp_all add: s6_def)
  have c5: "should_close_connection c5" "c_requests c5 = []"
    using c(6,7) by (simp_all add: c5_def c3_def should_close_connection_def)
  let ?q = "(if \<not> keep then [fd] else []) @ [fd]"
  have "handle_io e now fd EPOLLOUT [] False s = close_all e now ?q (s6\<lparr>close_queue := []\<rparr>)"
    using c(1) sw s6 c5(1) s3 by (simp add: handle_io_def fl Let_def)
  also have "\<dots> = close_all e now [] (if keep then forget fd (s6\<lparr>close_queue := []\<rparr>)
      else forget fd (put_conn fd new_connection (forget fd (s6\<lparr>close_queue := []\<rparr>))))"
    using close_all_idle [of "s6\<lparr>close_queue := []\<rparr>" fd c5] s6(1) c5
      close_all_gone [of "forget fd (s6\<lparr>close_queue := []\<rparr>)" fd] by (cases keep) (simp_all del: close_all.simps(2))
  finally have h: "handle_io e now fd EPOLLOUT [] False s = \<dots>" .
  have "arena r \<in> all_arenas (manager (pool s))" "pool_ok (pool s)"
  proof -
    have "requests_ok A fd (c_requests (writes_too c))" by (rule server_ok_conn [OF ok c(1)])
    then show "arena r \<in> all_arenas (manager (pool s))" "pool_ok (pool s)"
      using ok c(3) by (auto simp: requests_ok_def server_ok_def writes_too_def)
  qed
  then have "arena r \<in> free_arenas (manager (pool s6))" using drop_request_ok(2) by (simp add: s6(5))
  then show ?thesis unfolding h keep_def [symmetric]
    using s6 s3(6) by (cases keep) simp_all
qed

lemma encode_response_nonempty: "encode_records (response_records i chunks) \<noteq> []"
proof -
  have "encode_record rc \<noteq> []" for rc by (simp add: encode_record_def append_record_def header_bytes_def)
  then show ?thesis by (simp add: response_records_def encode_records_def)
qed

text \<open>The connection once the answer is in its buffer.\<close>

definition answering :: "int \<Rightarrow> u16 \<Rightarrow> request \<Rightarrow> bytes \<Rightarrow> connection" where
  "answering fd i r out = (fresh_conn fd)\<lparr>c_requests := [(i, r)], c_out_buf := out\<rparr>"

lemma answering_simps [simp]:
  "c_fd (answering fd i r out) = fd" "c_requests (answering fd i r out) = [(i, r)]" "c_out_pos (answering fd i r out) = 0"
  "c_out_buf (answering fd i r out) = out" "\<not> c_closed (answering fd i r out)" "active_workers (answering fd i r out) = 0"
  by (simp_all add: answering_def)

lemma request_worked:
  assumes ok: "whole A A s" and c: "map_of (conns s) fd = Some ((fresh_conn fd)\<lparr>c_requests := [(i, r1)], active_workers := Suc 0\<rparr>)"
    and s: "fcgi_tasks s = ts @ [(fd, arena r1)]" "pending_output s = []"
    and r1: "\<not> has RESPONDED r1" "req_id r1 = i" "conn_ptr r1 = Some fd"
  shows "\<exists>r2 fw s2. run_fcgi_task e (length ts) ti s = Some s2 \<and> whole A A s2 \<and>
    map_of (conns s2) fd = Some ((fresh_conn fd)\<lparr>c_requests := [(i, r2)]\<rparr>) \<and> fcgi_tasks s2 = ts \<and>
    pending_output s2 = [arena r2] \<and> disk_files s2 = fw \<and> close_queue s2 = close_queue s \<and>
    waiting_conns s2 = waiting_conns s \<and> wire s2 = wire s \<and> closed_fds s2 = closed_fds s \<and>
    (\<forall>k. k \<noteq> fd \<longrightarrow> map_of (conns s2) k = map_of (conns s) k) \<and> task_keeps r1 r2 \<and> \<not> worker_active r2"
proof -
  obtain r2 fw where b: "task_body e ti (r1, disk_files s) = (r2, fw)" by (metis prod.collapse)
  note k = task_body_place [OF b]
  have h: "run_fcgi_task e (length ts) ti s =
      Some (put_conn fd ((fresh_conn fd)\<lparr>c_requests := [(i, r2\<lparr>worker_active := False\<rparr>)], active_workers := 0\<rparr>)
        (s\<lparr>fcgi_tasks := ts, disk_files := fw, pending_output := [arena r1]\<rparr>))"
    using task_runs [OF ok c _ _ s(1) r1(1) b] s(2) by simp
  have "(fresh_conn fd)\<lparr>c_requests := [(i, r2\<lparr>worker_active := False\<rparr>)], active_workers := 0\<rparr> =
      (fresh_conn fd)\<lparr>c_requests := [(i, r2\<lparr>worker_active := False\<rparr>)]\<rparr>" by (simp add: new_connection_def)
  then show ?thesis using h fcgi_task_ok [OF h ok] k
    by (intro exI [of _ "r2\<lparr>worker_active := False\<rparr>"] exI [of _ fw]) (simp add: task_keeps_def same_place_def)
qed

lemma answer_collected:
  assumes ok: "whole A A s" and c: "map_of (conns s) fd = Some ((fresh_conn fd)\<lparr>c_requests := [(i, r)]\<rparr>)"
    and r: "\<not> has RESPONDED r" "conn_ptr r = Some fd" "req_id r = i" and p: "pending_output s = [arena r]"
    and cb: "user_request_ready e = answer_request g cfg dr used"
  shows "\<exists>r' chunks s'. process_pending_output e s = Some s' \<and> whole A A s' \<and>
    map_of (conns s') fd = Some (writes_too (answering fd i r' (encode_records (response_records i chunks)))) \<and>
    close_queue s' = close_queue s \<and> waiting_conns s' = waiting_conns s \<and> wire s' = wire s \<and> closed_fds s' = closed_fds s \<and>
    r' = set_flag RESPONDED (r\<lparr>env := dv_put ''DBG_ARENA_ALLOC'' (make_number (double_of_int (int used))) (env r)\<rparr>) \<and>
    string_of (concat chunks) = output_headers r' @ response_text g r'"
proof -
  obtain d st where fw: "disk_files s = (d, st)" by force
  obtain chunks r' fs where a: "answer_request g cfg dr used (r, [], d, st) =
      (r', [] @ encode_records (response_records (req_id r) chunks), fs)"
    "r' = set_flag RESPONDED (r\<lparr>env := dv_put ''DBG_ARENA_ALLOC'' (make_number (double_of_int (int used))) (env r)\<rparr>)"
    "concat chunks = bytes_of (output_headers r @ response_text g r')"
    by (rule answer_request_records [OF r(1), of g cfg dr used "[]" d st])
  let ?out = "encode_records (response_records i chunks)"
  have u: "user_request_ready e (r, [], disk_files s) = (r', ?out, fs)" using a(1) r(3) by (simp add: cb fw)
  obtain ep where h: "process_pending_output e s = Some (put_conn fd (writes_too (answering fd i r' ?out))
      (s\<lparr>pending_output := [], disk_files := fs, interest := ep\<rparr>))"
    using output_collected [OF ok c _ _ _ _ _ r(1,2) p u encode_response_nonempty] by (auto simp: answering_def)
  have "keeps_place (user_request_ready e)" unfolding cb by (rule answer_keeps_place)
  from pending_loop_ok [OF this h [unfolded process_pending_output_def]] ok
  have w: "whole A A (put_conn fd (writes_too (answering fd i r' ?out)) (s\<lparr>pending_output := [], disk_files := fs, interest := ep\<rparr>))"
    by simp
  have "output_headers r' = output_headers r" by (simp add: a(2) set_flag_def output_headers_def)
  then have "string_of (concat chunks) = output_headers r' @ response_text g r'" unfolding a(3) by simp
  then show ?thesis using h w a(2)
    by (intro exI [of _ r'] exI [of _ chunks]
        exI [of _ "put_conn fd (writes_too (answering fd i r' ?out)) (s\<lparr>pending_output := [], disk_files := fs, interest := ep\<rparr>)"])
      simp
qed

lemma bind_Some_run [simp]: "Option.bind x (server_run e []) = x"
  by (cases x) simp_all

section \<open>Connections that end early\<close>

lemma mask_as_desired: "maybe_update_epoll d (c, ep) = (c1, ep1) \<Longrightarrow> epoll_mask c1 = d"
  by (auto simp: maybe_update_epoll_def split: if_splits)

lemma interest_as_wanted:
  "update_write_interest want (c, ep) = (c1, ep1) \<Longrightarrow> epoll_mask c1 AND EPOLLOUT \<noteq> 0 \<longleftrightarrow> want"
  by (cases want) (auto simp: update_write_interest_def Let_def dest!: mask_as_desired split: if_splits prod.splits)

text \<open>A connection without requests that is queued for closing twice.\<close>

lemma requestless_closed:
  assumes "map_of (conns s) fd = Some c" "c_requests c = []" "should_close_connection c"
  shows "close_all e now [fd, fd] s = Some (forget fd (put_conn fd new_connection (forget fd s)))"
proof -
  have 2: "map_of (conns (forget fd s)) fd = None" by simp
  show ?thesis unfolding close_all_idle [OF assms(1,3,2)] close_all_gone [OF 2] by simp
qed

text \<open>The client goes away after its request has been run, before the answer has been collected.\<close>

lemma client_leaves:
  assumes ok: "whole A A s" and c: "map_of (conns s) fd = Some ((fresh_conn fd)\<lparr>c_requests := [(i, r)]\<rparr>)"
    and r: "\<not> worker_active r" "\<not> has RESPONDED r" "\<not> has FAILED r" "\<not> has ABORTED r"
    and s: "close_queue s = []" "waiting_conns s = []"
  shows "\<exists>s'. handle_io e now fd EPOLLIN [] True s = Some s' \<and> map_of (conns s') fd = None \<and>
    pending_output s' = pending_output s \<and> arena r \<in> free_arenas (manager (pool s')) \<and>
    close_queue s' = [] \<and> (\<forall>k. k \<noteq> fd \<longrightarrow> map_of (conns s') k = map_of (conns s) k)"
proof -
  define c1 where "c1 = (fresh_conn fd)\<lparr>c_requests := [(i, r)], c_closed := True\<rparr>"
  define s1 where "s1 = put_conn fd c1 s"
  have c1: "should_close_connection c1" "c_closed c1" "c_requests c1 = [(i, r)]"
    by (simp_all add: c1_def should_close_connection_def)
  have "(fresh_conn fd)\<lparr>c_requests := [(i, r)], c_in_buf := [], c_closed := True\<rparr> = c1" by (simp add: c1_def new_connection_def)
  then have p: "process_fcgi e now fd (put_conn fd ((fresh_conn fd)\<lparr>c_requests := [(i, r)], c_in_buf := [], c_closed := True\<rparr>) s) = s1"
    using c1(2) by (simp add: s1_def process_fcgi_def)
  have "flush_connection fd s1 = (put_conn fd c1 s1)\<lparr>close_queue := close_queue s1 @ [c_fd c1]\<rparr>"
    using flush_empty [of s1 fd c1] c1(1) by (simp add: s1_def c1_def)
  then have "read_input e now fd [] True s = s1\<lparr>close_queue := [fd]\<rparr>"
    using c p s(1) by (simp add: read_input_def Let_def s1_def c1_def)
  then have h: "handle_io e now fd EPOLLIN [] True s = close_all e now [fd, fd] (s1\<lparr>close_queue := []\<rparr>)"
    using c c1 r by (simp add: handle_io_def Let_def s1_def)
  let ?s2 = "s1\<lparr>close_queue := []\<rparr>"
  let ?s3 = "finalize_files (se_config e) r ?s2"
  have w3: "waiting_conns ?s3 = []" using s(2) by (simp add: s1_def finalize_files_def)
  obtain ep pa where rel: "release_request e now (Some fd) r ?s3 =
      Some (?s3\<lparr>pool := drop_request r (pool ?s3), interest := ep, accept_paused := pa\<rparr>)"
    using release_quiet [OF w3] by blast
  define s4 where "s4 = ?s3\<lparr>pool := drop_request r (pool ?s3), interest := ep, accept_paused := pa\<rparr>"
  have rel4: "release_request e now (Some fd) r ?s3 = Some s4" by (simp only: rel s4_def)
  have m2: "map_of (conns ?s2) fd = Some c1" by (simp add: s1_def)
  have "close_connection e now fd ?s2 = Some (forget fd (put_conn fd (c1\<lparr>c_requests := []\<rparr>) s4))"
    using m2 c1(3) r(2) rel4
    by (simp add: close_connection_def cleanup_connection_requests_def forget_def put_conn_def)
  then have "handle_io e now fd EPOLLIN [] True s =
      Some (forget fd (put_conn fd new_connection (forget fd (put_conn fd (c1\<lparr>c_requests := []\<rparr>) s4))))"
    using h m2 c1(1) close_all_gone [of "forget fd (put_conn fd (c1\<lparr>c_requests := []\<rparr>) s4)" fd e now "[]"]
    by (simp del: close_all.simps(2) add: close_all.simps(2) [of e now fd "[fd]"])
  moreover have "arena r \<in> all_arenas (manager (pool s))" "pool_ok (pool s)"
    using ok server_ok_conn [OF ok c] by (auto simp: requests_ok_def server_ok_def)
  then have "arena r \<in> free_arenas (manager (pool s4))" using drop_request_ok(2) by (simp add: s4_def s1_def)
  ultimately show ?thesis by (simp add: forget_def delete_conv' s4_def finalize_files_def s1_def)
qed

lemma deref_free:
  assumes "whole A B s" "p \<in> free_arenas (manager (pool s))"
  shows "deref p (conns s) = None"
proof (rule ccontr)
  assume "deref p (conns s) \<noteq> None"
  then obtain fd i r where "deref p (conns s) = Some (fd, i, r)" by (metis not_Some_eq surj_pair)
  from server_deref [OF assms(1) this] obtain c where c: "map_of (conns s) fd = Some c" "map_of (c_requests c) i = Some r"
    "arena r = p" by blast
  have "arena r \<notin> free_arenas (manager (pool s))"
    by (rule whole_held [OF assms(1) c(1) map_of_SomeD [OF c(2)]])
  with c(3) assms(2) show False by simp
qed

text \<open>A first read that makes no request: it is too short, or there is no arena for its BEGIN_REQUEST.\<close>

definition no_request_yet :: "server \<Rightarrow> bytes \<Rightarrow> bool" where
  "no_request_yet s bs \<longleftrightarrow> next_record bs = Need_more \<or>
     pool_ok (pool s) \<and> free_arenas (manager (pool s)) = {} \<and>
     (\<exists>i content rest. bs = encode_record (Record FCGI_BEGIN_REQUEST i content) @ rest \<and> 8 \<le> length content \<and>
        length content < 65536)"

lemma no_request_processed:
  assumes "no_request_yet s bs" "map_of (conns s) fd = Some c" "c_in_buf c = bs" "c_requests c = []" "\<not> c_closed c"
  shows "\<exists>w. process_fcgi e now fd s = put_conn fd (c\<lparr>c_waiting := w\<rparr>) s"
proof -
  let ?cb = "io_callbacks (se_config e) now fd" and ?lim = "config_limits (se_config e)"
  have "\<exists>w. process_buffer ?lim ?cb bs (load_io c s) = (OK, bs, (load_io c s)\<lparr>waiting_for_arena := w\<rparr>)"
  proof (cases "next_record bs = Need_more")
    case True
    then have "process_buffer ?lim ?cb bs (load_io c s) = (OK, bs, (load_io c s)\<lparr>waiting_for_arena := False\<rparr>)"
      by (simp add: process_buffer_def fcgi_loop.run_need) (simp add: load_io_def)
    then show ?thesis by blast
  next
    case False
    then obtain i content rest where b: "bs = encode_record (Record FCGI_BEGIN_REQUEST i content) @ rest"
      "8 \<le> length content" "length content < 65536" and p: "pool_ok (pool s)" "free_arenas (manager (pool s)) = {}"
      using assms(1) by (auto simp: no_request_yet_def)
    have "current_req ?cb i (load_io c s) = (None, load_io c s)"
      using assms(4) place_request_full [OF p, of now]
      by (simp add: current_req_def load_io_def io_callbacks_def allocate_request_in_def)
    then have "handle_record ?lim ?cb (Record FCGI_BEGIN_REQUEST i content) (load_io c s) =
        Inl ((load_io c s)\<lparr>waiting_for_arena := True\<rparr>)" using b(2) by (simp add: handle_record_def)
    from record_loop_encode_stop [OF _ this, of rest] b show ?thesis
      by (auto simp: process_buffer_def record_fits_def)
  qed
  then obtain w where "process_buffer ?lim ?cb bs (load_io c s) = (OK, bs, (load_io c s)\<lparr>waiting_for_arena := w\<rparr>)" by blast
  moreover have e: "c\<lparr>c_in_buf := bs, c_closed := False, c_waiting := w\<rparr> = c\<lparr>c_waiting := w\<rparr>"
    using assms(3,5) by (cases c) simp
  ultimately have "process_fcgi e now fd s = put_conn fd (c\<lparr>c_waiting := w\<rparr>) s"
    using assms(2,3,5) by (simp add: process_fcgi_def store_io_def) (simp add: load_io_def e)
  then show ?thesis by blast
qed

section \<open>The end\<close>

text \<open>When nobody waits for an arena, the clean-up after the loop gives every arena back.\<close>

lemma cleanup_quiet:
  "waiting_conns s = [] \<Longrightarrow> \<exists>p ep pa fw. cleanup_loop e now fd rs s =
     Some (s\<lparr>pool := p, interest := ep, accept_paused := pa, disk_files := fw\<rparr>)"
proof (induction rs arbitrary: s)
  case Nil
  show ?case by (intro exI [of _ "pool s"] exI [of _ "interest s"] exI [of _ "accept_paused s"] exI [of _ "disk_files s"]) simp
next
  case (Cons ir rs)
  obtain i r where ir: "ir = (i, r)" by force
  define s1 where "s1 = (if \<not> has RESPONDED r then finalize_files (se_config e) r s else s)"
  obtain d where s1: "s1 = s\<lparr>disk_files := d\<rparr>"
    by (cases "has RESPONDED r") (simp_all add: s1_def finalize_files_def, metis server.surjective server.update_convs(12))
  have "waiting_conns s1 = []" using Cons.prems by (simp add: s1)
  from release_quiet [OF this, of e now "Some fd" r] obtain ep pa where
    2: "release_request e now (Some fd) r s1 = Some (s1\<lparr>pool := drop_request r (pool s1), interest := ep, accept_paused := pa\<rparr>)" by blast
  have "waiting_conns (s1\<lparr>pool := drop_request r (pool s1), interest := ep, accept_paused := pa\<rparr>) = []"
    using Cons.prems by (simp add: s1)
  from Cons.IH [OF this] obtain p epa paa fw where
    "cleanup_loop e now fd rs (s1\<lparr>pool := drop_request r (pool s1), interest := ep, accept_paused := pa\<rparr>) =
      Some (s1\<lparr>pool := p, interest := epa, accept_paused := paa, disk_files := fw\<rparr>)" by auto
  then have "cleanup_loop e now fd (ir # rs) s = Some (s\<lparr>pool := p, interest := epa, accept_paused := paa, disk_files := fw\<rparr>)"
    by (simp add: ir s1_def [symmetric] Let_def 2) (simp add: s1)
  then show ?case by blast
qed

lemma close_quiet:
  assumes "waiting_conns s = []"
  shows "\<exists>s'. close_connection e now fd s = Some s' \<and> waiting_conns s' = [] \<and> wire s' = wire s \<and>
    map_of (conns s') = (map_of (conns s))(fd := None)"
proof (cases "map_of (conns s) fd")
  case None
  with assms show ?thesis by (auto simp: close_connection_def fun_eq_iff)
next
  case (Some c)
  obtain p ep pa fw where "cleanup_loop e now fd (c_requests c) s =
      Some (s\<lparr>pool := p, interest := ep, accept_paused := pa, disk_files := fw\<rparr>)"
    using cleanup_quiet [OF assms] by blast
  then show ?thesis using Some assms
    by (simp add: close_connection_def cleanup_connection_requests_def put_conn_def delete_conv' update_conv' fun_eq_iff)
qed

lemma close_listed_quiet:
  "waiting_conns s = [] \<Longrightarrow> \<exists>s'. close_listed e now fds s = Some s' \<and> wire s' = wire s \<and>
     map_of (conns s') = (\<lambda>fd. if fd \<in> set fds then None else map_of (conns s) fd)"
proof (induction fds arbitrary: s)
  case (Cons fd fds)
  obtain s1 where s1: "close_connection e now fd s = Some s1" "waiting_conns s1 = []" "wire s1 = wire s"
    "map_of (conns s1) = (map_of (conns s))(fd := None)" using close_quiet [OF Cons.prems] by blast
  from Cons.IH [OF s1(2)] show ?case by (auto simp: s1(1,3,4) fun_eq_iff)
qed simp

lemma expire_requests_out:
  "snd (expire_requests g now rs out) =
     out @ end_records (map (\<lambda>(i, r). (req_id r, OVERLOADED)) (filter (\<lambda>(i, r). timed_out g now r) rs))"
proof (induction g now rs out rule: expire_requests.induct)
  case (2 g now i r rs out)
  then show ?case
    using append_end_request_app [of out "req_id r" 0 OVERLOADED]
    by (simp add: end_records_def case_prod_beta)
qed (simp add: end_records_def)

lemma cleanup_all_quiet:
  assumes "whole A B s" "waiting_conns s = []"
  shows "\<exists>s'. cleanup_all e now fds s = Some s' \<and> whole A B s' \<and> map fst (conns s') = map fst (conns s) \<and>
    (\<forall>fd c. map_of (conns s') fd = Some c \<longrightarrow>
      c_requests c = [] \<or> fd \<notin> set fds \<and> (\<exists>c0. map_of (conns s) fd = Some c0 \<and> c_requests c0 = c_requests c))"
  using assms
proof (induction fds arbitrary: s)
  case (Cons fd fds)
  have "\<exists>s1. cleanup_connection_requests e now fd s = Some s1 \<and> waiting_conns s1 = [] \<and> map fst (conns s1) = map fst (conns s) \<and>
      (\<forall>k c. map_of (conns s1) k = Some c \<longrightarrow> c_requests c = [] \<or> k \<noteq> fd \<and> map_of (conns s) k = Some c)"
  proof (cases "map_of (conns s) fd")
    case None
    then show ?thesis using Cons.prems(2) by (auto simp: cleanup_connection_requests_def)
  next
    case (Some c)
    obtain p ep pa fw where "cleanup_loop e now fd (c_requests c) s =
        Some (s\<lparr>pool := p, interest := ep, accept_paused := pa, disk_files := fw\<rparr>)"
      using cleanup_quiet [OF Cons.prems(2)] by blast
    moreover have "fd \<in> fst ` set (conns s)" using map_of_SomeD [OF Some] by force
    ultimately show ?thesis using Some Cons.prems(2)
      by (auto simp: cleanup_connection_requests_def put_conn_def update_keys)
  qed
  then obtain s1 where s1: "cleanup_connection_requests e now fd s = Some s1" "waiting_conns s1 = []"
    "map fst (conns s1) = map fst (conns s)"
    "\<And>k c. map_of (conns s1) k = Some c \<Longrightarrow> c_requests c = [] \<or> k \<noteq> fd \<and> map_of (conns s) k = Some c" by blast
  let ?s = "s1\<lparr>closed_fds := closed_fds s1 @ [fd]\<rparr>"
  have "whole A B ?s" "waiting_conns ?s = []" using cleanup_ok [OF s1(1) Cons.prems(1)] s1(2) by simp_all
  from Cons.IH [OF this] obtain s' where s': "cleanup_all e now fds ?s = Some s'" "whole A B s'"
    "map fst (conns s') = map fst (conns ?s)"
    "\<forall>fd c. map_of (conns s') fd = Some c \<longrightarrow>
      c_requests c = [] \<or> fd \<notin> set fds \<and> (\<exists>c0. map_of (conns ?s) fd = Some c0 \<and> c_requests c0 = c_requests c)" by blast
  have "c_requests c = [] \<or> k \<notin> set (fd # fds) \<and> (\<exists>c0. map_of (conns s) k = Some c0 \<and> c_requests c0 = c_requests c)"
    if "map_of (conns s') k = Some c" for k c
    using s'(4) that s1(4) by fastforce
  with s1 s' show ?case by simp
qed auto

lemma conn_arenas_none: "\<forall>fc\<in>set cs. c_requests (snd fc) = [] \<Longrightarrow> conn_arenas cs = {#}"
  by (induction cs) (auto simp: conn_arenas_def)

lemma serve_cleanup_quiet:
  assumes "whole A B s" "waiting_conns s = []" "finite B"
  shows "\<exists>s'. serve_cleanup e now s = Some s' \<and> conns s' = [] \<and> free_arenas (manager (pool s')) = B"
proof -
  obtain s' where s': "cleanup_all e now (map fst (conns s)) s = Some s'" "whole A B s'" "map fst (conns s') = map fst (conns s)"
    "\<forall>fd c. map_of (conns s') fd = Some c \<longrightarrow> c_requests c = [] \<or> fd \<notin> fst ` set (conns s) \<and>
      (\<exists>c0. map_of (conns s) fd = Some c0 \<and> c_requests c0 = c_requests c)"
    using cleanup_all_quiet [OF assms(1,2), of e now "map fst (conns s)"] by auto
  have "\<forall>fc\<in>set (conns s'). c_requests (snd fc) = []"
  proof safe
    fix fd c assume that: "(fd, c) \<in> set (conns s')"
    have "map_of (conns s') fd = Some c" using that s'(2) by (simp add: server_ok_def umap_ok_def)
    then show "c_requests (snd (fd, c)) = []" using s'(4) that s'(3) by (metis image_eqI fst_conv snd_conv list.set_map)
  qed
  then have "conn_arenas (conns s') = {#}" by (rule conn_arenas_none)
  then have "mset_set (free_arenas (manager (pool s'))) = mset_set B" using s'(2) by (simp add: server_ok_def ledger_def)
  then have "free_arenas (manager (pool s')) = B" by (metis assms(3) finite_free finite_set_mset_mset_set)
  with s'(1) show ?thesis by (simp add: serve_cleanup_def)
qed

section \<open>Properties\<close>

text \<open>C1: a request that arrives on a new connection is served: once a worker has run it, the eventfd has
  been read and the socket is writable, the client has been sent the STDOUT records of the answer
  to its own variables and body, and END_REQUEST; the arena is free again. But the connection is
  closed even when the client asked to keep it, and otherwise its descriptor is closed twice.\<close>

theorem request_served:
  assumes "server_ok A (mset_set A) s" "map_of (conns s) fd = Some (new_connection\<lparr>c_fd := fd\<rparr>)"
    and "pending_output s = []" "close_queue s = []" "waiting_conns s = []" "free_arenas (manager (pool s)) \<noteq> {}"
    and "request_fits (se_config e) pss bodies"
    and "user_request_ready e = answer_request (se_config e) (se_cache e) dr used"
  shows "\<exists>r chunks. string_of (concat chunks) = output_headers r @ response_text (se_config e) r \<and>
    body r = string_of (concat bodies) \<and>
    env r = dv_put ''DBG_ARENA_ALLOC'' (make_number (double_of_int (int used)))
      (strip_path_prefix (se_config e) (put_pairs (concat pss) (env (request_new (arena r) now)))) \<and>
    (\<forall>n\<ge>length (encode_records (response_records i chunks)). \<exists>s'.
      server_run e [(Io now fd EPOLLIN (encode_records (client_request i keep pss bodies)) False, []),
        (Worker (length (fcgi_tasks s)) ti, []), (Output_ready, []), (Io now' fd EPOLLOUT [] False, [Sent n])] s = Some s' \<and>
      wire s' = wire s @ [(fd, encode_records (response_records i chunks))] \<and>
      map_of (conns s') fd = None \<and> arena r \<in> free_arenas (manager (pool s')) \<and>
      closed_fds s' = closed_fds s @ (if keep then [fd] else [fd, fd]))"
proof -
  let ?s = "s\<lparr>sends := []\<rparr>"
  from request_arrives [of A ?s fd e pss bodies now i keep] assms(1-7) obtain r1 s1 where
    h1: "handle_io e now fd EPOLLIN (encode_records (client_request i keep pss bodies)) False ?s = Some s1"
    and c1: "map_of (conns s1) fd = Some ((fresh_conn fd)\<lparr>c_requests := [(i, r1)], active_workers := Suc 0\<rparr>)"
    and s1: "fcgi_tasks s1 = fcgi_tasks s @ [(fd, arena r1)]" "pending_output s1 = []" "close_queue s1 = []"
      "waiting_conns s1 = []" "wire s1 = wire s" "closed_fds s1 = closed_fds s"
    and r1: "is_ready r1" "has KEEP_CONNECTION r1 = keep" "req_id r1 = i" "conn_ptr r1 = Some fd"
      "env r1 = strip_path_prefix (se_config e) (put_pairs (concat pss) (env (request_new (arena r1) now)))"
      "body r1 = string_of (concat bodies)" by auto
  have ok1: "whole A A (s1\<lparr>sends := []\<rparr>)" using handle_io_ok [OF h1] assms(1) by simp
  from request_worked [OF ok1, of fd i r1 "fcgi_tasks s" e ti] c1 s1 r1 obtain r2 s2 where
    h2: "run_fcgi_task e (length (fcgi_tasks s)) ti (s1\<lparr>sends := []\<rparr>) = Some s2" and ok2: "whole A A (s2\<lparr>sends := []\<rparr>)"
    and c2: "map_of (conns s2) fd = Some ((fresh_conn fd)\<lparr>c_requests := [(i, r2)]\<rparr>)"
    and s2: "pending_output s2 = [arena r2]" "close_queue s2 = []" "waiting_conns s2 = []" "wire s2 = wire s"
      "closed_fds s2 = closed_fds s"
    and k: "task_keeps r1 r2" "\<not> worker_active r2" by (auto simp: is_ready_def)
  have r2: "\<not> has RESPONDED r2" "conn_ptr r2 = Some fd" "req_id r2 = i" "has KEEP_CONNECTION r2 = keep"
    "arena r2 = arena r1" "env r2 = env r1" "body r2 = body r1"
    using k(1) r1 by (simp_all add: task_keeps_def same_place_def has_def is_ready_def)
  from answer_collected [OF ok2, of fd i r2 e "se_config e" "se_cache e" dr used] c2 s2 r2 assms(8) obtain r3 chunks s3 where
    h3: "process_pending_output e (s2\<lparr>sends := []\<rparr>) = Some s3" and ok3: "whole A A s3"
    and c3: "map_of (conns s3) fd = Some (writes_too (answering fd i r3 (encode_records (response_records i chunks))))"
    and s3: "close_queue s3 = []" "waiting_conns s3 = []" "wire s3 = wire s" "closed_fds s3 = closed_fds s"
    and r3: "r3 = set_flag RESPONDED (r2\<lparr>env := dv_put ''DBG_ARENA_ALLOC'' (make_number (double_of_int (int used))) (env r2)\<rparr>)"
      "string_of (concat chunks) = output_headers r3 @ response_text (se_config e) r3" by auto
  have r4: "has RESPONDED r3" "\<not> worker_active r3" "has KEEP_CONNECTION r3 = keep"
    using k(2) r2(4) by (simp_all add: r3(1)) (simp add: flag_defs)
  have "\<exists>s4. handle_io e now' fd EPOLLOUT [] False (s3\<lparr>sends := [Sent n]\<rparr>) = Some s4 \<and> map_of (conns s4) fd = None \<and>
      wire s4 = wire s @ [(fd, encode_records (response_records i chunks))] \<and> arena r3 \<in> free_arenas (manager (pool s4)) \<and>
      closed_fds s4 = closed_fds s @ (if keep then [fd] else [fd, fd])"
    if "length (encode_records (response_records i chunks)) \<le> n" for n
    using answer_sent [of A "s3\<lparr>sends := [Sent n]\<rparr>" fd "answering fd i r3 (encode_records (response_records i chunks))"
        i r3 n "[]" e now'] ok3 c3 s3 r4 that encode_response_nonempty by simp
  moreover have "server_run e [(Io now fd EPOLLIN (encode_records (client_request i keep pss bodies)) False, []),
        (Worker (length (fcgi_tasks s)) ti, []), (Output_ready, []), (Io now' fd EPOLLOUT [] False, [Sent n])] s =
      handle_io e now' fd EPOLLOUT [] False (s3\<lparr>sends := [Sent n]\<rparr>)" for n
    using h1 h2 h3 by (simp add: server_step_def Let_def)
  moreover have "body r3 = string_of (concat bodies)" "arena r3 = arena r1"
    "env r3 = dv_put ''DBG_ARENA_ALLOC'' (make_number (double_of_int (int used))) (env r1)"
    using r2(5-7) r1(6) by (simp_all add: r3(1))
  ultimately show ?thesis using r3(2) r1(5)
    by (intro exI [of _ r3] exI [of _ chunks]) metis
qed

text \<open>A server with one connection, and the small pool.\<close>

definition demo_reply :: disk_reply where
  "demo_reply = \<lparr>dr_opened = True, dr_cut_off = None, dr_mtime = 5, dr_wall = 5, dr_now = 10\<rparr>"

definition demo_server_env :: server_env where
  "demo_server_env = \<lparr>se_config = default_config, se_cache = demo_config, se_saver = (\<lambda>_ _ w. (None, w)),
     user_request_ready = answer_request default_config demo_config demo_reply 64, listen_fd = 3\<rparr>"

definition demo_inputs :: task_inputs where
  "demo_inputs = \<lparr>ti_now = 5, ti_later = 6, ti_draw = (\<lambda>_. 7)\<rparr>"

definition demo_server :: server where
  "demo_server = (initial_server demo_server_env demo_pool (Map.empty, empty_store))\<lparr>
     conns := [(5, new_connection\<lparr>c_fd := 5\<rparr>)], interest := [(3, EPOLLIN OR EPOLLET), (5, EPOLLIN OR EPOLLET)]\<rparr>"

lemma demo_free: "free_arenas (manager demo_pool) = all_arenas (manager demo_pool)"
  by (simp add: demo_pool_def free_all_created)

lemma demo_server_whole: "server_ok (all_arenas (manager demo_pool)) (mset_set (all_arenas (manager demo_pool))) demo_server"
  using demo_pool_ok
  by (simp add: server_ok_def demo_server_def initial_server_def ledger_def conn_arenas_def demo_free umap_ok_def)

lemma demo_pool_nonempty: "free_arenas (manager demo_pool) \<noteq> {}"
  using demo_pool_free by auto

theorem request_served_witness:
  "\<exists>r chunks. string_of (concat chunks) = output_headers r @ response_text default_config r \<and>
    body r = string_of [1, 2, 3] \<and>
    env r = dv_put ''DBG_ARENA_ALLOC'' (make_number (double_of_int (int 64)))
      (strip_path_prefix default_config (put_pairs [(''A'', ''x''), (''B'', [])] (env (request_new (arena r) 0)))) \<and>
    (\<forall>n\<ge>length (encode_records (response_records 7 chunks)). \<exists>s'.
      server_run demo_server_env [(Io 0 5 EPOLLIN (encode_records (client_request 7 True [[(''A'', ''x'')], [(''B'', [])]] [[1, 2], [3]])) False, []),
        (Worker 0 demo_inputs, []), (Output_ready, []), (Io 1 5 EPOLLOUT [] False, [Sent n])] demo_server = Some s' \<and>
      wire s' = [(5, encode_records (response_records 7 chunks))] \<and>
      map_of (conns s') 5 = None \<and> arena r \<in> free_arenas (manager (pool s')) \<and> closed_fds s' = [5])"
proof -
  have "\<exists>r chunks. string_of (concat chunks) = output_headers r @ response_text (se_config demo_server_env) r \<and>
    body r = string_of (concat [[1, 2], [3]]) \<and>
    env r = dv_put ''DBG_ARENA_ALLOC'' (make_number (double_of_int (int 64)))
      (strip_path_prefix (se_config demo_server_env) (put_pairs (concat [[(''A'', ''x'')], [(''B'', [])]]) (env (request_new (arena r) 0)))) \<and>
    (\<forall>n\<ge>length (encode_records (response_records 7 chunks)). \<exists>s'.
      server_run demo_server_env [(Io 0 5 EPOLLIN (encode_records (client_request 7 True [[(''A'', ''x'')], [(''B'', [])]] [[1, 2], [3]])) False, []),
        (Worker (length (fcgi_tasks demo_server)) demo_inputs, []), (Output_ready, []), (Io 1 5 EPOLLOUT [] False, [Sent n])] demo_server = Some s' \<and>
      wire s' = wire demo_server @ [(5, encode_records (response_records 7 chunks))] \<and>
      map_of (conns s') 5 = None \<and> arena r \<in> free_arenas (manager (pool s')) \<and>
      closed_fds s' = closed_fds demo_server @ (if True then [5] else [5, 5]))"
  proof (rule request_served [OF demo_server_whole])
    show "map_of (conns demo_server) 5 = Some (new_connection\<lparr>c_fd := 5\<rparr>)" "pending_output demo_server = []"
      "close_queue demo_server = []" "waiting_conns demo_server = []" "free_arenas (manager (pool demo_server)) \<noteq> {}"
      using demo_pool_nonempty by (simp_all add: demo_server_def initial_server_def)
    show "request_fits (se_config demo_server_env) [[(''A'', ''x'')], [(''B'', [])]] [[1, 2], [3]]"
      by (simp add: request_fits_def demo_server_env_def default_config_def encode_nv_def encode_length_def pairs_size_def)
    show "user_request_ready demo_server_env =
        answer_request (se_config demo_server_env) (se_cache demo_server_env) demo_reply 64"
      by (simp add: demo_server_env_def)
  qed
  moreover have "fcgi_tasks demo_server = []" "wire demo_server = []" "closed_fds demo_server = []"
    "se_config demo_server_env = default_config"
    by (simp_all add: demo_server_def initial_server_def demo_server_env_def)
  ultimately show ?thesis by (simp only: list.size(3) append_Nil if_True concat.simps append_Cons append_Nil2)
qed


text \<open>C35: a connection on which no request has begun by the end of its first event is closed, without a
  word and by two calls of \<open>close\<close>: when its first read ends inside a record, and also when its
  BEGIN_REQUEST has to wait for an arena, although it has been put on the list of waiting
  connections.\<close>

theorem connection_without_request_closed:
  assumes "map_of (conns s) fd = Some (new_connection\<lparr>c_fd := fd\<rparr>)" "close_queue s = []" "no_request_yet s bs"
  shows "\<exists>s'. handle_io e now fd EPOLLIN bs False s = Some s' \<and> map_of (conns s') fd = None \<and>
    wire s' = wire s \<and> closed_fds s' = closed_fds s @ [fd, fd]"
proof -
  define c0 where "c0 = (fresh_conn fd)\<lparr>c_in_buf := bs\<rparr>"
  have e0: "(fresh_conn fd)\<lparr>c_in_buf := bs, c_closed := False\<rparr> = c0" by (simp add: c0_def new_connection_def)
  have "no_request_yet (put_conn fd c0 s) bs" using assms(3) by (simp add: no_request_yet_def)
  from no_request_processed [OF this, of fd c0 e now] obtain w where
    p: "process_fcgi e now fd (put_conn fd c0 s) = put_conn fd (c0\<lparr>c_waiting := w\<rparr>) (put_conn fd c0 s)"
    by (auto simp: c0_def)
  define c1 where "c1 = c0\<lparr>c_waiting := w\<rparr>"
  define s1 where "s1 = put_conn fd c1 (s\<lparr>waiting_conns := (if w then waiting_conns s @ [fd] else waiting_conns s)\<rparr>)"
  have c1: "should_close_connection c1" "c_requests c1 = []" "c_out_buf c1 = []" "c_out_pos c1 = 0" "reads_only c1" "c_fd c1 = fd"
    by (simp_all add: c1_def c0_def should_close_connection_def)
  have m1: "map_of (conns s1) fd = Some c1" by (simp add: s1_def)
  have "read_input e now fd bs False s = flush_connection fd s1"
    using assms(1) p by (simp add: read_input_def e0 Let_def) (simp add: c1_def s1_def put_conn_waiting)
  also have "\<dots> = (put_conn fd c1 s1)\<lparr>close_queue := [fd]\<rparr>"
    using flush_empty [OF m1 c1(3-5)] c1(1,6) assms(2) by (simp add: s1_def)
  finally have ri: "read_input e now fd bs False s = (put_conn fd c1 s1)\<lparr>close_queue := [fd]\<rparr>" .
  let ?s3 = "(put_conn fd c1 s1)\<lparr>close_queue := []\<rparr>"
  have "map_of (conns ?s3) fd = Some c1" by simp
  note close = requestless_closed [OF this c1(2,1), of e now]
  have "handle_io e now fd EPOLLIN bs False s = close_all e now [fd, fd] ?s3"
    using assms(1) c1(1,2) by (simp add: handle_io_def ri Let_def del: close_all.simps(2))
  then show ?thesis unfolding close by (simp add: s1_def)
qed

theorem connection_without_request_closed_witness:
  "\<exists>s'. handle_io demo_server_env 0 5 EPOLLIN [1, 1, 0, 7] False demo_server = Some s' \<and> map_of (conns s') 5 = None \<and>
    wire s' = [] \<and> closed_fds s' = [5, 5]"
proof -
  have "\<exists>s'. handle_io demo_server_env 0 5 EPOLLIN [1, 1, 0, 7] False demo_server = Some s' \<and> map_of (conns s') 5 = None \<and>
    wire s' = wire demo_server \<and> closed_fds s' = closed_fds demo_server @ [5, 5]"
    by (rule connection_without_request_closed)
      (simp_all add: demo_server_def initial_server_def no_request_yet_def next_record_def)
  then show ?thesis by (simp add: demo_server_def initial_server_def)
qed

text \<open>C21: no byte is lost or sent twice: what a flush sends is the front of what was left to send, the rest
  stays, and as long as something is left and the connection is open, epoll has been asked to report
  that the socket is writable.\<close>

theorem flush_in_order:
  assumes "map_of (conns s) fd = Some c" "c_out_pos c \<le> length (c_out_buf c)"
  shows "\<exists>c' bs. map_of (conns (flush_connection fd s)) fd = Some c' \<and>
    drop (c_out_pos c) (c_out_buf c) = bs @ drop (c_out_pos c') (c_out_buf c') \<and> c_out_pos c' \<le> length (c_out_buf c') \<and>
    wire (flush_connection fd s) = wire s @ (if bs = [] then [] else [(c_fd c, bs)]) \<and>
    (c_out_pos c' = length (c_out_buf c') \<or> c_closed c' \<or> epoll_mask c' AND EPOLLOUT \<noteq> 0)"
proof -
  obtain en p bs rs where l: "send_loop (sends s) (c_out_buf c) (c_out_pos c) = (en, p, bs, rs)" by (metis prod_cases4)
  note order = send_loop_order [OF l assms(2)]
  then have o: "p \<le> length (c_out_buf c)" "en = Drained \<Longrightarrow> p = length (c_out_buf c)" by simp_all
  have split: "drop (c_out_pos c) (c_out_buf c) = bs @ drop p (c_out_buf c)"
    using order append_take_drop_id [of "p - c_out_pos c" "drop (c_out_pos c) (c_out_buf c)"] by simp
  let ?s1 = "s\<lparr>sends := rs, wire := (if bs = [] then wire s else wire s @ [(c_fd c, bs)])\<rparr>"
  show ?thesis
  proof (cases en)
    case Failed_send
    then have "flush_connection fd s = put_conn fd (c\<lparr>c_out_pos := p, c_closed := True\<rparr>) ?s1"
      using assms(1) l by (simp add: flush_connection_def)
    then show ?thesis using split o by (intro exI [of _ "c\<lparr>c_out_pos := p, c_closed := True\<rparr>"] exI [of _ bs]) simp
  next
    case Blocked
    obtain c1 ep where u: "update_write_interest True (c\<lparr>c_out_pos := p\<rparr>, interest ?s1) = (c1, ep)" by (metis prod.collapse)
    then have "flush_connection fd s = put_conn fd c1 (?s1\<lparr>interest := ep\<rparr>)"
      using assms(1) l Blocked by (simp add: flush_connection_def write_interest_def)
    then show ?thesis using split o update_interest_keeps [OF u] interest_as_wanted [OF u]
      by (intro exI [of _ c1] exI [of _ bs]) simp
  next
    case Drained
    define c2 where "c2 = (if p \<noteq> 0 then c\<lparr>c_out_pos := p, c_out_buf := [], c_out_pos := 0\<rparr> else c\<lparr>c_out_pos := p\<rparr>)"
    obtain c1 ep where u: "update_write_interest False (c2, interest ?s1) = (c1, ep)" by (metis prod.collapse)
    have "map_of (conns (flush_connection fd s)) fd = Some c1" "wire (flush_connection fd s) = wire ?s1"
      using assms(1) l Drained u by (simp_all add: flush_connection_def write_interest_def c2_def Let_def)
    moreover have "c_out_pos c2 = length (c_out_buf c2)" using o Drained by (simp add: c2_def)
    moreover have "drop (c_out_pos c2) (c_out_buf c2) = drop p (c_out_buf c)" using o Drained by (simp add: c2_def)
    ultimately show ?thesis using split update_interest_keeps [OF u]
      by (intro exI [of _ c1] exI [of _ bs]) simp
  qed
qed

theorem flush_in_order_witness:
  "\<exists>c' bs. map_of (conns (flush_connection 5 (demo_server\<lparr>conns := [(5, (new_connection\<lparr>c_fd := 5, c_out_buf := [1, 2, 3]\<rparr>))], sends := [Sent 2, Would_block]\<rparr>))) 5 = Some c' \<and>
    [1, 2, 3] = bs @ drop (c_out_pos c') (c_out_buf c') \<and> c_out_pos c' \<le> length (c_out_buf c') \<and>
    (c_out_pos c' = length (c_out_buf c') \<or> c_closed c' \<or> epoll_mask c' AND EPOLLOUT \<noteq> 0)"
  using flush_in_order [of "demo_server\<lparr>conns := [(5, (new_connection\<lparr>c_fd := 5, c_out_buf := [1, 2, 3]\<rparr>))], sends := [Sent 2, Would_block]\<rparr>"
      5 "new_connection\<lparr>c_fd := 5, c_out_buf := [1, 2, 3]\<rparr>"] by simp blast

text \<open>Arenas are accounted for: in every run of the server, whatever the clients, the kernel and the
  workers do, each arena of the pool is free or holds exactly one request, of one connection, and the
  request knows that connection and its id.\<close>

theorem arenas_accounted:
  assumes "pool_ok p" "free_arenas (manager p) = all_arenas (manager p)" "keeps_place (user_request_ready e)"
    and "server_run e evs (initial_server e p fw) = Some s"
  shows "let held = concat (map (\<lambda>(fd, c). map (\<lambda>(i, r). arena r) (c_requests c)) (conns s)) in
    distinct held \<and> set held \<inter> free_arenas (manager (pool s)) = {} \<and>
    set held \<union> free_arenas (manager (pool s)) = all_arenas (manager p) \<and>
    list_all (\<lambda>(fd, c). list_all (\<lambda>(i, r). conn_ptr r = Some fd \<and> req_id r = i) (c_requests c)) (conns s)"
proof -
  let ?A = "all_arenas (manager p)"
  let ?held = "concat (map (\<lambda>(fd, c). map (\<lambda>(i, r). arena r) (c_requests c)) (conns s))"
  have "whole ?A ?A (initial_server e p fw)"
    using assms(1,2) by (simp add: server_ok_def initial_server_def ledger_def conn_arenas_def umap_ok_def)
  with server_run_ok [OF assms(3,4)] have ok: "whole ?A ?A s" .
  then have l: "places.balance (mset_set ?A) (mset ?held) (pool s)"
    by (simp add: server_ok_balance conn_arenas_concat)
  have fin: "finite ?A" by (simp add: all_arenas_def)
  note split = places.balance_split [OF l fin]
  have "list_all (\<lambda>(fd, c). list_all (\<lambda>(i, r). conn_ptr r = Some fd \<and> req_id r = i) (c_requests c)) (conns s)"
    using ok by (fastforce simp: server_ok_def requests_ok_def placed_def list_all_iff)
  with split show ?thesis by (simp only: Let_def simp_thms)
qed

lemma demo_accept:
  "server_step demo_server_env (Accepted [5], []) (initial_server demo_server_env demo_pool (Map.empty, empty_store)) = Some demo_server"
proof -
  have "available_count (manager demo_pool) = 2" by (simp add: demo_pool_def create_arenas_def)
  then show ?thesis
    by (simp add: server_step_def handle_new_connections_def initial_server_def demo_server_def demo_server_env_def
        put_conn_def Let_def)
qed

theorem arenas_accounted_witness:
  "\<exists>s r. server_run demo_server_env [(Accepted [5], []), (Io 0 5 EPOLLIN (encode_records (client_request 7 True [] [])) False, [])]
      (initial_server demo_server_env demo_pool (Map.empty, empty_store)) = Some s \<and>
    map_of (conns s) 5 = Some (new_connection\<lparr>c_fd := 5, c_requests := [(7, r)], active_workers := Suc 0\<rparr>) \<and>
    (let held = concat (map (\<lambda>(fd, c). map (\<lambda>(i, r). arena r) (c_requests c)) (conns s)) in
      distinct held \<and> set held \<inter> free_arenas (manager (pool s)) = {} \<and>
      set held \<union> free_arenas (manager (pool s)) = all_arenas (manager demo_pool) \<and>
      list_all (\<lambda>(fd, c). list_all (\<lambda>(i, r). conn_ptr r = Some fd \<and> req_id r = i) (c_requests c)) (conns s))"
proof -
  have fits: "request_fits (se_config demo_server_env) [] []" by (simp add: request_fits_def pairs_size_def)
  have d: "map_of (conns demo_server) 5 = Some (fresh_conn 5)" "close_queue demo_server = []"
    "free_arenas (manager (pool demo_server)) \<noteq> {}" "demo_server\<lparr>sends := []\<rparr> = demo_server"
    using demo_pool_nonempty by (simp_all add: demo_server_def initial_server_def)
  from request_arrives [OF demo_server_whole d(1-3) fits, of 0 7 True] obtain r s where
    h: "handle_io demo_server_env 0 5 EPOLLIN (encode_records (client_request 7 True [] [])) False demo_server = Some s"
    "map_of (conns s) 5 = Some (new_connection\<lparr>c_fd := 5, c_requests := [(7, r)], active_workers := Suc 0\<rparr>)" by blast
  have "server_step demo_server_env (Io 0 5 EPOLLIN (encode_records (client_request 7 True [] [])) False, []) demo_server = Some s"
    using h(1) by (simp add: server_step_def d(4))
  then have run: "server_run demo_server_env [(Accepted [5], []), (Io 0 5 EPOLLIN (encode_records (client_request 7 True [] [])) False, [])]
      (initial_server demo_server_env demo_pool (Map.empty, empty_store)) = Some s"
    by (simp add: demo_accept)
  have k: "keeps_place (user_request_ready demo_server_env)" by (simp add: demo_server_env_def answer_keeps_place)
  from arenas_accounted [OF demo_pool_ok demo_free k run] run h(2) show ?thesis by blast
qed

text \<open>C33: nothing withdraws an entry of the output list: when the client goes away after a worker has run
  its request and before the eventfd has been read, the request and the connection are destroyed, and
  reading the eventfd then follows a pointer to the request that is gone.\<close>

theorem late_output_undefined:
  assumes "server_ok A (mset_set A) s" "map_of (conns s) fd = Some (new_connection\<lparr>c_fd := fd\<rparr>)"
    and "pending_output s = []" "close_queue s = []" "waiting_conns s = []" "free_arenas (manager (pool s)) \<noteq> {}"
    and "request_fits (se_config e) pss bodies"
  shows "\<exists>s' p. server_run e [(Io now fd EPOLLIN (encode_records (client_request i keep pss bodies)) False, []),
        (Worker (length (fcgi_tasks s)) ti, []), (Io now' fd EPOLLIN [] True, [])] s = Some s' \<and>
      pending_output s' = [p] \<and> p \<in> free_arenas (manager (pool s')) \<and> map_of (conns s') fd = None \<and>
      server_step e (Output_ready, []) s' = None"
proof -
  let ?s = "s\<lparr>sends := []\<rparr>"
  from request_arrives [of A ?s fd e pss bodies now i keep] assms obtain r1 s1 where
    h1: "handle_io e now fd EPOLLIN (encode_records (client_request i keep pss bodies)) False ?s = Some s1"
    and c1: "map_of (conns s1) fd = Some ((fresh_conn fd)\<lparr>c_requests := [(i, r1)], active_workers := Suc 0\<rparr>)"
    and s1: "fcgi_tasks s1 = fcgi_tasks s @ [(fd, arena r1)]" "pending_output s1 = []" "close_queue s1 = []" "waiting_conns s1 = []"
    and r1: "is_ready r1" "\<not> has ABORTED r1" "req_id r1 = i" "conn_ptr r1 = Some fd" by auto
  have ok1: "whole A A (s1\<lparr>sends := []\<rparr>)" using handle_io_ok [OF h1] assms(1) by simp
  from request_worked [OF ok1, of fd i r1 "fcgi_tasks s" e ti] c1 s1 r1 obtain r2 s2 where
    h2: "run_fcgi_task e (length (fcgi_tasks s)) ti (s1\<lparr>sends := []\<rparr>) = Some s2" and ok2: "whole A A (s2\<lparr>sends := []\<rparr>)"
    and c2: "map_of (conns s2) fd = Some ((fresh_conn fd)\<lparr>c_requests := [(i, r2)]\<rparr>)"
    and s2: "pending_output s2 = [arena r2]" "close_queue s2 = []" "waiting_conns s2 = []"
    and k: "task_keeps r1 r2" "\<not> worker_active r2" by (auto simp: is_ready_def)
  have r2: "\<not> has RESPONDED r2" "\<not> has FAILED r2" "\<not> has ABORTED r2"
    using k(1) r1 by (simp_all add: task_keeps_def has_def is_ready_def)
  from client_leaves [OF ok2, of fd i r2 e now'] c2 s2 k(2) r2 obtain s3 where
    h3: "handle_io e now' fd EPOLLIN [] True (s2\<lparr>sends := []\<rparr>) = Some s3" and s3: "map_of (conns s3) fd = None"
      "pending_output s3 = [arena r2]" "arena r2 \<in> free_arenas (manager (pool s3))" by auto
  have ok3: "whole A A (s3\<lparr>sends := []\<rparr>)" using handle_io_ok [OF h3 ok2] by simp
  have "server_step e (Output_ready, []) s3 = None"
    using deref_free [OF ok3, of "arena r2"] s3(2,3) by (simp add: server_step_def process_pending_output_def)
  moreover have "server_run e [(Io now fd EPOLLIN (encode_records (client_request i keep pss bodies)) False, []),
        (Worker (length (fcgi_tasks s)) ti, []), (Io now' fd EPOLLIN [] True, [])] s = Some s3"
    using h1 h2 h3 by (simp add: server_step_def Let_def)
  ultimately show ?thesis using s3 by blast
qed

theorem late_output_undefined_witness:
  "\<exists>s' p. server_run demo_server_env [(Io 0 5 EPOLLIN (encode_records (client_request 7 True [] [])) False, []),
        (Worker 0 demo_inputs, []), (Io 1 5 EPOLLIN [] True, [])] demo_server = Some s' \<and>
      pending_output s' = [p] \<and> p \<in> free_arenas (manager (pool s')) \<and> map_of (conns s') 5 = None \<and>
      server_step demo_server_env (Output_ready, []) s' = None"
proof -
  have "request_fits (se_config demo_server_env) [] []" by (simp add: request_fits_def pairs_size_def)
  then show ?thesis
    using late_output_undefined [OF demo_server_whole, of 5 demo_server_env "[]" "[]" 0 7 True demo_inputs 1] demo_pool_nonempty
    by (simp add: demo_server_def initial_server_def del: server_run.simps)
qed

text \<open>C22: housekeeping: at a tick of the timer with no connection waiting for an arena, each request that has been at work for longer than
  \<open>max_request_time\<close> and is unanswered is marked as answered and failed, and an END_REQUEST with the
  status OVERLOADED is put behind the output of its connection, in the order of the map; connections
  that are then done with are closed. But nothing is sent, and nothing asks epoll to say when it can be.\<close>

theorem overdue_requests_failed:
  assumes "waiting_conns s = []" "umap_ok (conns s)"
  shows "\<exists>s'. housekeeping_close_idle e now s = Some s' \<and> wire s' = wire s \<and>
    (\<forall>fd. map_of (conns s') fd =
      (case map_of (conns s) fd of
         None \<Rightarrow> None
       | Some c \<Rightarrow>
           (let overdue = timed_out (se_config e) now;
                c' = c\<lparr>c_requests := map (\<lambda>(i, r). (i, if overdue r then set_flag RESPONDED (set_flag FAILED r) else r)) (c_requests c),
                  c_out_buf := c_out_buf c @
                    end_records (map (\<lambda>(i, r). (req_id r, OVERLOADED)) (filter (\<lambda>(i, r). overdue r) (c_requests c)))\<rparr>
            in if should_close_connection c' then None else Some c')))"
proof -
  let ?ex = "expire_connection (se_config e) now"
  define cs where "cs = map (\<lambda>(fd, c). (fd, ?ex c)) (conns s)"
  define closing where "closing = map fst (filter (\<lambda>(fd, c). should_close_connection c) cs)"
  have ex: "?ex c = c\<lparr>c_requests := map (\<lambda>(i, r). (i, if timed_out (se_config e) now r then set_flag RESPONDED (set_flag FAILED r) else r)) (c_requests c),
      c_out_buf := c_out_buf c @
        end_records (map (\<lambda>(i, r). (req_id r, OVERLOADED)) (filter (\<lambda>(i, r). timed_out (se_config e) now r) (c_requests c)))\<rparr>" for c
    using expire_requests_map [of "se_config e" now "c_requests c" "c_out_buf c"]
      expire_requests_out [of "se_config e" now "c_requests c" "c_out_buf c"]
    by (cases "expire_requests (se_config e) now (c_requests c) (c_out_buf c)") (simp add: expire_connection_def expired_def [abs_def])
  have m: "map_of cs fd = map_option ?ex (map_of (conns s) fd)" for fd
    by (simp add: cs_def map_of_map case_prod_beta)
  have "distinct (map fst cs)" using assms(2) by (simp add: cs_def umap_ok_def comp_def case_prod_beta)
  then have closing: "fd \<in> set closing \<longleftrightarrow> (\<exists>c. map_of cs fd = Some c \<and> should_close_connection c)" for fd
    by (force simp: closing_def)
  have "waiting_conns (s\<lparr>conns := cs\<rparr>) = []" using assms(1) by simp
  from close_listed_quiet [OF this, of e now closing] obtain s' where
    s': "close_listed e now closing (s\<lparr>conns := cs\<rparr>) = Some s'" "wire s' = wire (s\<lparr>conns := cs\<rparr>)"
      "map_of (conns s') = (\<lambda>fd. if fd \<in> set closing then None else map_of (conns (s\<lparr>conns := cs\<rparr>)) fd)" by blast
  have "housekeeping_close_idle e now s = Some s'"
    using s'(1) by (simp add: housekeeping_close_idle_def cs_def closing_def)
  moreover have "map_of (conns s') fd = (case map_of (conns s) fd of None \<Rightarrow> None
      | Some c \<Rightarrow> if should_close_connection (?ex c) then None else Some (?ex c))" for fd
    by (cases "map_of (conns s) fd") (simp_all add: s'(3) closing m)
  moreover have "wire s' = wire s" using s'(2) by simp
  ultimately show ?thesis unfolding ex Let_def by blast
qed

theorem overdue_requests_failed_witness:
  "\<exists>s'. housekeeping_close_idle demo_server_env (40 * 10 ^ 9)
      (demo_server\<lparr>conns := [(5, new_connection\<lparr>c_fd := 5, c_requests := [(7, (request_new 0 0)\<lparr>req_id := 7\<rparr>)]\<rparr>)]\<rparr>) = Some s' \<and>
    wire s' = [] \<and>
    map_option c_out_buf (map_of (conns s') 5) = Some (append_end_request [] 7 0 OVERLOADED) \<and>
    map_option (\<lambda>c. map (\<lambda>(i, r). (has RESPONDED r, has FAILED r)) (c_requests c)) (map_of (conns s') 5) = Some [(True, True)]"
proof -
  let ?r = "(request_new 0 0)\<lparr>req_id := 7\<rparr>"
  let ?s = "demo_server\<lparr>conns := [(5, new_connection\<lparr>c_fd := 5, c_requests := [(7, ?r)]\<rparr>)]\<rparr>"
  have h: "waiting_conns ?s = []" "umap_ok (conns ?s)" by (simp_all add: demo_server_def initial_server_def umap_ok_def)
  have "double_of_int 30 = Dbl False (30 * 2 ^ 48) (- 48)"
    by (simp add: double_of_int_def round_double_def binade_def pow2_ge_def ilog2.simps round_at_def Let_def)
  then have over: "timed_out (se_config demo_server_env) (40 * 10 ^ 9) ?r"
    by (simp add: timed_out_def demo_server_env_def default_config_def request_new_def has_def dbl_num_def dbl_den_def)
  have out_ne: "append_end_request [] 7 0 OVERLOADED \<noteq> []"
    by (simp add: append_end_request_def append_record_def header_bytes_def)
  obtain s' where s': "housekeeping_close_idle demo_server_env (40 * 10 ^ 9) ?s = Some s'" "wire s' = wire ?s"
    and c: "\<forall>fd. map_of (conns s') fd =
      (case map_of (conns ?s) fd of
         None \<Rightarrow> None
       | Some c \<Rightarrow>
           (let overdue = timed_out (se_config demo_server_env) (40 * 10 ^ 9);
                c' = c\<lparr>c_requests := map (\<lambda>(i, r). (i, if overdue r then set_flag RESPONDED (set_flag FAILED r) else r)) (c_requests c),
                  c_out_buf := c_out_buf c @
                    end_records (map (\<lambda>(i, r). (req_id r, OVERLOADED)) (filter (\<lambda>(i, r). overdue r) (c_requests c)))\<rparr>
            in if should_close_connection c' then None else Some c'))"
    using overdue_requests_failed [OF h] by blast
  define r' where "r' = set_flag RESPONDED (set_flag FAILED ?r)"
  have r': "has RESPONDED r'" "has FAILED r'" by (simp_all add: r'_def flag_defs)
  define out where "out = append_end_request [] 7 0 OVERLOADED"
  have e: "end_records [(7, OVERLOADED)] = out" by (simp add: end_records_def out_def)
  define c1 where "c1 = new_connection\<lparr>c_fd := 5, c_requests := [(7, r')], c_out_buf := out\<rparr>"
  have stays: "\<not> should_close_connection c1" using out_ne r' by (simp add: c1_def should_close_connection_def new_connection_def out_def)
  have "map_of (conns s') 5 = Some c1"
    unfolding c [rule_format, of 5] using over stays
    by (simp add: Let_def r'_def [symmetric] e new_connection_def c1_def)
  moreover have "wire s' = []" using s'(2) by (simp add: demo_server_def initial_server_def)
  ultimately show ?thesis using s'(1) r' by (intro exI [of _ s'] conjI) (simp_all add: c1_def out_def)
qed

end
