(* ===== verification/Frames.thy ===== *)
theory Frames
  imports Framing
begin

text \<open>
  The WebSocket frames of websockets.cpp: \<open>build_ws_frame\<close> and the decoding at the top of the frame
  loop of \<open>serve\<close>. A frame the loop acts on is its FIN bit, its opcode and its unmasked payload.
  \<open>header_len + mask_len + payload_len\<close> is a \<open>size_t\<close> sum and wraps for a length close to \<open>2^64\<close>;
  the loop then goes on with a payload whose end lies before its start, and \<open>vector::assign\<close> throws
  \<open>std::length_error\<close>, which nothing catches. The reader is \<open>Malformed\<close> there: the process ends.
\<close>

datatype ws_frame = Ws_frame (fin: bool) (opcode: u8) (payload: bytes)

definition build_ws_frame :: "u8 \<Rightarrow> bytes \<Rightarrow> bytes" where
  "build_ws_frame op data =
     (let len = length data
      in [0x80 OR (op AND 0x0F)] @
         (if len < 126 then [of_nat len]
          else if len \<le> 0xFFFF then 126 # be16 (of_nat len)
          else 127 # be64 (of_nat len)) @ data)"

text \<open>The loop over the eight bytes of a long length.\<close>

definition rd64 :: "bytes \<Rightarrow> u64" where
  "rd64 bs = foldl (\<lambda>v b. push_bit 8 v OR ucast b) 0 bs"

text \<open>The payload length and the length of the header, when the buffer has them.\<close>

definition frame_lengths :: "bytes \<Rightarrow> (u64 \<times> nat) option" where
  "frame_lengths buf =
     (let len7 = buf ! 1 AND 0x7F
      in if len7 = 126 then
           (if length buf < 4 then None
            else Some (push_bit 8 (ucast (buf ! 2)) OR ucast (buf ! 3), 4))
         else if len7 = 127 then
           (if length buf < 10 then None else Some (rd64 (take 8 (drop 2 buf)), 10))
         else Some (ucast len7, 2))"

definition unmask :: "bytes \<Rightarrow> bytes \<Rightarrow> bytes" where
  "unmask key data = map (\<lambda>k. data ! k XOR key ! (k mod 4)) [0..<length data]"

definition next_ws_frame :: "bytes \<Rightarrow> (u8, ws_frame) framed" where
  "next_ws_frame buf =
     (if length buf < 2 then Need_more
      else
        (let masked = (buf ! 1 AND 0x80 \<noteq> 0)
         in case frame_lengths buf of
              None \<Rightarrow> Need_more
            | Some (payload_len, header_len) \<Rightarrow>
                (let mask_len = (if masked then 4 else 0);
                     whole = of_nat header_len + of_nat mask_len + payload_len
                 in if length buf < unat whole then Need_more
                    else if 2 ^ 64 \<le> header_len + mask_len + unat payload_len then Malformed
                    else
                      (let data = take (unat payload_len) (drop (header_len + mask_len) buf)
                       in Frame
                            (Ws_frame (buf ! 0 AND 0x80 \<noteq> 0) (buf ! 0 AND 0x0F)
                              (if masked then unmask (take 4 (drop header_len buf)) data else data))
                            (drop (unat whole) buf)))))"

section \<open>The reader is a framer\<close>

lemma frame_lengths_append:
  "2 \<le> length buf \<Longrightarrow> frame_lengths buf = Some x \<Longrightarrow> frame_lengths (buf @ u) = Some x"
  by (auto simp: frame_lengths_def Let_def nth_append split: if_splits)

lemma frame_lengths_header:
  "frame_lengths buf = Some (n, h) \<Longrightarrow> 2 \<le> length buf \<Longrightarrow> 2 \<le> h \<and> h \<le> 10 \<and> h \<le> length buf"
  by (auto simp: frame_lengths_def Let_def split: if_splits)

lemma unat_whole:
  assumes "h \<le> 10" "m \<le> 4" "h + m + unat (n :: u64) < 2 ^ 64"
  shows "unat (of_nat h + of_nat m + n) = h + m + unat n"
proof -
  have "unat (of_nat h :: u64) = h" "unat (of_nat m :: u64) = m" using assms by (simp_all add: unat_of_nat)
  then show ?thesis using assms by (simp add: unat_word_ariths)
qed

text \<open>What a frame is, once its lengths are known.\<close>

lemma next_ws_frame_eq:
  assumes "2 \<le> length buf" "frame_lengths buf = Some (n, h)"
  defines "m \<equiv> (if buf ! 1 AND 0x80 \<noteq> 0 then 4 else 0 :: nat)"
  shows "next_ws_frame buf =
    (if length buf < unat (of_nat h + of_nat m + n) then Need_more
     else if 2 ^ 64 \<le> h + m + unat n then Malformed
     else Frame (Ws_frame (buf ! 0 AND 0x80 \<noteq> 0) (buf ! 0 AND 0x0F)
          (if m = 4 then unmask (take 4 (drop h buf)) (take (unat n) (drop (h + m) buf)) else take (unat n) (drop h buf)))
        (drop (h + m + unat n) buf))"
  using assms unat_whole [of h m n] frame_lengths_header [OF assms(2,1)]
  by (simp add: next_ws_frame_def Let_def)

lemma next_ws_frame_known:
  assumes "next_ws_frame buf \<noteq> Need_more"
  obtains n h where "2 \<le> length buf" "frame_lengths buf = Some (n, h)"
  using assms by (cases "frame_lengths buf") (auto simp: next_ws_frame_def Let_def split: if_splits)

lemma next_ws_frame_append:
  assumes "next_ws_frame buf \<noteq> Need_more"
  shows "next_ws_frame (buf @ u) =
    (case next_ws_frame buf of Frame f rest \<Rightarrow> Frame f (rest @ u) | _ \<Rightarrow> Malformed)"
proof -
  from assms obtain n h where l: "2 \<le> length buf" and nh: "frame_lengths buf = Some (n, h)"
    by (rule next_ws_frame_known)
  define m where "m = (if buf ! 1 AND 0x80 \<noteq> 0 then 4 else 0 :: nat)"
  note H = frame_lengths_header [OF nh l]
  have b: "(buf @ u) ! 0 = buf ! 0" "(buf @ u) ! 1 = buf ! 1" using l by (auto simp: nth_append)
  note e = next_ws_frame_eq [OF l nh, folded m_def]
  have l': "2 \<le> length (buf @ u)" using l by simp
  note e' = next_ws_frame_eq [OF l' frame_lengths_append [OF l nh, of u], unfolded b, folded m_def]
  have enough: "unat (of_nat h + of_nat m + n) \<le> length buf" using assms e by (auto split: if_splits)
  show ?thesis
  proof (cases "2 ^ 64 \<le> h + m + unat n")
    case True
    then show ?thesis using e e' enough by simp
  next
    case False
    then have "h + m + unat n \<le> length buf"
      using unat_whole [of h m n] H enough by (simp add: m_def split: if_splits)
    then show ?thesis using e e' enough False by (auto simp: m_def)
  qed
qed

lemma next_ws_frame_drop:
  assumes "next_ws_frame buf = Frame f rest"
  shows "\<exists>k. 2 \<le> k \<and> k \<le> length buf \<and> rest = drop k buf"
proof -
  from assms obtain n h where l: "2 \<le> length buf" and nh: "frame_lengths buf = Some (n, h)"
    by (metis framed.distinct(3) next_ws_frame_known)
  define m where "m = (if buf ! 1 AND 0x80 \<noteq> 0 then 4 else 0 :: nat)"
  note H = frame_lengths_header [OF nh l]
  have "h + m + unat n < 2 ^ 64" "unat (of_nat h + of_nat m + n) \<le> length buf" "rest = drop (h + m + unat n) buf"
    using assms next_ws_frame_eq [OF l nh, folded m_def] by (auto split: if_splits)
  moreover from this have "h + m + unat n \<le> length buf" using unat_whole [of h m n] H by (simp add: m_def split: if_splits)
  ultimately show ?thesis using H by (intro exI [of _ "h + m + unat n"]) simp
qed

interpretation ws: byte_framer next_ws_frame
proof
  fix buf rest :: bytes and f assume "next_ws_frame buf = Frame f rest"
  from next_ws_frame_drop [OF this] obtain k where "2 \<le> k" "k \<le> length buf" "rest = drop k buf" by blast
  then have "take k buf \<noteq> []" "buf = take k buf @ rest" by auto
  then show "\<exists>used. used \<noteq> [] \<and> buf = used @ rest" by blast
next
  fix buf rest u :: bytes and f assume "next_ws_frame buf = Frame f rest"
  then show "next_ws_frame (buf @ u) = Frame f (rest @ u)" using next_ws_frame_append [of buf u] by simp
next
  fix buf u :: bytes assume "next_ws_frame buf = Malformed"
  then show "next_ws_frame (buf @ u) = Malformed" using next_ws_frame_append [of buf u] by simp
next
  show "next_ws_frame [] = Need_more" by (simp add: next_ws_frame_def)
qed

section \<open>Encoding\<close>

lemma rd64_step: "push_bit 8 (drop_bit (8 * Suc k) w) OR ucast (ucast (drop_bit (8 * k) w) :: u8) = drop_bit (8 * k) (w :: u64)"
proof (rule bit_word_eqI)
  fix i assume "i < LENGTH(64)"
  then show "bit (push_bit 8 (drop_bit (8 * Suc k) w) OR ucast (ucast (drop_bit (8 * k) w) :: u8)) i = bit (drop_bit (8 * k) w) i"
    by (cases "i < 8") (auto simp: bit_simps)
qed

lemma rd64_be64: "rd64 (be64 w) = w"
proof -
  have z: "(0 :: u64) = drop_bit (8 * 8) w" by (auto intro!: bit_word_eqI simp: bit_simps)
  have "rd64 (be64 w) = foldl (\<lambda>v k. push_bit 8 v OR ucast (ucast (drop_bit (8 * k) w) :: u8)) (drop_bit (8 * 8) w) [7, 6, 5, 4, 3, 2, 1, 0]"
    unfolding z [symmetric] by (simp add: rd64_def be64_def)
  also have "\<dots> = drop_bit (8 * 0) w"
    using rd64_step [of 7 w] rd64_step [of 6 w] rd64_step [of 5 w] rd64_step [of 4 w] rd64_step [of 3 w] rd64_step [of 2 w]
      rd64_step [of 1 w] rd64_step [of 0 w] by (simp add: numeral_eq_Suc del: drop_bit_Suc push_bit_Suc)
  finally show ?thesis by simp
qed

text \<open>
  A frame as RFC 6455 has a client send it, masked with a key of four bytes; \<open>build_ws_frame\<close> is the
  server's, unmasked and complete.
\<close>

definition length_field :: "u8 \<Rightarrow> nat \<Rightarrow> bytes" where
  "length_field mask_bit len =
     (if len < 126 then [mask_bit OR of_nat len]
      else if len \<le> 0xFFFF then (mask_bit OR 126) # be16 (of_nat len)
      else (mask_bit OR 127) # be64 (of_nat len))"

definition client_frame :: "bytes \<Rightarrow> ws_frame \<Rightarrow> bytes" where
  "client_frame key f =
     [(if fin f then 0x80 else 0) OR opcode f] @ length_field 0x80 (length (payload f)) @ key @
     unmask key (payload f)"

definition ws_frame_fits :: "ws_frame \<Rightarrow> bool" where
  "ws_frame_fits f \<longleftrightarrow> opcode f AND 0x0F = opcode f \<and> length (payload f) < 2 ^ 63"

lemma build_ws_frame_eq: "build_ws_frame op data = [0x80 OR (op AND 0x0F)] @ length_field 0 (length data) @ data"
  by (simp add: build_ws_frame_def length_field_def Let_def)

lemma length_unmask [simp]: "length (unmask key data) = length data"
  by (simp add: unmask_def)

lemma unmask_twice: "length key = 4 \<Longrightarrow> unmask key (unmask key data) = data"
  by (rule nth_equalityI) (simp_all add: unmask_def xor.assoc)

lemma header_bits [simp]: "bit (0x80 :: int) n \<longleftrightarrow> n = 7" "bit (0x7F :: int) n \<longleftrightarrow> n < 7" "bit (0x0F :: int) n \<longleftrightarrow> n < 4"
proof -
  have e: "(0x80 :: int) = 2 ^ 7" "(0x7F :: int) = mask 7" "(0x0F :: int) = mask 4" by (simp_all add: mask_eq_exp_minus_1)
  show "bit (0x80 :: int) n \<longleftrightarrow> n = 7" unfolding e by (simp add: bit_exp_iff del: power_numeral)
  show "bit (0x7F :: int) n \<longleftrightarrow> n < 7" "bit (0x0F :: int) n \<longleftrightarrow> n < 4" unfolding e by (auto simp: bit_mask_iff)
qed

lemma small_byte: "n < 128 \<Longrightarrow> of_nat n AND (0x7F :: u8) = of_nat n" "n < 128 \<Longrightarrow> of_nat n AND (0x80 :: u8) = 0"
proof -
  assume "n < 128"
  then have t: "take_bit 7 n = n" by (simp add: take_bit_nat_eq_self)
  have b: "bit n k \<Longrightarrow> k < 7" for k using bit_take_bit_iff [of 7 n k] unfolding t by simp
  then have "\<not> bit n 7" by blast
  with b show "of_nat n AND (0x7F :: u8) = of_nat n" "of_nat n AND (0x80 :: u8) = 0"
    by (auto intro!: bit_eqI simp: bit_simps bit_of_nat_iff)
qed

lemma mask_bit_simps:
  fixes n :: u8
  assumes "mb = 0 \<or> mb = 0x80"
  shows "(mb OR n) AND 0x7F = n AND 0x7F" "(mb OR n) AND 0x80 = mb OR (n AND 0x80)"
  using assms by (auto intro!: bit_eqI simp: bit_simps)

lemma be16_value: "push_bit 8 (ucast (ucast (drop_bit 8 w) :: u8)) OR ucast (ucast w :: u8) = (ucast (w :: u16) :: u64)"
proof (rule bit_word_eqI)
  fix k assume "k < LENGTH(64)"
  have "bit w k \<Longrightarrow> k < 16" using bit_imp_le_length [of w k] by simp
  then show "bit (push_bit 8 (ucast (ucast (drop_bit 8 w) :: u8)) OR ucast (ucast w :: u8) :: u64) k = bit (ucast w :: u64) k"
    using \<open>k < LENGTH(64)\<close> by (cases "k < 8") (auto simp: bit_simps)
qed

lemma ucast_of_nat_small: "n < 256 \<Longrightarrow> ucast (of_nat n :: u8) = (of_nat n :: u64)"
  "n < 65536 \<Longrightarrow> ucast (of_nat n :: u16) = (of_nat n :: u64)"
  by (simp_all add: word_unat_eq_iff unsigned_ucast_eq unat_of_nat take_bit_nat_eq_self)

text \<open>The length field is read back, behind a byte that says whether there is a key.\<close>

lemma length_field_read:
  assumes mb: "mb = 0 \<or> mb = 0x80"
  shows "frame_lengths (b0 # length_field mb len @ rest) = Some (of_nat len, 1 + length (length_field mb len))"
    and "length_field mb len ! 0 AND 0x80 = mb" "length (length_field mb len) \<le> 9" "length_field mb len \<noteq> []"
proof -
  note low = mask_bit_simps [OF mb]
  show "length_field mb len ! 0 AND 0x80 = mb" "length (length_field mb len) \<le> 9" "length_field mb len \<noteq> []"
    using small_byte [of len] by (auto simp: length_field_def low)
  consider "len < 126" | "126 \<le> len" "len \<le> 0xFFFF" | "0xFFFF < len" by linarith
  then show "frame_lengths (b0 # length_field mb len @ rest) = Some (of_nat len, 1 + length (length_field mb len))"
  proof cases
    case 1
    then have "(of_nat len :: u8) \<noteq> 126" "(of_nat len :: u8) \<noteq> 127" by (simp_all add: word_unat_eq_iff unat_of_nat)
    then show ?thesis using 1 small_byte(1) [of len] ucast_of_nat_small(1) [of len]
      by (simp add: frame_lengths_def length_field_def low)
  next
    case 2
    have "(push_bit 8 (ucast (ucast (drop_bit 8 (of_nat len :: u16)) :: u8)) OR ucast (ucast (of_nat len :: u16) :: u8) :: u64) = of_nat len"
      using 2 by (simp only: be16_value ucast_of_nat_small)
    then show ?thesis using 2 by (simp add: frame_lengths_def length_field_def low be16_def)
  next
    case 3
    have "take 8 (be64 w @ rest) = be64 w" for w by simp
    then show ?thesis using 3 by (simp add: frame_lengths_def length_field_def low rd64_be64)
  qed
qed

text \<open>A complete frame: header, length, perhaps a key, payload.\<close>

lemma next_ws_frame_encoded:
  fixes n :: nat
  assumes mb: "mb = 0 \<and> key = [] \<or> mb = 0x80 \<and> length key = 4" and len: "length data < 2 ^ 63"
  shows "next_ws_frame (b0 # length_field mb (length data) @ key @ data @ rest) =
    Frame (Ws_frame (b0 AND 0x80 \<noteq> 0) (b0 AND 0x0F) (if mb = 0 then data else unmask key data)) rest"
proof -
  let ?lf = "length_field mb (length data)" and ?buf = "b0 # length_field mb (length data) @ key @ data @ rest"
  have mb': "mb = 0 \<or> mb = 0x80" using mb by blast
  note L = length_field_read [OF mb', where len = "length data"]
  have two: "2 \<le> length ?buf" using L(4) by (cases ?lf) auto
  have b1: "?buf ! 1 AND 0x80 = mb" using L(2,4) by (cases ?lf) auto
  define m where "m = (if ?buf ! 1 AND 0x80 \<noteq> 0 then 4 else 0 :: nat)"
  have m: "m = length key" using mb unfolding m_def b1 by auto
  have u: "unat (of_nat (length data) :: u64) = length data" using len by (simp add: unat_of_nat)
  have w: "1 + length ?lf + m + length data < 2 ^ 64" using L(3) len m mb by auto
  have "unat (of_nat (1 + length ?lf) + of_nat m + of_nat (length data) :: u64) = 1 + length ?lf + m + length data"
    using unat_whole [of "1 + length ?lf" m "of_nat (length data)"] L(3) w m mb u by auto
  moreover have "drop (1 + length ?lf) ?buf = key @ data @ rest" "drop (1 + length ?lf + m + length data) ?buf = rest"
    "drop (1 + length ?lf + m) ?buf = data @ rest" using m by simp_all
  moreover note next_ws_frame_eq [OF two L(1), folded m_def]
  ultimately show ?thesis using w m mb u by (auto simp del: drop_Suc_Cons)
qed

interpretation ws_codec: framed_codec next_ws_frame "client_frame key" "\<lambda>f. length key = 4 \<and> ws_frame_fits f" for key
proof
  fix f and rest :: bytes assume f: "length key = 4 \<and> ws_frame_fits f"
  let ?b0 = "(if fin f then 0x80 else 0) OR opcode f"
  have o: "opcode f AND 0x0F = opcode f" using f by (simp add: ws_frame_fits_def)
  have b: "?b0 AND 0x80 = (if fin f then 0x80 else 0)" "?b0 AND 0x0F = opcode f"
  proof -
    have "bit (opcode f AND 0x0F) k \<Longrightarrow> k < 4" for k by (simp add: bit_simps)
    then have "bit (opcode f) k \<Longrightarrow> k < 4" for k unfolding o .
    moreover from this [of 7] have "\<not> bit (opcode f) 7" by auto
    ultimately show "?b0 AND 0x80 = (if fin f then 0x80 else 0)" "?b0 AND 0x0F = opcode f"
      by (auto intro!: bit_eqI simp: bit_simps)
  qed
  have c: "Ws_frame ((if fin f then 0x80 else 0 :: u8) \<noteq> 0) (opcode f) (payload f) = f" by (cases f) simp
  have "client_frame key f @ rest = ?b0 # length_field 0x80 (length (unmask key (payload f))) @ key @ unmask key (payload f) @ rest"
    by (simp add: client_frame_def)
  then show "next_ws_frame (client_frame key f @ rest) = Frame f rest"
    using next_ws_frame_encoded [of "0x80" key "unmask key (payload f)" ?b0 rest] f
    by (simp add: ws_frame_fits_def b unmask_twice c)
qed

section \<open>Properties\<close>

text \<open>C24: frames survive the wire. What \<open>build_ws_frame\<close> sends is one complete frame with its opcode and
  payload, and a frame masked by a client with any key is read back unmasked, whatever follows it
  and whichever of the three length encodings its payload needs.\<close>

theorem frame_roundtrip:
  assumes "length data < 2 ^ 63" "length key = 4" "ws_frame_fits f"
  shows "next_ws_frame (build_ws_frame op data @ rest) = Frame (Ws_frame True (op AND 0x0F) data) rest \<and>
    next_ws_frame (client_frame key f @ rest) = Frame f rest"
proof
  have "(0x80 OR (op AND 0x0F)) AND 0x80 = (0x80 :: u8)" "(0x80 OR (op AND 0x0F)) AND 0x0F = op AND 0x0F"
    by (auto intro!: bit_eqI simp: bit_simps)
  then show "next_ws_frame (build_ws_frame op data @ rest) = Frame (Ws_frame True (op AND 0x0F) data) rest"
    using next_ws_frame_encoded [of 0 "[]" data "0x80 OR (op AND 0x0F)" rest] assms(1) by (simp add: build_ws_frame_eq)
  show "next_ws_frame (client_frame key f @ rest) = Frame f rest"
    using assms(2,3) by (intro ws_codec.next_encode) simp
qed

theorem frame_roundtrip_witness:
  "next_ws_frame (build_ws_frame 1 [104, 105] @ [7]) = Frame (Ws_frame True (1 AND 0x0F) [104, 105]) [7] \<and>
   next_ws_frame (client_frame [1, 2, 3, 4] (Ws_frame False 2 [9]) @ [7]) = Frame (Ws_frame False 2 [9]) [7]"
  by (rule frame_roundtrip) (simp_all add: ws_frame_fits_def)

text \<open>The sum of the lengths is not checked for wrap-around: fourteen bytes from any client, a masked
  frame whose length field is \<open>2^64 - 1\<close>, pass the test for a complete frame and end the process.\<close>

theorem huge_length_accepted:
  "next_ws_frame ([b0, 0xFF] @ replicate 8 0xFF @ [k0, k1, k2, k3] @ rest) = Malformed"
proof -
  have r: "replicate 8 x = [x, x, x, x, x, x, x, x]" for x :: u8 by (simp add: numeral_eq_Suc)
  let ?buf = "[b0, 0xFF] @ replicate 8 0xFF @ [k0, k1, k2, k3] @ rest"
  have "frame_lengths ?buf = Some (rd64 (replicate 8 0xFF), 10)"
    by (simp add: frame_lengths_def r)
  moreover have "rd64 (replicate 8 0xFF) = - 1"
    by (simp add: rd64_def r)
  moreover have "unat (- 1 :: u64) = 2 ^ 64 - 1" by (simp add: unsigned_minus_1_eq_mask mask_eq_exp_minus_1)
  ultimately show ?thesis using next_ws_frame_eq [of ?buf "- 1" 10] by simp
qed

end
