(* ===== verification/Websockets.thy ===== *)
theory Websockets
  imports Server Placement Frames
begin

text \<open>
  websockets.cpp: the server on the WebSocket port, which also answers plain HTTP. One thread owns
  the clients; it reads, does the handshake, takes frames apart and queues one task per message or
  HTTP request; the worker threads run the tasks and leave encoded responses in \<open>g_pending_frames\<close>,
  which the thread moves to the clients' output buffers when the eventfd fires. The functions here
  are the work of one event; the system calls' results (bytes received, bytes the kernel took) are
  arguments. The events a client is registered for with epoll are \<open>EPOLLIN\<close> and, when \<open>ws_want_out\<close>
  holds, \<open>EPOLLOUT\<close>. The listening sockets are in theory Listening; the fields of \<open>Client\<close> that nothing
  reads (\<open>http_method\<close>, \<open>http_path\<close>, \<open>http_query\<close>, \<open>http_headers\<close>) are left out.
\<close>

record ws_client =
  ws_fd :: int
  handshake_done :: bool
  in_http :: string
  http_mode :: bool
  http_headers_parsed :: bool
  http_content_length :: size_t
  close_after_write :: bool
  ws_in_buf :: bytes
  ws_out_buf :: bytes
  ws_closed :: bool
  ws_want_out :: bool
  assembling :: bool
  assemble_opcode :: u8
  assemble_data :: bytes

definition new_client :: "int \<Rightarrow> ws_client" where
  "new_client fd =
     \<lparr>ws_fd = fd, handshake_done = False, in_http = [], http_mode = False, http_headers_parsed = False,
      http_content_length = 0, close_after_write = False, ws_in_buf = [], ws_out_buf = [], ws_closed = False,
      ws_want_out = False, assembling = False, assemble_opcode = 0, assemble_data = []\<rparr>"

text \<open>What a queued lambda has captured.\<close>

datatype ws_task =
    Message_task (task_fd: int) (task_opcode: u8) (task_request: request)
  | Http_task (task_fd: int) (task_request: request)

record 'w ws_world =
  ws_pool :: request_pool
  ws_tasks :: "ws_task list"
  pending_frames :: "(int \<times> bytes) list"
  ws_files :: 'w

text \<open>
  What the thread was given: the configuration, whether there is an HTTP callback, OpenSSL's \<open>SHA1\<close>,
  and how uploads are saved.
\<close>

record 'w ws_env =
  ws_config :: global_config
  has_cbhttp :: bool
  sha1 :: "bytes \<Rightarrow> bytes"
  ws_saver :: "'w saver"

section \<open>Sending\<close>

fun send_all :: "sent list \<Rightarrow> bytes \<Rightarrow> bytes" where
  "send_all rs [] = []"
| "send_all [] buf = buf"
| "send_all (Sent n # rs) buf = (if 0 < n then send_all rs (drop n buf) else [])"
| "send_all (Would_block # rs) buf = buf"
| "send_all (Send_failed # rs) buf = []"

section \<open>Messages\<close>

definition str_var :: "string \<Rightarrow> string \<Rightarrow> dv \<Rightarrow> dv" where
  "str_var k s v = dv_put k (make_string s) v"

definition message_request :: "int \<Rightarrow> u8 \<Rightarrow> bytes \<Rightarrow> request \<Rightarrow> request" where
  "message_request fd op data r =
     set_flag INPUT_COMPLETE (set_flag PARAMS_COMPLETE (set_flag INITIALIZED
       (r\<lparr>req_id := 0, body := string_of data, body_bytes := length data,
          env := str_var ''CLIENT_FD'' (show_int fd) (str_var ''OPCODE'' (show_nat (unat op))
            (str_var ''MESSAGE_TYPE'' (if op = 2 then ''binary'' else ''text'') (str_var ''WS'' ''1'' (env r))))\<rparr>)))"

definition schedule_message :: "nat \<Rightarrow> int \<Rightarrow> u8 \<Rightarrow> bytes \<Rightarrow> 'w ws_world \<Rightarrow> 'w ws_world" where
  "schedule_message now fd op data w =
     (case place_request now (ws_pool w) of
        (None, p) \<Rightarrow> w\<lparr>ws_pool := p\<rparr>
      | (Some r, p) \<Rightarrow>
          w\<lparr>ws_pool := p, ws_tasks := ws_tasks w @ [Message_task fd op (message_request fd op data r)]\<rparr>)"

section \<open>Handshake\<close>

definition is_blank :: "char \<Rightarrow> bool" where
  "is_blank c \<longleftrightarrow> c = CHR '' '' \<or> c = CHR 0x09"

text \<open>The value of the key header: blanks cut off on both sides; \<open>None\<close> without the header.\<close>

definition websocket_key :: "string \<Rightarrow> string option" where
  "websocket_key http =
     (case str_find http ''Sec-WebSocket-Key:'' 0 of
        None \<Rightarrow> None
      | Some p \<Rightarrow>
          (let pos = p + 18 + length (takeWhile is_blank (drop (p + 18) http))
           in case str_find_char http (CHR 0x0D) pos of
                None \<Rightarrow> None
              | Some e \<Rightarrow> Some (rev (dropWhile is_blank (rev (substr http pos (e - pos)))))))"

definition parse_http_headers :: "(bytes \<Rightarrow> bytes) \<Rightarrow> string \<Rightarrow> (string \<times> string) option" where
  "parse_http_headers sha http =
     (case websocket_key http of
        None \<Rightarrow> None
      | Some key \<Rightarrow>
          Some (key, base64_encode (sha (bytes_of (key @ ''258EAFA5-E914-47DA-95CA-C5AB0DC85B11'')))))"

definition handshake_response :: "string \<Rightarrow> string" where
  "handshake_response accept_key =
     ''HTTP/1.1 101 Switching Protocols'' @ crlf @ ''Upgrade: websocket'' @ crlf @
     ''Connection: Upgrade'' @ crlf @ ''Sec-WebSocket-Accept: '' @ accept_key @ crlf @ crlf"

section \<open>Plain HTTP\<close>

text \<open>The variables of the request line.\<close>

definition request_line_vars :: "global_config \<Rightarrow> string \<Rightarrow> dv \<Rightarrow> dv" where
  "request_line_vars g first_line ev =
     (case str_find_char first_line (CHR '' '') 0 of
        None \<Rightarrow> ev
      | Some msp \<Rightarrow>
          (let meth = substr first_line 0 msp;
               target = (case str_find_char first_line (CHR '' '') (msp + 1) of
                   None \<Rightarrow> []
                 | Some psp \<Rightarrow> substr first_line (msp + 1) (psp - (msp + 1)));
               q = str_find_char target (CHR ''?'') 0;
               path = (case q of None \<Rightarrow> target | Some i \<Rightarrow> substr target 0 i);
               query = (case q of None \<Rightarrow> [] | Some i \<Rightarrow> substr_from target (i + 1));
               pre = ws_path_prefix g;
               (starget, spath) =
                 (if pre \<noteq> [] \<and> substr target 0 (length pre) = pre then
                    (let t0 = substr_from target (length pre);
                         t = (if t0 = [] then ''/'' else t0)
                     in (t, case str_find_char t (CHR ''?'') 0 of None \<Rightarrow> t | Some i \<Rightarrow> substr t 0 i))
                  else (target, path))
           in str_var ''QUERY_STRING'' query (str_var ''PATH_INFO'' spath
                (str_var ''REQUEST_URI'' starget (str_var ''REQUEST_METHOD'' meth ev)))))"

definition header_var_name :: "string \<Rightarrow> string" where
  "header_var_name name = ''HTTP_'' @ map (\<lambda>c. if c = CHR ''-'' then CHR ''_'' else c) (map toupper name)"

function header_loop :: "string \<Rightarrow> nat \<Rightarrow> dv \<times> string umap \<Rightarrow> dv \<times> string umap" where
  "header_loop txt pos (ev, hs) =
     (if pos < length txt then
        (case str_find txt crlf pos of
           None \<Rightarrow> (ev, hs)
         | Some nxt \<Rightarrow>
             if nxt = pos then (ev, hs)
             else
               (let line = substr txt pos (nxt - pos)
                in case str_find_char line (CHR '':'') 0 of
                     None \<Rightarrow> header_loop txt (nxt + 2) (ev, hs)
                   | Some colon \<Rightarrow>
                       (let name = substr line 0 colon;
                            val = trim_spaces (substr_from line (colon + 1))
                        in header_loop txt (nxt + 2)
                             (str_var (header_var_name name) val ev, AList.update name val hs))))
      else (ev, hs))"
  by pat_completeness auto
termination
  by (relation "measure (\<lambda>(txt, pos, x). length txt - pos)") (auto dest!: str_find_bounds)

declare header_loop.simps [simp del]

definition copy_header :: "string umap \<Rightarrow> string \<Rightarrow> string \<Rightarrow> dv \<Rightarrow> dv" where
  "copy_header hs name var ev = (case map_of hs name of None \<Rightarrow> ev | Some v \<Rightarrow> str_var var v ev)"

text \<open>The request \<open>schedule_http\<close> builds in the arena.\<close>

definition http_request ::
  "'w ws_env \<Rightarrow> int \<Rightarrow> string \<Rightarrow> string \<Rightarrow> request \<times> 'w \<Rightarrow> request \<times> 'w" where
  "http_request e fd txt bdy = (\<lambda>(r, w).
     let r0 = set_flag INITIALIZED r;
         line_end = str_find txt crlf 0;
         first_line = (case line_end of None \<Rightarrow> txt | Some i \<Rightarrow> substr txt 0 i);
         ev1 = request_line_vars (ws_config e) first_line (env r0);
         ev2 = str_var ''SERVER_PROTOCOL'' ''HTTP/1.1'' ev1;
         pos = (case line_end of None \<Rightarrow> length txt | Some i \<Rightarrow> i + 2);
         (ev3, hs) = header_loop txt pos (ev2, []);
         ev4 = copy_header hs ''Content-Length'' ''CONTENT_LENGTH'' (copy_header hs ''Content-Type'' ''CONTENT_TYPE'' ev3);
         r1 = set_flag INPUT_COMPLETE (set_flag PARAMS_COMPLETE
                (r0\<lparr>env := ev4, body := bdy, body_bytes := length bdy\<rparr>));
         r2 = parse_query_params (dv_find ''QUERY_STRING'' (env r1)) r1;
         r3 = parse_cookie_header (dv_find ''HTTP_COOKIE'' (env r2)) r2;
         (r4, w') = parse_form_data (ws_saver e) (upload_tmp_dir (ws_config e)) (r3, w)
     in (r4\<lparr>env := str_var ''CLIENT_FD'' (show_int fd) (str_var ''WS'' ''0'' (env r4))\<rparr>, w'))"

definition schedule_http :: "'w ws_env \<Rightarrow> nat \<Rightarrow> int \<Rightarrow> string \<Rightarrow> string \<Rightarrow> 'w ws_world \<Rightarrow> 'w ws_world" where
  "schedule_http e now fd txt bdy w =
     (if \<not> has_cbhttp e then w
      else case place_request now (ws_pool w) of
             (None, p) \<Rightarrow> w\<lparr>ws_pool := p\<rparr>
           | (Some r0, p) \<Rightarrow>
               (case http_request e fd txt bdy (r0, ws_files w) of
                  (r, f) \<Rightarrow> w\<lparr>ws_pool := p, ws_files := f, ws_tasks := ws_tasks w @ [Http_task fd r]\<rparr>))"

text \<open>\<open>std::strtoull\<close>: nothing converted is zero, overflow is \<open>ULLONG_MAX\<close>.\<close>

definition strtoull :: "string \<Rightarrow> u64" where
  "strtoull s =
     (case scan_int s of
        None \<Rightarrow> 0
      | Some (neg, n) \<Rightarrow> if 2 ^ 64 \<le> n then - 1 else if neg then - of_nat n else of_nat n)"

text \<open>The loop that looks for the content length; \<open>old\<close> stays when there is none.\<close>

function content_length_loop :: "string \<Rightarrow> nat \<Rightarrow> size_t \<Rightarrow> size_t" where
  "content_length_loop hdr hpos old =
     (case str_find hdr crlf hpos of
        None \<Rightarrow> old
      | Some lend \<Rightarrow>
          if lend = hpos then old
          else
            (let line = substr hdr hpos (lend - hpos)
             in case str_find_char line (CHR '':'') 0 of
                  None \<Rightarrow> content_length_loop hdr (lend + 2) old
                | Some colon \<Rightarrow>
                    if lower (substr line 0 colon) = ''content-length''
                    then strtoull (trim_spaces (substr_from line (colon + 1)))
                    else content_length_loop hdr (lend + 2) old))"
  by pat_completeness auto
termination
  by (relation "measure (\<lambda>(hdr, hpos, old). length hdr - hpos)") (auto dest!: str_find_bounds)

declare content_length_loop.simps [simp del]

text \<open>
  \<open>schedule_http\<close> binds references to the buffers it is given, so \<open>std::move(c.in_http)\<close> moves
  nothing and the text of the request stays in the client.
\<close>

definition take_http_body :: "'w ws_env \<Rightarrow> nat \<Rightarrow> ws_client \<times> 'w ws_world \<Rightarrow> ws_client \<times> 'w ws_world" where
  "take_http_body e now = (\<lambda>(c, w).
     let need = unat (http_content_length c)
     in if need \<le> length (ws_in_buf c) then
          (c\<lparr>ws_in_buf := []\<rparr>,
           schedule_http e now (ws_fd c) (in_http c) (string_of (take need (ws_in_buf c))) w)
        else (c, w))"

definition http_phase :: "'w ws_env \<Rightarrow> nat \<Rightarrow> ws_client \<times> 'w ws_world \<Rightarrow> ws_client \<times> 'w ws_world" where
  "http_phase e now = (\<lambda>(c0, w).
     let c = c0\<lparr>in_http := in_http c0 @ string_of (ws_in_buf c0), ws_in_buf := []\<rparr>
     in case str_find (in_http c) (crlf @ crlf) 0 of
          Some hdr_end \<Rightarrow>
            (case parse_http_headers (sha1 e) (substr (in_http c) 0 (hdr_end + 4)) of
               Some (_, accept_key) \<Rightarrow>
                 (c\<lparr>ws_out_buf := ws_out_buf c @ bytes_of (handshake_response accept_key), handshake_done := True\<rparr>, w)
             | None \<Rightarrow>
                 take_http_body e now
                   (c\<lparr>http_mode := True,
                      http_content_length :=
                        content_length_loop (substr (in_http c) 0 (hdr_end + 4)) 0 (http_content_length c),
                      http_headers_parsed := True,
                      ws_in_buf := ws_in_buf c @ bytes_of (substr_from (in_http c) (hdr_end + 4))\<rparr>, w))
        | None \<Rightarrow> if http_mode c \<and> http_headers_parsed c then take_http_body e now (c, w) else (c, w))"

section \<open>Frames\<close>

text \<open>The branches of the frame loop; it never stops on a frame, not even behind a close frame.\<close>

definition ws_step :: "nat \<Rightarrow> ws_frame \<Rightarrow> ws_client \<times> 'w ws_world \<Rightarrow> (ws_client \<times> 'w ws_world) + (ws_client \<times> 'w ws_world)" where
  "ws_step now f = (\<lambda>(c, w).
     let op = opcode f; data = payload f
     in Inr
       (if op = 8 then (c\<lparr>ws_closed := True\<rparr>, w)
        else if op = 9 then (c\<lparr>ws_out_buf := ws_out_buf c @ build_ws_frame 0xA data\<rparr>, w)
        else if op = 0xA then (c, w)
        else if op = 1 \<or> op = 2 then
          (let c1 = (if assembling c then c\<lparr>assemble_data := [], assembling := False\<rparr> else c)
           in if fin f then (c1, schedule_message now (ws_fd c1) op data w)
              else (c1\<lparr>assembling := True, assemble_opcode := op, assemble_data := data\<rparr>, w))
        else if op = 0 then
          (if \<not> assembling c then (c\<lparr>ws_closed := True\<rparr>, w)
           else
             (let whole = assemble_data c @ data
              in if fin f then
                   (c\<lparr>assemble_data := [], assembling := False\<rparr>,
                    schedule_message now (ws_fd c) (assemble_opcode c) whole w)
                 else (c\<lparr>assemble_data := whole\<rparr>, w)))
        else (c, w)))"

function frame_loop ::
  "nat \<Rightarrow> bytes \<Rightarrow> ws_client \<times> 'w ws_world \<Rightarrow> loop_end \<times> bytes \<times> ws_client \<times> 'w ws_world" where
  "frame_loop now buf s =
     (case next_ws_frame buf of
        Need_more \<Rightarrow> (Starved, buf, s)
      | Malformed \<Rightarrow> (Broken, buf, s)
      | Frame f rest \<Rightarrow>
          (case ws_step now f s of
             Inl s' \<Rightarrow> (Stopped, buf, s')
           | Inr s' \<Rightarrow> frame_loop now rest s'))"
  by pat_completeness auto
termination
  by (relation "measure (\<lambda>(now, buf, s). length buf)") (auto dest: ws.frame_shrinks)

declare frame_loop.simps [simp del]

interpretation ws_loop: stream_loop next_ws_frame "ws_step now" "frame_loop now" for now
  by unfold_locales (simp_all add: frame_loop.simps)

section \<open>Events\<close>

text \<open>
  The client is readable: \<open>received\<close> is all that the receive loop got and \<open>eof\<close> whether it ended with
  the end of the stream or an error. \<open>None\<close>: the process ends, see theory Frames.
\<close>

definition client_readable ::
  "'w ws_env \<Rightarrow> nat \<Rightarrow> bytes \<Rightarrow> bool \<Rightarrow> ws_client \<times> 'w ws_world \<Rightarrow> (ws_client \<times> 'w ws_world) option" where
  "client_readable e now received eof = (\<lambda>(c0, w0).
     let c1 = c0\<lparr>ws_in_buf := ws_in_buf c0 @ received, ws_closed := ws_closed c0 \<or> eof\<rparr>;
         (c2, w2) = (if \<not> handshake_done c1 then http_phase e now (c1, w0) else (c1, w0))
     in if handshake_done c2 then
          (case frame_loop now (ws_in_buf c2) (c2, w2) of
             (Broken, _, _) \<Rightarrow> None
           | (_, rest, (c3, w3)) \<Rightarrow> Some (c3\<lparr>ws_in_buf := rest\<rparr>, w3))
        else Some (c2, w2))"

record ws_event =
  ev_hangup :: bool
  ev_input :: "(bytes \<times> bool) option"
  ev_output :: "sent list option"
  ev_flush :: "sent list"

text \<open>
  What an event of a client ends with: sending, the events asked for next, and closing. The client is
  \<open>None\<close> when it has been closed and erased.
\<close>

definition client_output :: "ws_event \<Rightarrow> ws_client \<Rightarrow> ws_client option" where
  "client_output ev c =
     (let c1 = (case ev_output ev of None \<Rightarrow> c | Some rs \<Rightarrow> c\<lparr>ws_out_buf := send_all rs (ws_out_buf c)\<rparr>);
          c2 = c1\<lparr>ws_out_buf := send_all (ev_flush ev) (ws_out_buf c1)\<rparr>;
          c3 = (if ws_out_buf c2 = [] then c2\<lparr>ws_want_out := False\<rparr> else c2\<lparr>ws_want_out := True\<rparr>)
      in if ws_closed c3 \<or> (close_after_write c3 \<and> ws_out_buf c3 = []) then None else Some c3)"

definition client_event ::
  "'w ws_env \<Rightarrow> nat \<Rightarrow> ws_event \<Rightarrow> ws_client \<times> 'w ws_world \<Rightarrow> (ws_client option \<times> 'w ws_world) option" where
  "client_event e now ev = (\<lambda>(c0, w0).
     let c1 = (if ev_hangup ev then c0\<lparr>ws_closed := True\<rparr> else c0)
     in case (case ev_input ev of None \<Rightarrow> Some (c1, w0) | Some (bs, eof) \<Rightarrow> client_readable e now bs eof (c1, w0)) of
          None \<Rightarrow> None
        | Some (c2, w2) \<Rightarrow> Some (client_output ev c2, w2))"

text \<open>The eventfd: the pending frames go to the clients that are still there.\<close>

definition deliver_frame :: "int \<times> bytes \<Rightarrow> (int \<times> ws_client) list \<Rightarrow> (int \<times> ws_client) list" where
  "deliver_frame pf clients =
     (case map_of clients (fst pf) of
        None \<Rightarrow> clients
      | Some c \<Rightarrow> AList.update (fst pf) (c\<lparr>ws_out_buf := ws_out_buf c @ snd pf, ws_want_out := True\<rparr>) clients)"

definition deliver_pending ::
  "(int \<times> ws_client) list \<times> 'w ws_world \<Rightarrow> (int \<times> ws_client) list \<times> 'w ws_world" where
  "deliver_pending = (\<lambda>(clients, w). (fold deliver_frame (pending_frames w) clients, w\<lparr>pending_frames := []\<rparr>))"

section \<open>The worker's side\<close>

text \<open>The payload of the STDOUT records of a response, up to the first that is broken or cut off.\<close>

definition stdout_step :: "fcgi_record \<Rightarrow> string \<Rightarrow> string + string" where
  "stdout_step rc acc =
     Inr (if rec_type rc = FCGI_STDOUT \<and> 0 < length (rec_content rc) then acc @ string_of (rec_content rc) else acc)"

function decode_stdout :: "bytes \<Rightarrow> string \<Rightarrow> loop_end \<times> bytes \<times> string" where
  "decode_stdout buf acc =
     (case next_record buf of
        Need_more \<Rightarrow> (Starved, buf, acc)
      | Malformed \<Rightarrow> (Broken, buf, acc)
      | Frame rc rest \<Rightarrow>
          (case stdout_step rc acc of
             Inl a \<Rightarrow> (Stopped, buf, a)
           | Inr a \<Rightarrow> decode_stdout rest a))"
  by pat_completeness auto
termination
  by (relation "measure (\<lambda>(buf, acc). length buf)") (auto dest: next_record_shrinks)

declare decode_stdout.simps [simp del]

interpretation stdout: stream_loop next_record stdout_step decode_stdout
  by unfold_locales (simp_all add: decode_stdout.simps)

definition http_payload :: "request \<Rightarrow> bytes \<Rightarrow> bytes" where
  "http_payload r resp_fcgi =
     (let bdy = snd (snd (decode_stdout resp_fcgi []))
      in if starts_with bdy ''HTTP/'' then bytes_of bdy
         else
           (let ct = (case dv_find ''Content-Type'' (headers r) of
                Some (STRING s) \<Rightarrow> s
              | _ \<Rightarrow> ''text/plain; charset=utf-8'')
            in bytes_of (''HTTP/1.1 200 OK'' @ crlf @ ''Content-Type: '' @ ct @ crlf @ ''Content-Length: '' @
                 show_nat (length bdy) @ crlf @ ''Connection: close'' @ crlf @ crlf @ bdy)))"

text \<open>
  Running a task: \<open>cb\<close> is the callback, on the request, an empty output buffer and its own state
  (\<open>answer_request\<close> in \<open>main\<close>). The request is destroyed and its arena given back.
\<close>

definition run_task ::
  "(request \<times> bytes \<times> 's \<Rightarrow> request \<times> bytes \<times> 's) \<Rightarrow> ws_task \<Rightarrow> 's \<times> 'w ws_world \<Rightarrow> 's \<times> 'w ws_world" where
  "run_task cb t = (\<lambda>(s, w).
     case cb (task_request t, [], s) of
       (r, resp, s') \<Rightarrow>
         (let frame = (case t of
                Message_task fd op _ \<Rightarrow> if resp \<noteq> [] then build_ws_frame op resp else []
              | Http_task fd _ \<Rightarrow> http_payload r resp);
              pend = (case t of
                Message_task fd op _ \<Rightarrow> if frame \<noteq> [] then [(fd, frame)] else []
              | Http_task fd _ \<Rightarrow> [(fd, frame)])
          in (s', w\<lparr>pending_frames := pending_frames w @ pend, ws_pool := drop_request r (ws_pool w)\<rparr>)))"

section \<open>The frame loop on a client's frames\<close>

definition ws_act :: "nat \<Rightarrow> ws_frame \<Rightarrow> ws_client \<times> 'w ws_world \<Rightarrow> ws_client \<times> 'w ws_world" where
  "ws_act now f s = (case ws_step now f s of Inr s' \<Rightarrow> s' | Inl s' \<Rightarrow> s')"

lemma ws_step_act: "ws_step now f s = Inr (ws_act now f s)"
  by (cases s) (simp add: ws_act_def ws_step_def Let_def)

lemma frame_loop_frames:
  "\<forall>kf\<in>set kfs. length (fst kf) = 4 \<and> ws_frame_fits (snd kf) \<Longrightarrow>
     frame_loop now (concat (map (\<lambda>(k, f). client_frame k f) kfs)) s = (Starved, [], fold (ws_act now) (map snd kfs) s)"
proof (induction kfs arbitrary: s)
  case (Cons kf kfs)
  obtain k f where kf: "kf = (k, f)" by force
  have "next_ws_frame (client_frame k f @ concat (map (\<lambda>(k, f). client_frame k f) kfs)) =
      Frame f (concat (map (\<lambda>(k, f). client_frame k f) kfs))"
    using Cons.prems kf by (intro ws_codec.next_encode) simp
  then have "frame_loop now (client_frame k f @ concat (map (\<lambda>(k, f). client_frame k f) kfs)) s =
      frame_loop now (concat (map (\<lambda>(k, f). client_frame k f) kfs)) (ws_act now f s)"
    by (rule ws_loop.run_step) (rule ws_step_act)
  with Cons kf show ?case by simp
qed simp

lemma schedule_message_keeps [simp]:
  "pending_frames (schedule_message now fd op data w) = pending_frames w"
  "ws_files (schedule_message now fd op data w) = ws_files w"
  by (simp_all add: schedule_message_def split: option.split prod.split)

text \<open>What no frame changes, and what the loop does not look at.\<close>

lemma ws_act_keeps:
  assumes "ws_act now f (c, w) = (c', w')"
  shows "ws_fd c' = ws_fd c" "handshake_done c' = handshake_done c" "ws_in_buf c' = ws_in_buf c"
    "in_http c' = in_http c" "pending_frames w' = pending_frames w"
  using assms by (auto simp: ws_act_def ws_step_def Let_def split: if_splits)

lemma ws_act_in_buf:
  assumes "ws_act now f (c, w) = (c', w')"
  shows "ws_act now f (c\<lparr>ws_in_buf := x\<rparr>, w) = (c'\<lparr>ws_in_buf := x\<rparr>, w')"
proof -
  consider "opcode f = 8" | "opcode f = 9" | "opcode f = 0xA" | "opcode f = 1" | "opcode f = 2" | "opcode f = 0"
    | "opcode f \<noteq> 8" "opcode f \<noteq> 9" "opcode f \<noteq> 0xA" "opcode f \<noteq> 1" "opcode f \<noteq> 2" "opcode f \<noteq> 0" by blast
  then show ?thesis
    using assms by cases (cases "fin f"; cases "assembling c"; force simp: ws_act_def ws_step_def Let_def)+
qed

lemma frame_loop_in_buf:
  "frame_loop now buf s = (e, rest, s') \<Longrightarrow> s = (c, w) \<Longrightarrow> s' = (c', w') \<Longrightarrow>
     frame_loop now buf (c\<lparr>ws_in_buf := x\<rparr>, w) = (e, rest, (c'\<lparr>ws_in_buf := x\<rparr>, w')) \<and>
     handshake_done c' = handshake_done c \<and> ws_fd c' = ws_fd c"
proof (induction arbitrary: c w rule: ws_loop.run_induct)
  case (need bs s)
  then show ?case by (simp add: ws_loop.run_need)
next
  case (bad bs s)
  then show ?case by (simp add: ws_loop.run_bad)
next
  case (stop bs s f r s')
  then show ?case by (simp add: ws_step_act)
next
  case (step bs s f r t e rest s')
  obtain d v where t: "t = (d, v)" by force
  then have a: "ws_act now f (c, w) = (d, v)" using step.hyps(2) step.prems(1) by (simp add: ws_step_act)
  have "frame_loop now bs (c\<lparr>ws_in_buf := x\<rparr>, w) = frame_loop now r (d\<lparr>ws_in_buf := x\<rparr>, v)"
    by (rule ws_loop.run_step [OF step.hyps(1)]) (simp only: ws_step_act ws_act_in_buf [OF a])
  with step.IH [OF t step.prems(2)] ws_act_keeps [OF a] show ?case by simp
qed

lemma frame_loop_not_stopped: "frame_loop now buf s = (e, rest, s') \<Longrightarrow> e \<noteq> Stopped"
  by (induction rule: ws_loop.run_induct) (simp_all add: ws_step_act)

text \<open>Reading in pieces.\<close>

fun read_all :: "'w ws_env \<Rightarrow> nat \<Rightarrow> bytes list \<Rightarrow> ws_client \<times> 'w ws_world \<Rightarrow> (ws_client \<times> 'w ws_world) option" where
  "read_all e now [] s = Some s"
| "read_all e now (bs # rest) s = (case client_readable e now bs False s of None \<Rightarrow> None | Some s' \<Rightarrow> read_all e now rest s')"

lemma read_all_loop:
  "handshake_done c \<Longrightarrow> next_ws_frame (ws_in_buf c) = Need_more \<Longrightarrow>
     frame_loop now (ws_in_buf c @ concat reads) (c, w) = (Starved, rest, (c', w')) \<Longrightarrow>
     read_all e now reads (c, w) = Some (c'\<lparr>ws_in_buf := rest\<rparr>, w')"
proof (induction reads arbitrary: c w c' w')
  case Nil
  have "(Starved, ws_in_buf c, (c, w)) = (Starved, rest, (c', w'))"
    using ws_loop.run_need [OF Nil.prems(2), of now "(c, w)"] Nil.prems(3) by (simp only: concat.simps append_Nil2)
  then have h: "ws_in_buf c = rest" "c = c'" "w = w'" unfolding prod.inject by blast+
  show ?case unfolding h(1) [symmetric] h(2,3) [symmetric] by (cases c) simp
next
  case (Cons b reads)
  obtain e1 r1 c1 w1 where l: "frame_loop now (ws_in_buf c @ b) (c, w) = (e1, r1, (c1, w1))" by (metis prod_cases3 surj_pair)
  have "e1 = Starved"
  proof (cases e1)
    case Broken
    with ws_loop.run_broken_append [OF l [unfolded Broken], of "concat reads"] Cons.prems(3) show ?thesis by simp
  qed (use frame_loop_not_stopped [OF l] in auto)
  note l = l [unfolded this]
  have r: "frame_loop now (r1 @ concat reads) (c1, w1) = (Starved, rest, (c', w'))"
    using ws_loop.run_starved_append [OF l, of "concat reads"] Cons.prems(3) by simp
  note k = frame_loop_in_buf [OF l refl refl, of "ws_in_buf c @ b"]
  have "client_readable e now b False (c, w) = Some (c1\<lparr>ws_in_buf := r1\<rparr>, w1)"
    using k Cons.prems(1) by (simp add: client_readable_def)
  moreover have "frame_loop now (r1 @ concat reads) (c1\<lparr>ws_in_buf := r1\<rparr>, w1) = (Starved, rest, (c'\<lparr>ws_in_buf := r1\<rparr>, w'))"
    using frame_loop_in_buf [OF r refl refl, of r1] by simp
  moreover have "next_ws_frame r1 = Need_more" by (rule ws_loop.run_starved_rest [OF l])
  ultimately show ?case using Cons.IH [of "c1\<lparr>ws_in_buf := r1\<rparr>" w1] k Cons.prems(1)
    by simp
qed

section \<open>Messages and their fragments\<close>

text \<open>
  The abstract view: a client sends messages, an opcode and a nonempty list of fragments each, with
  pings and pongs anywhere between the frames; the server has a list of messages to hand to the
  callback. \<open>message_frames\<close> is RFC 6455's fragmentation.
\<close>

fun continuation_frames :: "bytes list \<Rightarrow> ws_frame list" where
  "continuation_frames [] = []"
| "continuation_frames (p # ps) = Ws_frame (ps = []) 0 p # continuation_frames ps"

fun message_frames :: "u8 \<times> bytes list \<Rightarrow> ws_frame list" where
  "message_frames (op, []) = []"
| "message_frames (op, p # ps) = Ws_frame (ps = []) op p # continuation_frames ps"

definition is_message :: "u8 \<times> bytes list \<Rightarrow> bool" where
  "is_message m \<longleftrightarrow> (fst m = 1 \<or> fst m = 2) \<and> snd m \<noteq> []"

definition is_control :: "ws_frame \<Rightarrow> bool" where
  "is_control f \<longleftrightarrow> opcode f = 9 \<or> opcode f = 10"

definition pongs :: "ws_frame list \<Rightarrow> bytes" where
  "pongs fs = concat (map (\<lambda>f. if opcode f = 9 then build_ws_frame 10 (payload f) else []) fs)"

fun task_view :: "ws_task \<Rightarrow> (int \<times> u8 \<times> string) option" where
  "task_view (Message_task fd op r) = Some (fd, op, body r)"
| "task_view (Http_task fd r) = None"

definition frees :: "'w ws_world \<Rightarrow> nat" where
  "frees w = card (free_arenas (manager (ws_pool w)))"

lemma schedule_message_free:
  assumes "pool_ok (ws_pool w)" "0 < frees w"
  obtains r w' where "schedule_message now fd op data w = w'"
    "ws_tasks w' = ws_tasks w @ [Message_task fd op r]" "body r = string_of data"
    "pool_ok (ws_pool w')" "Suc (frees w') = frees w"
proof -
  have "free_arenas (manager (ws_pool w)) \<noteq> {}" using assms(2) by (auto simp: frees_def)
  from place_request_free [OF assms(1) this] obtain p pl where
    P: "place_request now (ws_pool w) = (Some (request_new p now), pl)" "p \<in> free_arenas (manager (ws_pool w))"
      "free_arenas (manager pl) = free_arenas (manager (ws_pool w)) - {p}" "pool_ok pl" by metis
  define r where "r = message_request fd op data (request_new p now)"
  have "body r = string_of data" by (simp add: r_def message_request_def)
  moreover have "schedule_message now fd op data w = w\<lparr>ws_pool := pl, ws_tasks := ws_tasks w @ [Message_task fd op r]\<rparr>"
    by (simp add: schedule_message_def P(1) r_def)
  moreover have "Suc (card (free_arenas (manager pl))) = frees w"
    unfolding frees_def P(3) by (rule card.remove [symmetric]) (simp_all add: P(2))
  ultimately show ?thesis using P(4)
    by (intro that [of "w\<lparr>ws_pool := pl, ws_tasks := ws_tasks w @ [Message_task fd op r]\<rparr>" r]) (simp_all add: frees_def)
qed

text \<open>A control frame leaves the reassembly alone.\<close>

lemma ws_act_control:
  "is_control f \<Longrightarrow> ws_act now f (c, w) = (c\<lparr>ws_out_buf := ws_out_buf c @ pongs [f]\<rparr>, w)"
  unfolding is_control_def by (cases c) (elim disjE; simp add: ws_act_def ws_step_def pongs_def Let_def)

lemma ws_act_text:
  "op = 1 \<or> op = 2 \<Longrightarrow> \<not> assembling c \<Longrightarrow> ws_act now (Ws_frame b op p) (c, w) =
     (if b then (c, schedule_message now (ws_fd c) op p w)
      else (c\<lparr>assembling := True, assemble_opcode := op, assemble_data := p\<rparr>, w))"
  by (elim disjE) (simp_all add: ws_act_def ws_step_def Let_def)

text \<open>
  The frames that finish a message of which \<open>acc\<close> has arrived, with controls between them, then the
  frames of the messages after it: one task for each message, in order, and one pong for each ping.
\<close>

definition tasks_of :: "int \<Rightarrow> (u8 \<times> bytes list) list \<Rightarrow> (int \<times> u8 \<times> string) option list" where
  "tasks_of fd ms = map (\<lambda>(op, ps). Some (fd, op, string_of (concat ps))) ms"

definition expected :: "ws_client \<Rightarrow> bytes list \<Rightarrow> (u8 \<times> bytes list) list \<Rightarrow> (u8 \<times> bytes list) list" where
  "expected c ps ms = (if ps = [] then ms else (assemble_opcode c, assemble_data c # ps) # ms)"

lemma fold_ws_act:
  assumes "filter (\<lambda>f. \<not> is_control f) fs = continuation_frames ps @ concat (map message_frames ms)"
    and "assembling c = (ps \<noteq> [])" "list_all is_message ms"
    and "pool_ok (ws_pool w)" "length (expected c ps ms) \<le> frees w"
  shows "\<exists>c' w'. fold (ws_act now) fs (c, w) = (c', w') \<and> \<not> assembling c' \<and> ws_closed c' = ws_closed c \<and>
    ws_out_buf c' = ws_out_buf c @ pongs fs \<and> pool_ok (ws_pool w') \<and>
    map task_view (ws_tasks w') = map task_view (ws_tasks w) @ tasks_of (ws_fd c) (expected c ps ms)"
  using assms
proof (induction fs arbitrary: ps ms c w)
  case Nil
  then have "continuation_frames ps = []" "concat (map message_frames ms) = []" by auto
  then have "ps = []" and none: "\<forall>m\<in>set ms. message_frames m = []" by (cases ps, auto)
  moreover have "ms = []"
  proof (cases ms)
    case (Cons m ms')
    with none Nil.prems(3) have "message_frames m = []" "is_message m" by simp_all
    then show ?thesis by (cases m; cases "snd m") (auto simp: is_message_def)
  qed simp
  ultimately show ?case using Nil.prems by (simp add: expected_def tasks_of_def pongs_def)
next
  case (Cons f fs)
  show ?case
  proof (cases "is_control f")
    case True
    let ?c = "c\<lparr>ws_out_buf := ws_out_buf c @ pongs [f]\<rparr>"
    have "expected ?c ps ms = expected c ps ms" by (simp add: expected_def)
    with Cons.IH [of ps ms ?c w] Cons.prems True show ?thesis
      by (simp add: ws_act_control) (simp add: pongs_def)
  next
    case False
    have pf: "pongs (f # fs) = pongs fs" using False by (simp add: pongs_def is_control_def)
    show ?thesis
    proof (cases ps)
      case (Cons p qs)
      then have f: "f = Ws_frame (qs = []) 0 p" and asm: "assembling c" and
        r: "filter (\<lambda>f. \<not> is_control f) fs = continuation_frames qs @ concat (map message_frames ms)"
        using Cons.prems(1,2) False by simp_all
      show ?thesis
      proof (cases "qs = []")
        case True
        have "0 < frees w" using Cons.prems(5) Cons by (simp add: expected_def)
        from schedule_message_free [OF Cons.prems(4) this] obtain q w1 where
          W: "schedule_message now (ws_fd c) (assemble_opcode c) (assemble_data c @ p) w = w1"
            "ws_tasks w1 = ws_tasks w @ [Message_task (ws_fd c) (assemble_opcode c) q]"
            "body q = string_of (assemble_data c @ p)" "pool_ok (ws_pool w1)" "Suc (frees w1) = frees w" by metis
        let ?c = "c\<lparr>assemble_data := [], assembling := False\<rparr>"
        have act: "ws_act now f (c, w) = (?c, w1)"
          using f asm True W(1) by (simp add: ws_act_def ws_step_def Let_def)
        have e: "expected ?c [] ms = ms" "expected c ps ms = (assemble_opcode c, [assemble_data c, p]) # ms"
          using Cons True by (simp_all add: expected_def)
        show ?thesis
          using Cons.IH [of "[]" ms ?c w1] r True Cons.prems(3,5) W act pf e by (auto simp: tasks_of_def)
      next
        case more: False
        let ?c = "c\<lparr>assemble_data := assemble_data c @ p\<rparr>"
        have act: "ws_act now f (c, w) = (?c, w)" using f asm more by (simp add: ws_act_def ws_step_def Let_def)
        have e: "expected ?c qs ms = (assemble_opcode c, (assemble_data c @ p) # qs) # ms"
          "expected c ps ms = (assemble_opcode c, assemble_data c # p # qs) # ms"
          using Cons more by (simp_all add: expected_def)
        show ?thesis
          using Cons.IH [of qs ms ?c w] r more asm Cons.prems(3,4,5) act pf e by (auto simp: tasks_of_def)
      qed
    next
      case Nil
      then have na: "\<not> assembling c" and fr: "f # filter (\<lambda>f. \<not> is_control f) fs = concat (map message_frames ms)"
        using Cons.prems(1,2) False by simp_all
      then obtain m ms' where m: "ms = m # ms'" by (cases ms) auto
      then obtain op p qs where mm: "m = (op, p # qs)" and op: "op = 1 \<or> op = 2"
        using Cons.prems(3) by (cases m; cases "snd m") (auto simp: is_message_def)
      have f: "f = Ws_frame (qs = []) op p" and
        r: "filter (\<lambda>f. \<not> is_control f) fs = continuation_frames qs @ concat (map message_frames ms')"
        using fr m mm by simp_all
      show ?thesis
      proof (cases "qs = []")
        case True
        have "0 < frees w" using Cons.prems(5) Nil m by (simp add: expected_def)
        from schedule_message_free [OF Cons.prems(4) this] obtain q w1 where
          W: "schedule_message now (ws_fd c) op p w = w1"
            "ws_tasks w1 = ws_tasks w @ [Message_task (ws_fd c) op q]"
            "body q = string_of p" "pool_ok (ws_pool w1)" "Suc (frees w1) = frees w" by metis
        have act: "ws_act now f (c, w) = (c, w1)"
          unfolding f using True W(1) by (simp add: ws_act_text [OF op na])
        show ?thesis
          using Cons.IH [of "[]" ms' c w1] r True Cons.prems(3,5) W act pf m mm na Nil
          by (auto simp: tasks_of_def expected_def)
      next
        case more: False
        let ?c = "c\<lparr>assembling := True, assemble_opcode := op, assemble_data := p\<rparr>"
        have act: "ws_act now f (c, w) = (?c, w)" unfolding f using more by (simp add: ws_act_text [OF op na])
        have e: "expected ?c qs ms' = ms" "expected c ps ms = ms" using more m mm Nil by (simp_all add: expected_def)
        show ?thesis
          using Cons.IH [of qs ms' ?c w] r more m Cons.prems(3,4,5) act pf e by auto
      qed
    qed
  qed
qed

section \<open>Header blocks\<close>

text \<open>A header block ends with the first empty line; what follows it changes nothing in it.\<close>

definition header_block :: "string \<Rightarrow> bool" where
  "header_block h \<longleftrightarrow> 4 \<le> length h \<and> str_find h (crlf @ crlf) 0 = Some (length h - 4)"

lemma header_block_append: "header_block h \<Longrightarrow> str_find (h @ rest) (crlf @ crlf) 0 = Some (length h - 4)"
  by (auto simp: header_block_def str_find_def intro: find_sub_append)

lemma header_block_prefix: "header_block h \<Longrightarrow> substr (h @ rest) 0 (length h - 4 + 4) = h"
  by (simp add: header_block_def substr_def)

lemma header_block_rest: "header_block h \<Longrightarrow> substr_from (h @ rest) (length h - 4 + 4) = rest"
  by (simp add: header_block_def substr_from_def)

lemma http_phase_plain:
  assumes "header_block h" "websocket_key h = None" "in_http c @ string_of (ws_in_buf c) = h @ rest"
  shows "http_phase e now (c, w) = take_http_body e now
    (c\<lparr>in_http := h @ rest, http_mode := True,
       http_content_length := content_length_loop h 0 (http_content_length c), http_headers_parsed := True,
       ws_in_buf := bytes_of rest\<rparr>, w)"
  using header_block_append [OF assms(1), of rest] header_block_prefix [OF assms(1), of rest]
    header_block_rest [OF assms(1), of rest] assms(2,3)
  by (simp add: http_phase_def parse_http_headers_def Let_def)

lemma client_readable_http:
  assumes "\<not> handshake_done c" "header_block h" "websocket_key h = None"
    and "in_http c @ string_of (ws_in_buf c @ received) = h @ rest"
  shows "client_readable e now received eof (c, w) = Some (take_http_body e now
    (c\<lparr>ws_closed := ws_closed c \<or> eof, in_http := h @ rest, http_mode := True,
       http_content_length := content_length_loop h 0 (http_content_length c), http_headers_parsed := True,
       ws_in_buf := bytes_of rest\<rparr>, w))"
proof -
  let ?c = "c\<lparr>ws_in_buf := ws_in_buf c @ received, ws_closed := ws_closed c \<or> eof\<rparr>"
  have "http_phase e now (?c, w) = take_http_body e now
    (?c\<lparr>in_http := h @ rest, http_mode := True,
       http_content_length := content_length_loop h 0 (http_content_length ?c), http_headers_parsed := True,
       ws_in_buf := bytes_of rest\<rparr>, w)"
    using assms(2,3,4) by (intro http_phase_plain) simp_all
  moreover obtain c2 w2 where t: "take_http_body e now
    (?c\<lparr>in_http := h @ rest, http_mode := True,
       http_content_length := content_length_loop h 0 (http_content_length ?c), http_headers_parsed := True,
       ws_in_buf := bytes_of rest\<rparr>, w) = (c2, w2)" by force
  moreover from t assms(1) have "\<not> handshake_done c2" by (auto simp: take_http_body_def Let_def split: if_splits)
  ultimately show ?thesis using assms(1) by (simp add: client_readable_def)
qed

lemma take_http_body_bytes:
  "ws_in_buf c = bytes_of s \<Longrightarrow> take_http_body e now (c, w) =
     (if unat (http_content_length c) \<le> length s
      then (c\<lparr>ws_in_buf := []\<rparr>, schedule_http e now (ws_fd c) (in_http c) (take (unat (http_content_length c)) s) w)
      else (c, w))"
  by (simp add: take_http_body_def Let_def flip: take_map)

lemma content_length_loop_again:
  "content_length_loop h pos (content_length_loop h pos old) = content_length_loop h pos old"
proof (induction h pos old rule: content_length_loop.induct)
  case (1 h pos old)
  show ?case
  proof (cases "str_find h crlf pos")
    case (Some e)
    then show ?thesis using 1 [OF Some]
      by (subst (1 2 3) content_length_loop.simps) (auto simp: Let_def split: option.split)
  qed (simp add: content_length_loop.simps)
qed

section \<open>Responses\<close>

lemma decode_stdout_record:
  "record_fits rc \<Longrightarrow> decode_stdout (encode_record rc @ rest) acc =
     decode_stdout rest (if rec_type rc = FCGI_STDOUT then acc @ string_of (rec_content rc) else acc)"
  using stdout.run_step [OF fcgi_codec.next_encode stdout_step_def, of rc rest acc] by auto

lemma decode_stdout_chunks:
  "list_all (\<lambda>c. c \<noteq> [] \<and> length c < 65536) chunks \<Longrightarrow>
     decode_stdout (encode_records (response_records i chunks)) acc = (Starved, [], acc @ string_of (concat chunks))"
proof (induction chunks arbitrary: acc)
  case Nil
  have "decode_stdout (encode_records (response_records i [])) acc = decode_stdout [] acc"
    by (simp add: response_records_def encode_records_Cons decode_stdout_record record_fits_def fcgi_consts)
      (simp add: encode_records_def)
  then show ?case by simp
next
  case (Cons c chunks)
  have "encode_records (response_records i (c # chunks)) =
      encode_record (Record FCGI_STDOUT i c) @ encode_records (response_records i chunks)"
    by (simp add: response_records_def encode_records_Cons)
  then show ?case using Cons by (simp add: decode_stdout_record record_fits_def)
qed

section \<open>Properties\<close>

text \<open>C3: an upgraded connection carries messages. The frames of any messages, each in as many fragments as
  the client likes, masked with any keys, with pings and pongs anywhere between them and the bytes
  split into reads anyhow, become exactly one task per message, in order, with the opcode and the
  joined fragments, and one pong per ping; nothing is left over. There have to be arenas for them.\<close>

theorem messages_reassembled:
  assumes "handshake_done c" "\<not> assembling c" "ws_in_buf c = []"
    and "list_all (\<lambda>(k, f). length k = 4 \<and> ws_frame_fits f) kfs"
    and "filter (\<lambda>f. \<not> is_control f) (map snd kfs) = concat (map message_frames ms)" "list_all is_message ms"
    and "concat reads = concat (map (\<lambda>(k, f). client_frame k f) kfs)"
    and "pool_ok (ws_pool w)" "length ms \<le> card (free_arenas (manager (ws_pool w)))"
  shows "\<exists>c' w'. read_all e now reads (c, w) = Some (c', w') \<and>
    map task_view (ws_tasks w') =
      map task_view (ws_tasks w) @ map (\<lambda>(op, ps). Some (ws_fd c, op, string_of (concat ps))) ms \<and>
    ws_out_buf c' = ws_out_buf c @
      concat (map (\<lambda>f. if opcode f = 9 then build_ws_frame 10 (payload f) else []) (map snd kfs)) \<and>
    ws_in_buf c' = [] \<and> \<not> assembling c' \<and> ws_closed c' = ws_closed c"
proof -
  have "\<exists>c1 w1. fold (ws_act now) (map snd kfs) (c, w) = (c1, w1) \<and> \<not> assembling c1 \<and> ws_closed c1 = ws_closed c \<and>
      ws_out_buf c1 = ws_out_buf c @ pongs (map snd kfs) \<and> pool_ok (ws_pool w1) \<and>
      map task_view (ws_tasks w1) = map task_view (ws_tasks w) @ tasks_of (ws_fd c) (expected c [] ms)"
    using assms(2,5,6,8,9) by (intro fold_ws_act) (simp_all add: expected_def frees_def)
  then obtain c1 w1 where f: "fold (ws_act now) (map snd kfs) (c, w) = (c1, w1)" "\<not> assembling c1"
    "ws_closed c1 = ws_closed c" "ws_out_buf c1 = ws_out_buf c @ pongs (map snd kfs)"
    "map task_view (ws_tasks w1) = map task_view (ws_tasks w) @ tasks_of (ws_fd c) ms"
    by (auto simp: expected_def)
  have "frame_loop now (concat (map (\<lambda>(k, f). client_frame k f) kfs)) (c, w) = (Starved, [], (c1, w1))"
    unfolding f(1) [symmetric] using assms(4) by (intro frame_loop_frames) (auto simp: list_all_iff)
  then have "read_all e now reads (c, w) = Some (c1\<lparr>ws_in_buf := []\<rparr>, w1)"
    using assms(1,3,7) ws.empty_needs_more by (intro read_all_loop) simp_all
  with f(2-5) show ?thesis by (simp add: pongs_def tasks_of_def)
qed

definition demo_world :: "unit ws_world" where
  "demo_world = \<lparr>ws_pool = demo_pool, ws_tasks = [], pending_frames = [], ws_files = ()\<rparr>"

definition demo_env :: "unit ws_env" where
  "demo_env = \<lparr>ws_config = default_config, has_cbhttp = True, sha1 = (\<lambda>_. replicate 20 0), ws_saver = (\<lambda>_ _ w. (None, w))\<rparr>"

definition demo_frames :: "(bytes \<times> ws_frame) list" where
  "demo_frames = [([1, 2, 3, 4], Ws_frame False 1 [72]), ([0, 0, 0, 0], Ws_frame True 9 [7]), ([5, 6, 7, 8], Ws_frame True 0 [105])]"

theorem messages_reassembled_witness:
  "\<exists>c' w'. read_all demo_env 0 [concat (map (\<lambda>(k, f). client_frame k f) demo_frames)]
      ((new_client 5)\<lparr>handshake_done := True\<rparr>, demo_world) = Some (c', w') \<and>
    map task_view (ws_tasks w') = [Some (5, 1, ''Hi'')] \<and> ws_out_buf c' = build_ws_frame 10 [7]"
proof -
  have "\<exists>c' w'. read_all demo_env 0 [concat (map (\<lambda>(k, f). client_frame k f) demo_frames)]
      ((new_client 5)\<lparr>handshake_done := True\<rparr>, demo_world) = Some (c', w') \<and>
    map task_view (ws_tasks w') = map task_view (ws_tasks demo_world) @
      map (\<lambda>(op, ps). Some (ws_fd ((new_client 5)\<lparr>handshake_done := True\<rparr>), op, string_of (concat ps))) [(1, [[72], [105]])] \<and>
    ws_out_buf c' = ws_out_buf ((new_client 5)\<lparr>handshake_done := True\<rparr>) @
      concat (map (\<lambda>f. if opcode f = 9 then build_ws_frame 10 (payload f) else []) (map snd demo_frames)) \<and>
    ws_in_buf c' = [] \<and> \<not> assembling c' \<and> ws_closed c' = ws_closed ((new_client 5)\<lparr>handshake_done := True\<rparr>)"
    by (rule messages_reassembled)
      (simp_all add: new_client_def demo_frames_def ws_frame_fits_def is_control_def is_message_def demo_world_def
        demo_pool_ok demo_pool_free)
  moreover have "char_of_byte 72 = CHR ''H''" "char_of_byte 105 = CHR ''i''"
    using char_of_byte_of_char [of "CHR ''H''"] char_of_byte_of_char [of "CHR ''i''"] by (simp_all add: byte_of_char_def)
  ultimately show ?thesis by (auto simp: demo_world_def new_client_def demo_frames_def)
qed

text \<open>Bytes behind the blank line change nothing in the request that is read from a header block.\<close>

lemma str_find_append: "str_find s pat pos = Some i \<Longrightarrow> str_find (s @ x) pat pos = Some i"
  by (auto simp: str_find_def intro: find_sub_append split: if_splits)

lemma substr_append: "pos + n \<le> length s \<Longrightarrow> substr (s @ x) pos n = substr s pos n"
  by (simp add: substr_def)

lemma find_sub_le: "starts_with (drop j s) pat \<Longrightarrow> pat \<noteq> [] \<Longrightarrow> \<exists>i\<le>j. find_sub pat s = Some i"
proof (induction s arbitrary: j)
  case (Cons c s)
  show ?case
  proof (cases "starts_with (c # s) pat")
    case False
    with Cons.prems obtain j' where "j = Suc j'" by (cases j) auto
    with Cons.IH [of j'] Cons.prems False show ?thesis by auto
  qed simp
qed (simp add: starts_with_def)

text \<open>From every position the loop over the header lines visits, the next line end is inside the block.\<close>

lemma block_line_end:
  assumes "header_block h" "pos \<le> length h - 4 \<or> pos = length h - 2"
  obtains nxt where "str_find h crlf pos = Some nxt" "nxt = pos \<and> pos = length h - 2 \<or> nxt + 2 \<le> length h - 4 \<or> nxt + 2 = length h - 2"
proof -
  have f: "str_find h (crlf @ crlf) 0 = Some (length h - 4)" and l: "4 \<le> length h" using assms(1) by (simp_all add: header_block_def)
  have d: "drop (length h - 4) h = crlf @ crlf" using str_find_Some(3) [OF f] l by simp
  then have "drop 2 (drop (length h - 4) h) = crlf" by simp
  moreover have "2 + (length h - 4) = length h - 2" using l by simp
  ultimately have d2: "drop (length h - 2) h = crlf" by (simp only: drop_drop)
  have at: "starts_with (drop (j - pos) (drop pos h)) crlf" if "j = length h - 4 \<or> j = length h - 2" "pos \<le> j" for j
    using that d d2 by (auto simp: starts_with_def)
  obtain j where j: "j = length h - 4 \<or> j = length h - 2" "pos \<le> j" "pos \<le> length h - 4 \<longrightarrow> j = length h - 4"
    using assms(2) by (cases "pos \<le> length h - 4") auto
  from find_sub_le [OF at [OF j(1,2)]] obtain i where i: "i \<le> j - pos" "find_sub crlf (drop pos h) = Some i" by auto
  then have s: "str_find h crlf pos = Some (pos + i)" using j l by (auto simp: str_find_def)
  have c: "h ! (pos + i + 1) = CHR 0x0A" using str_find_Some [OF s] by (auto simp: take_Suc_conv_app_nth hd_drop_conv_nth numeral_2_eq_2)
  have "h ! (length h - 4) = CHR 0x0D" using arg_cong [OF d, of hd] l by (simp add: hd_drop_conv_nth)
  with c have "pos + i + 1 \<noteq> length h - 4" by auto
  moreover have "pos \<le> length h - 4 \<Longrightarrow> pos + i \<le> length h - 4" "\<not> pos \<le> length h - 4 \<Longrightarrow> pos = length h - 2 \<and> i = 0"
    using i(1) j assms(2) by auto
  ultimately have "pos + i = pos \<and> pos = length h - 2 \<or> pos + i + 2 \<le> length h - 4 \<or> pos + i + 2 = length h - 2"
    using l by arith
  with s show thesis by (rule that)
qed

lemma header_loop_append:
  "header_block h \<Longrightarrow> pos \<le> length h - 4 \<or> pos = length h - 2 \<Longrightarrow> header_loop (h @ x) pos s = header_loop h pos s"
proof (induction h pos s rule: header_loop.induct)
  case (1 h pos ev hs)
  obtain nxt where n: "str_find h crlf pos = Some nxt" "nxt = pos \<and> pos = length h - 2 \<or> nxt + 2 \<le> length h - 4 \<or> nxt + 2 = length h - 2"
    by (rule block_line_end [OF 1(3,4)])
  have l: "4 \<le> length h" using 1(3) by (simp add: header_block_def)
  then have p: "pos < length h" using 1(4) by auto
  have sub: "substr (h @ x) pos (nxt - pos) = substr h pos (nxt - pos)"
    by (rule substr_append) (use str_find_bounds [OF n(1)] in simp)
  show ?case
  proof (cases "nxt = pos")
    case True
    with n(1) p str_find_append [OF n(1), of x] show ?thesis by (simp add: header_loop.simps)
  next
    case False
    with n(2) have np: "nxt + 2 \<le> length h - 4 \<or> nxt + 2 = length h - 2" by simp
    show ?thesis
      using 1(1) [OF p n(1) False refl _ 1(3) np] 1(2) [OF p n(1) False refl _ refl refl 1(3) np] p n(1) False sub
        str_find_append [OF n(1), of x]
      by (subst (1 2) header_loop.simps) (simp add: Let_def split: option.split)
  qed
qed

lemma http_request_append:
  assumes "header_block h"
  shows "http_request e fd (h @ x) bdy = http_request e fd h bdy"
proof -
  have l: "4 \<le> length h" using assms by (simp add: header_block_def)
  obtain i where i: "str_find h crlf 0 = Some i" "i = 0 \<and> 0 = length h - 2 \<or> i + 2 \<le> length h - 4 \<or> i + 2 = length h - 2"
    by (rule block_line_end [OF assms, of 0]) auto
  then have p: "i + 2 \<le> length h - 4 \<or> i + 2 = length h - 2" using l by auto
  have s: "substr (h @ x) 0 i = substr h 0 i" by (rule substr_append) (use str_find_bounds [OF i(1)] in simp)
  show ?thesis
    by (simp add: http_request_def fun_eq_iff Let_def i(1) str_find_append [OF i(1)] s header_loop_append [OF assms p, unfolded add_2_eq_Suc'])
qed

lemma schedule_http_append: "header_block h \<Longrightarrow> schedule_http e now fd (h @ x) bdy w = schedule_http e now fd h bdy w"
  unfolding schedule_http_def http_request_append ..

text \<open>C36: plain HTTP: a request without a body stays in the client after it has been scheduled, and every later event in
  which the socket is readable schedules the same request again: whatever bytes have arrived (none,
  when the client closes the connection), and whatever has happened to the world and to the output in
  between, such as that the request has been answered and the answer sent.\<close>

theorem http_request_runs_again:
  assumes "header_block txt" "websocket_key txt = None" "content_length_loop txt 0 0 = 0"
  shows "\<exists>c1. client_readable e now (bytes_of txt) False (new_client fd, w) = Some (c1, schedule_http e now fd txt [] w) \<and>
    (\<forall>out wants late eof now' w'. \<exists>c2.
      client_readable e now' late eof (c1\<lparr>ws_out_buf := out, ws_want_out := wants\<rparr>, w') =
        Some (c2, schedule_http e now' fd txt [] w'))"
proof -
  define c1 where "c1 = (new_client fd)\<lparr>in_http := txt, http_mode := True, http_headers_parsed := True\<rparr>"
  have "client_readable e now (bytes_of txt) False (new_client fd, w) = Some (c1, schedule_http e now fd txt [] w)"
    using client_readable_http [of "new_client fd" "txt" "bytes_of txt" "[]" e now False w] assms(1-3)
    by (simp add: new_client_def take_http_body_def Let_def c1_def)
  moreover have "\<exists>c2. client_readable e now' late eof (c1\<lparr>ws_out_buf := out, ws_want_out := wants\<rparr>, w') =
      Some (c2, schedule_http e now' fd txt [] w')" for out wants late eof now' w'
    using client_readable_http [of "c1\<lparr>ws_out_buf := out, ws_want_out := wants\<rparr>" "txt" late "string_of late" e now' eof w'] assms(1-3)
    by (simp add: new_client_def take_http_body_def Let_def c1_def schedule_http_append)
  ultimately show ?thesis by blast
qed

text \<open>C37: a body of which a part, but not all, arrives in the read that ends the headers is damaged: the part
  that did arrive is taken over from the kept text and again from the input buffer, so it comes
  twice, and as many bytes are cut off at the end.\<close>

theorem split_body_damaged:
  assumes "header_block h" "websocket_key h = None"
    and "unat (content_length_loop h 0 0) = length (b1 @ b2)" "b1 \<noteq> []" "b2 \<noteq> []"
  shows "\<exists>c1 c2. client_readable e now (bytes_of (h @ b1)) False (new_client fd, w) = Some (c1, w) \<and>
    client_readable e now' (bytes_of b2) False (c1, w) =
      Some (c2, schedule_http e now' fd (h @ b1 @ b1 @ b2) (b1 @ take (length b2) (b1 @ b2)) w)"
proof -
  define c1 where "c1 = (new_client fd)\<lparr>in_http := h @ b1, ws_in_buf := bytes_of b1, http_mode := True,
    http_content_length := content_length_loop h 0 0, http_headers_parsed := True\<rparr>"
  have first: "client_readable e now (bytes_of (h @ b1)) False (new_client fd, w) = Some (c1, w)"
    using client_readable_http [of "new_client fd" h "bytes_of (h @ b1)" b1 e now False w] assms
    by (simp add: new_client_def take_http_body_bytes c1_def)
  have "client_readable e now' (bytes_of b2) False (c1, w) =
      Some (take_http_body e now' (c1\<lparr>in_http := h @ b1 @ b1 @ b2, ws_in_buf := bytes_of (b1 @ b1 @ b2)\<rparr>, w))"
    using client_readable_http [of c1 h "bytes_of b2" "b1 @ b1 @ b2" e now' False w] assms(1,2)
    by (simp add: new_client_def c1_def content_length_loop_again)
  moreover have "take_http_body e now' (c1\<lparr>in_http := h @ b1 @ b1 @ b2, ws_in_buf := bytes_of (b1 @ b1 @ b2)\<rparr>, w) =
      (c1\<lparr>in_http := h @ b1 @ b1 @ b2, ws_in_buf := []\<rparr>,
       schedule_http e now' fd (h @ b1 @ b1 @ b2) (b1 @ take (length b2) (b1 @ b2)) w)"
    using assms(3) by (subst take_http_body_bytes [where s = "b1 @ b1 @ b2"]) (simp_all add: c1_def new_client_def)
  ultimately have "client_readable e now' (bytes_of b2) False (c1, w) =
      Some (c1\<lparr>in_http := h @ b1 @ b1 @ b2, ws_in_buf := []\<rparr>,
        schedule_http e now' fd (h @ b1 @ b1 @ b2) (b1 @ take (length b2) (b1 @ b2)) w)" by (simp only:)
  with first show ?thesis by blast
qed

text \<open>Two requests of a browser, and what they come to.\<close>

definition get_text :: string where
  "get_text = ''GET / HTTP/1.1'' @ crlf @ ''A: b'' @ crlf @ crlf"

definition post_header :: string where
  "post_header = ''POST / HTTP/1.1'' @ crlf @ ''Content-Length: 3'' @ crlf @ crlf"

theorem http_request_runs_again_witness:
  "\<exists>c1. client_readable demo_env 0 (bytes_of get_text) False (new_client 5, demo_world) =
      Some (c1, schedule_http demo_env 0 5 get_text [] demo_world) \<and>
    (\<forall>out wants late eof now' w'. \<exists>c2.
      client_readable demo_env now' late eof (c1\<lparr>ws_out_buf := out, ws_want_out := wants\<rparr>, w') =
        Some (c2, schedule_http demo_env now' 5 get_text [] w'))"
proof (rule http_request_runs_again)
  show "header_block get_text"
    by (simp add: get_text_def header_block_def str_find_def starts_with_def)
  show "websocket_key get_text = None"
    by (simp add: get_text_def websocket_key_def str_find_def starts_with_def)
  show "content_length_loop get_text 0 0 = 0"
    by (simp add: get_text_def content_length_loop.simps str_find_def str_find_char_def starts_with_def substr_def
        lower_def tolower_def Let_def)
qed

theorem split_body_damaged_witness:
  "\<exists>c1 c2. client_readable demo_env 0 (bytes_of (post_header @ ''a'')) False (new_client 5, demo_world) = Some (c1, demo_world) \<and>
    client_readable demo_env 1 (bytes_of ''bc'') False (c1, demo_world) =
      Some (c2, schedule_http demo_env 1 5 (post_header @ ''a'' @ ''a'' @ ''bc'') (''a'' @ take (length ''bc'') (''a'' @ ''bc'')) demo_world)"
proof (rule split_body_damaged)
  show "header_block post_header"
    by (simp add: post_header_def header_block_def str_find_def starts_with_def)
  show "websocket_key post_header = None"
    by (simp add: post_header_def websocket_key_def str_find_def starts_with_def)
  have "char_of (99 :: nat) = CHR ''c''" "char_of (108 :: nat) = CHR ''l''"
    by (simp_all add: uchar_inj [symmetric] del: of_char_eq_iff)
  then show "unat (content_length_loop post_header 0 0) = length (''a'' @ ''bc'')"
    by (simp add: post_header_def content_length_loop.simps str_find_def str_find_char_def starts_with_def substr_def
        substr_from_def lower_def tolower_def strtoull_def scan_int_def trim_spaces_def trim_by_def isspace_def isdigit_def
        dec_value_def digit_val_def Let_def)
qed simp_all

text \<open>The handshake answers with base64 of SHA-1 of the client's key and the protocol's constant, and
  switches to frames; but bytes that came in the same read behind the request, a client's first
  frames, are thrown away.\<close>

theorem handshake_loses_early_frames:
  assumes "header_block h" "websocket_key h = Some key"
  shows "\<exists>c. client_readable e now (bytes_of h @ early) False (new_client fd, w) = Some (c, w) \<and>
    handshake_done c \<and> ws_in_buf c = [] \<and> \<not> ws_closed c \<and>
    ws_out_buf c = bytes_of (handshake_response
      (base64_encode (sha1 e (bytes_of (key @ ''258EAFA5-E914-47DA-95CA-C5AB0DC85B11'')))))"
proof -
  let ?acc = "base64_encode (sha1 e (bytes_of (key @ ''258EAFA5-E914-47DA-95CA-C5AB0DC85B11'')))"
  let ?c = "(new_client fd)\<lparr>ws_in_buf := bytes_of h @ early\<rparr>"
  have "http_phase e now (?c, w) = (?c\<lparr>in_http := h @ string_of early, ws_in_buf := [],
      ws_out_buf := bytes_of (handshake_response ?acc), handshake_done := True\<rparr>, w)"
    using header_block_append [OF assms(1), of "string_of early"] header_block_prefix [OF assms(1), of "string_of early"] assms(2)
    by (simp add: http_phase_def parse_http_headers_def new_client_def Let_def)
  then show ?thesis by (simp add: client_readable_def new_client_def)
qed

theorem handshake_loses_early_frames_witness:
  "\<exists>c. client_readable demo_env 0 (bytes_of (''Sec-WebSocket-Key: x'' @ crlf @ crlf) @ [0x81, 0]) False (new_client 5, demo_world) =
      Some (c, demo_world) \<and>
    handshake_done c \<and> ws_in_buf c = [] \<and> \<not> ws_closed c \<and>
    ws_out_buf c = bytes_of (handshake_response
      (base64_encode (sha1 demo_env (bytes_of (''x'' @ ''258EAFA5-E914-47DA-95CA-C5AB0DC85B11'')))))"
proof (rule handshake_loses_early_frames)
  show "header_block (''Sec-WebSocket-Key: x'' @ crlf @ crlf)"
    by (simp add: header_block_def str_find_def starts_with_def)
  show "websocket_key (''Sec-WebSocket-Key: x'' @ crlf @ crlf) = Some ''x''"
    by (simp add: websocket_key_def str_find_def str_find_char_def starts_with_def is_blank_def substr_def)
qed

end
