(* ===== verification/Wsruns.thy ===== *)
theory Wsruns
  imports Websockets Runs
begin

text \<open>
  The loop of the WebSocket server over several events, who owns its arenas, and what its tasks
  answer. The loop looks up the client of an event and forgets it when it has been closed; a
  worker may run any of the queued tasks at any time.
\<close>

section \<open>The loop\<close>

text \<open>
  \<open>clients[cfd].fd = cfd\<close> for every descriptor that \<open>accept\<close> returns. A descriptor that were registered
  already would stay registered as it is, because \<open>EPOLL_CTL_ADD\<close> refuses it.
\<close>

fun accept_clients :: "int list \<Rightarrow> (int \<times> ws_client) list \<Rightarrow> (int \<times> ws_client) list" where
  "accept_clients [] clients = clients"
| "accept_clients (cfd # fds) clients =
     (let c = (case map_of clients cfd of None \<Rightarrow> new_client (- 1) | Some c \<Rightarrow> c)
      in accept_clients fds (AList.update cfd (c\<lparr>ws_fd := cfd\<rparr>) clients))"

datatype ws_input =
    Ws_accepted "int list"
  | Ws_wakeup
  | Ws_io nat int ws_event
  | Ws_worker nat

type_synonym ('s, 'w) ws_server = "(int \<times> ws_client) list \<times> 's \<times> 'w ws_world"

definition serve_client ::
  "'w ws_env \<Rightarrow> nat \<Rightarrow> int \<Rightarrow> ws_event \<Rightarrow> (int \<times> ws_client) list \<times> 'w ws_world
     \<Rightarrow> ((int \<times> ws_client) list \<times> 'w ws_world) option" where
  "serve_client e now fd ev = (\<lambda>(clients, w).
     case map_of clients fd of
       None \<Rightarrow> Some (clients, w)
     | Some c \<Rightarrow>
         (case client_event e now ev (c, w) of
            None \<Rightarrow> None
          | Some (None, w') \<Rightarrow> Some (AList.delete fd clients, w')
          | Some (Some c', w') \<Rightarrow> Some (AList.update fd c' clients, w')))"

definition ws_server_step ::
  "'w ws_env \<Rightarrow> (request \<times> bytes \<times> 's \<Rightarrow> request \<times> bytes \<times> 's) \<Rightarrow> ws_input \<Rightarrow> ('s, 'w) ws_server
     \<Rightarrow> ('s, 'w) ws_server option" where
  "ws_server_step e cb i = (\<lambda>(clients, s, w).
     case i of
       Ws_accepted fds \<Rightarrow> Some (accept_clients fds clients, s, w)
     | Ws_wakeup \<Rightarrow> (case deliver_pending (clients, w) of (clients', w') \<Rightarrow> Some (clients', s, w'))
     | Ws_io now fd ev \<Rightarrow>
         (case serve_client e now fd ev (clients, w) of
            None \<Rightarrow> None
          | Some (clients', w') \<Rightarrow> Some (clients', s, w'))
     | Ws_worker k \<Rightarrow>
         if k < length (ws_tasks w) then
           (case run_task cb (ws_tasks w ! k) (s, w\<lparr>ws_tasks := take k (ws_tasks w) @ drop (Suc k) (ws_tasks w)\<rparr>) of
              (s', w') \<Rightarrow> Some (clients, s', w'))
         else Some (clients, s, w))"

fun ws_server_run ::
  "'w ws_env \<Rightarrow> (request \<times> bytes \<times> 's \<Rightarrow> request \<times> bytes \<times> 's) \<Rightarrow> ws_input list \<Rightarrow> ('s, 'w) ws_server
     \<Rightarrow> ('s, 'w) ws_server option" where
  "ws_server_run e cb [] s = Some s"
| "ws_server_run e cb (i # is) s =
     (case ws_server_step e cb i s of None \<Rightarrow> None | Some s' \<Rightarrow> ws_server_run e cb is s')"

interpretation ws_events: event_runs "ws_server_step e cb" "ws_server_run e cb" for e cb
  by unfold_locales simp_all

section \<open>The ledger of arenas\<close>

definition task_arenas :: "ws_task list \<Rightarrow> nat multiset" where
  "task_arenas ts = mset (map (\<lambda>t. arena (task_request t)) ts)"

definition ws_ok :: "nat set \<Rightarrow> nat multiset \<Rightarrow> 'w ws_world \<Rightarrow> bool" where
  "ws_ok A M w \<longleftrightarrow> pool_ok (ws_pool w) \<and> all_arenas (manager (ws_pool w)) = A \<and>
     task_arenas (ws_tasks w) + mset_set (free_arenas (manager (ws_pool w))) = M"

lemma ws_ok_cong [simp]:
  "ws_ok A M (w\<lparr>pending_frames := v1\<rparr>) = ws_ok A M w" "ws_ok A M (w\<lparr>ws_files := v2\<rparr>) = ws_ok A M w"
  "ws_ok A M (w\<lparr>ws_pool := p, ws_files := v2, ws_tasks := ts\<rparr>) = ws_ok A M (w\<lparr>ws_pool := p, ws_tasks := ts\<rparr>)"
  by (simp_all add: ws_ok_def)

lemma ws_ok_balance:
  "ws_ok A M w \<longleftrightarrow> all_arenas (manager (ws_pool w)) = A \<and> places.balance M (task_arenas (ws_tasks w)) (ws_pool w)"
  by (auto simp: ws_ok_def places.balance_def)

text \<open>Queueing a task for a request that has just been placed.\<close>

lemma ws_ok_place:
  assumes "ws_ok A M w" "place_request now (ws_pool w) = (q, p)"
  shows "case q of None \<Rightarrow> ws_ok A M (w\<lparr>ws_pool := p\<rparr>)
    | Some r \<Rightarrow> \<forall>t. arena (task_request t) = arena r \<longrightarrow> ws_ok A M (w\<lparr>ws_pool := p, ws_tasks := ws_tasks w @ [t]\<rparr>)"
proof -
  have b: "places.balance M (task_arenas (ws_tasks w)) (ws_pool w)" and A: "all_arenas (manager (ws_pool w)) = A"
    using assms(1) by (simp_all add: ws_ok_balance)
  then have ok: "pool_ok (ws_pool w)" by (simp add: places.balance_def)
  show ?thesis
  proof (cases q)
    case None
    then have "take_place now (ws_pool w) = (None, p)" using assms(2) by (simp add: take_place_def)
    with places.balance_refused [OF b this] places.acquire_None [OF ok this] A None show ?thesis
      by (simp add: ws_ok_balance)
  next
    case (Some r)
    then have "take_place now (ws_pool w) = (Some (arena r), p)" using assms(2) by (simp add: take_place_def)
    with places.balance_acquire [OF b this] places.acquire_Some [OF ok this] A Some show ?thesis
      by (simp add: ws_ok_balance task_arenas_def)
  qed
qed

lemma schedule_message_ok: "ws_ok A M w \<Longrightarrow> ws_ok A M (schedule_message now fd op data w)"
  using ws_ok_place [of A M w now]
  by (auto simp: schedule_message_def message_request_def split: prod.split option.split)

lemma form_data_arena: "parse_form_data save dir (r, w) = (r', w') \<Longrightarrow> arena r' = arena r"
  by (auto simp: parse_form_data_def parse_json_form_data_def parse_urlencoded_form_data_def
      parse_multipart_form_data_def Let_def split: option.splits if_splits prod.splits dv.splits)

lemma http_request_arena: "http_request e fd txt bdy (r, w) = (r', w') \<Longrightarrow> arena r' = arena r"
  by (auto simp: http_request_def parse_cookie_header_def parse_query_params_def Let_def dest: form_data_arena
      split: prod.splits)

lemma schedule_http_ok: "ws_ok A M w \<Longrightarrow> ws_ok A M (schedule_http e now fd txt bdy w)"
  using ws_ok_place [of A M w now]
  by (auto simp: schedule_http_def split: prod.split option.split dest: http_request_arena)

lemma ws_act_ok: "ws_ok A M w \<Longrightarrow> ws_act now f (c, w) = (c', w') \<Longrightarrow> ws_ok A M w'"
  by (auto simp: ws_act_def ws_step_def Let_def schedule_message_ok split: if_splits)

lemma frame_loop_ok:
  assumes "frame_loop now buf (c, w) = (en, rest, (c', w'))" "ws_ok A M w"
  shows "ws_ok A M w'"
proof -
  have "ws_ok A M (snd (c', w'))"
  proof (rule ws_loop.run_invariant [where I = "\<lambda>s. ws_ok A M (snd s)", OF assms(1)])
    show "ws_ok A M (snd (c, w))" using assms(2) by simp
    fix f and s s' :: "ws_client \<times> 'a ws_world"
    assume i: "ws_ok A M (snd s)"
    show "ws_step now f s = Inl s' \<Longrightarrow> ws_ok A M (snd s')" by (simp add: ws_step_act)
    show "ws_step now f s = Inr s' \<Longrightarrow> ws_ok A M (snd s')"
      using i ws_act_ok [of A M "snd s" now f "fst s"] by (cases s; cases s') (auto simp: ws_step_act)
  qed
  then show ?thesis by simp
qed

lemma take_http_body_ok: "take_http_body e now (c, w) = (c', w') \<Longrightarrow> ws_ok A M w \<Longrightarrow> ws_ok A M w'"
  by (auto simp: take_http_body_def Let_def schedule_http_ok split: if_splits)

lemma http_phase_ok: "http_phase e now (c, w) = (c', w') \<Longrightarrow> ws_ok A M w \<Longrightarrow> ws_ok A M w'"
  by (auto simp: http_phase_def Let_def split: option.splits if_splits dest: take_http_body_ok)

lemma client_readable_ok:
  assumes "client_readable e now received eof (c, w) = Some (c', w')" "ws_ok A M w"
  shows "ws_ok A M w'"
proof -
  define c1 where "c1 = c\<lparr>ws_in_buf := ws_in_buf c @ received, ws_closed := ws_closed c \<or> eof\<rparr>"
  obtain c2 w2 where 2: "(if \<not> handshake_done c1 then http_phase e now (c1, w) else (c1, w)) = (c2, w2)" by force
  then have ok: "ws_ok A M w2" using assms(2) http_phase_ok by (auto split: if_splits)
  obtain en rest c3 w3 where 3: "frame_loop now (ws_in_buf c2) (c2, w2) = (en, rest, (c3, w3))" by (metis prod_cases4)
  have "w' = w2 \<or> w' = w3"
    using assms(1) 2 3 by (auto simp: client_readable_def c1_def Let_def split: if_splits loop_end.splits)
  then show ?thesis using ok frame_loop_ok [OF 3 ok] by auto
qed

lemma client_event_ok:
  assumes "client_event e now ev (c, w) = Some (c', w')" "ws_ok A M w"
  shows "ws_ok A M w'"
proof -
  define c1 where "c1 = (if ev_hangup ev then c\<lparr>ws_closed := True\<rparr> else c)"
  obtain c2 w2 where 2: "(case ev_input ev of None \<Rightarrow> Some (c1, w) | Some (bs, eof) \<Rightarrow> client_readable e now bs eof (c1, w)) = Some (c2, w2)"
    using assms(1) by (auto simp: client_event_def c1_def Let_def split: option.splits)
  then have "ws_ok A M w2" using assms(2) client_readable_ok by (auto split: option.splits prod.splits)
  moreover have "w' = w2" using assms(1)
    unfolding client_event_def prod.case Let_def c1_def [symmetric] 2 option.case by simp
  ultimately show ?thesis by simp
qed

lemma serve_client_ok:
  "serve_client e now fd ev (clients, w) = Some (clients', w') \<Longrightarrow> ws_ok A M w \<Longrightarrow> ws_ok A M w'"
  by (auto simp: serve_client_def split: option.splits prod.splits dest: client_event_ok)

definition keeps_arena :: "(request \<times> bytes \<times> 's \<Rightarrow> request \<times> bytes \<times> 's) \<Rightarrow> bool" where
  "keeps_arena cb \<longleftrightarrow> (\<forall>r out s. arena (fst (cb (r, out, s))) = arena r)"

lemma answer_keeps_arena: "keeps_arena (answer_request g cfg dr used)"
  by (auto simp: keeps_arena_def answer_request_def Let_def split: prod.split)

lemma run_task_ok:
  assumes cb: "keeps_arena cb" and k: "k < length (ws_tasks w)" and ok: "ws_ok A (mset_set B) w" "B \<subseteq> A"
    and run: "run_task cb (ws_tasks w ! k) (s, w\<lparr>ws_tasks := take k (ws_tasks w) @ drop (Suc k) (ws_tasks w)\<rparr>) = (s', w')"
  shows "ws_ok A (mset_set B) w'"
proof -
  let ?t = "ws_tasks w ! k" and ?rest = "take k (ws_tasks w) @ drop (Suc k) (ws_tasks w)"
  obtain r resp s1 where c: "cb (task_request ?t, [], s) = (r, resp, s1)" by (metis prod_cases3)
  then have a: "arena r = arena (task_request ?t)" using cb by (metis keeps_arena_def fst_conv)
  have "ws_tasks w = take k (ws_tasks w) @ ?t # drop (Suc k) (ws_tasks w)" by (rule id_take_nth_drop [OF k])
  then have t: "task_arenas (ws_tasks w) = add_mset (arena r) (task_arenas ?rest)"
    unfolding task_arenas_def a by (metis (no_types, lifting) add_mset_add_single list.simps(9) map_append mset.simps(2) mset_append union_mset_add_mset_right)
  have b: "places.balance (mset_set B) (add_mset (arena r) (task_arenas ?rest)) (ws_pool w)"
    and A: "all_arenas (manager (ws_pool w)) = A" using ok(1) by (simp_all add: ws_ok_balance t)
  have held: "arena r \<notin> free_arenas (manager (ws_pool w))" "arena r \<in> all_arenas (manager (ws_pool w))"
    using places.balance_held [OF b] ok(2) A by auto
  have "pool_ok (ws_pool w)" using b by (simp add: places.balance_def)
  note given = places.release_law [OF this held(2)]
  have "ws_tasks w' = ?rest" "ws_pool w' = give_place (arena r) (ws_pool w)"
    using run c by (auto simp: run_task_def Let_def drop_request_place)
  then show ?thesis using places.balance_release [OF b held(2,1)] given A by (simp add: ws_ok_balance)
qed

lemma ws_server_step_ok:
  assumes "keeps_arena cb" "ws_server_step e cb i (clients, s, w) = Some (clients', s', w')" "ws_ok A (mset_set B) w" "B \<subseteq> A"
  shows "ws_ok A (mset_set B) w'"
proof (cases i)
  case (Ws_worker k)
  with assms run_task_ok [OF assms(1)] show ?thesis
    by (auto simp: ws_server_step_def split: if_splits prod.splits)
qed (use assms in \<open>auto simp: ws_server_step_def deliver_pending_def split: option.splits prod.splits dest: serve_client_ok\<close>)

lemma ws_server_run_ok:
  "keeps_arena cb \<Longrightarrow> ws_server_run e cb is (clients, s, w) = Some (clients', s', w') \<Longrightarrow> ws_ok A (mset_set B) w \<Longrightarrow>
     B \<subseteq> A \<Longrightarrow> ws_ok A (mset_set B) w'"
  using ws_events.run_invariant [of e cb "is" "(clients, s, w)" "(clients', s', w')" "\<lambda>(_, _, w). ws_ok A (mset_set B) w"]
    ws_server_step_ok [of cb e]
  by (simp add: split_paired_all)

section \<open>The clients' table\<close>

text \<open>What the thread's own operations on a client leave alone.\<close>

definition client_keeps :: "ws_client \<Rightarrow> ws_client \<Rightarrow> bool" where
  "client_keeps c c' \<longleftrightarrow> ws_fd c' = ws_fd c \<and> close_after_write c' = close_after_write c"

lemma client_keeps_refl [simp]: "client_keeps c c"
  by (simp add: client_keeps_def)

lemma client_keeps_trans: "client_keeps a b \<Longrightarrow> client_keeps b c \<Longrightarrow> client_keeps a c"
  by (simp add: client_keeps_def)

lemma take_http_body_keeps: "take_http_body e now (c, w) = (c', w') \<Longrightarrow> client_keeps c c'"
  by (auto simp: take_http_body_def client_keeps_def Let_def split: if_splits)

lemma http_phase_keeps: "http_phase e now (c, w) = (c', w') \<Longrightarrow> client_keeps c c'"
  by (auto simp: http_phase_def Let_def client_keeps_def split: option.splits if_splits
      dest!: take_http_body_keeps)

lemma ws_act_client_keeps: "ws_act now f (c, w) = (c', w') \<Longrightarrow> client_keeps c c'"
  by (auto simp: ws_act_def ws_step_def client_keeps_def Let_def split: if_splits)

lemma frame_loop_keeps:
  assumes "frame_loop now buf (c, w) = (en, rest, (c', w'))"
  shows "client_keeps c c'"
proof -
  have "client_keeps c (fst (c', w'))"
  proof (rule ws_loop.run_invariant [where I = "\<lambda>s. client_keeps c (fst s)", OF assms])
    fix f and s s' :: "ws_client \<times> 'a ws_world"
    assume i: "client_keeps c (fst s)"
    show "ws_step now f s = Inl s' \<Longrightarrow> client_keeps c (fst s')" by (simp add: ws_step_act)
    show "ws_step now f s = Inr s' \<Longrightarrow> client_keeps c (fst s')"
      using client_keeps_trans [OF i] ws_act_client_keeps [of now f "fst s" "snd s"] by (cases s; cases s') (auto simp: ws_step_act)
  qed simp
  then show ?thesis by simp
qed

lemma client_readable_keeps:
  assumes "client_readable e now received eof (c, w) = Some (c', w')"
  shows "client_keeps c c'"
proof -
  define c1 where "c1 = c\<lparr>ws_in_buf := ws_in_buf c @ received, ws_closed := ws_closed c \<or> eof\<rparr>"
  obtain c2 w2 where 2: "(if \<not> handshake_done c1 then http_phase e now (c1, w) else (c1, w)) = (c2, w2)" by force
  obtain en rest c3 w3 where 3: "frame_loop now (ws_in_buf c2) (c2, w2) = (en, rest, (c3, w3))" by (metis prod_cases4)
  have "client_keeps c c1" by (simp add: client_keeps_def c1_def)
  moreover have "client_keeps c1 c2" using 2 http_phase_keeps by (auto split: if_splits)
  moreover have "client_keeps c2 c3" by (rule frame_loop_keeps [OF 3])
  ultimately have "client_keeps c c2" "client_keeps c c3" by (blast intro: client_keeps_trans)+
  moreover have "c' = c2 \<or> c' = c3\<lparr>ws_in_buf := rest\<rparr>"
    using assms 2 3 by (auto simp: client_readable_def c1_def Let_def split: if_splits loop_end.splits)
  ultimately show ?thesis by (auto simp: client_keeps_def)
qed

definition client_ok :: "int \<Rightarrow> ws_client \<Rightarrow> bool" where
  "client_ok fd c \<longleftrightarrow> ws_fd c = fd \<and> \<not> ws_closed c \<and> \<not> close_after_write c \<and> (ws_out_buf c \<noteq> [] \<longrightarrow> ws_want_out c)"

definition clients_ok :: "(int \<times> ws_client) list \<Rightarrow> bool" where
  "clients_ok clients \<longleftrightarrow> (\<forall>fd c. map_of clients fd = Some c \<longrightarrow> client_ok fd c)"

lemma clients_ok_update: "clients_ok clients \<Longrightarrow> client_ok fd c \<Longrightarrow> clients_ok (AList.update fd c clients)"
  by (simp add: clients_ok_def update_conv')

lemma clients_ok_delete: "clients_ok clients \<Longrightarrow> clients_ok (AList.delete fd clients)"
  by (simp add: clients_ok_def delete_conv')

lemma accept_clients_table: "clients_ok clients \<Longrightarrow> clients_ok (accept_clients fds clients)"
proof (induction fds arbitrary: clients)
  case (Cons fd fds)
  then show ?case
    by (auto simp: Let_def clients_ok_def [of clients] client_ok_def new_client_def
        intro!: Cons.IH clients_ok_update split: option.split)
qed simp

lemma deliver_frame_table: "clients_ok clients \<Longrightarrow> clients_ok (deliver_frame pf clients)"
  by (auto simp: deliver_frame_def clients_ok_def [of clients] client_ok_def intro!: clients_ok_update split: option.split)

lemma deliver_frames_table: "clients_ok clients \<Longrightarrow> clients_ok (fold deliver_frame pfs clients)"
  by (induction pfs arbitrary: clients) (simp_all add: deliver_frame_table)

lemma client_output_ok:
  "client_output ev c = Some c' \<Longrightarrow> ws_fd c = fd \<Longrightarrow> \<not> close_after_write c \<Longrightarrow> client_ok fd c'"
  by (auto simp: client_output_def client_ok_def Let_def split: option.splits if_splits)

lemma client_event_table:
  assumes "client_event e now ev (c, w) = Some (Some c', w')" "client_ok fd c"
  shows "client_ok fd c'"
proof -
  define c1 where "c1 = (if ev_hangup ev then c\<lparr>ws_closed := True\<rparr> else c)"
  obtain c2 w2 where 2: "(case ev_input ev of None \<Rightarrow> Some (c1, w) | Some (bs, eof) \<Rightarrow> client_readable e now bs eof (c1, w)) = Some (c2, w2)"
    using assms(1) by (auto simp: client_event_def c1_def Let_def split: option.splits)
  then have "client_keeps c1 c2" using client_readable_keeps by (auto split: option.splits prod.splits)
  moreover have "client_keeps c c1" by (simp add: c1_def client_keeps_def)
  moreover have "client_output ev c2 = Some c'" using assms(1)
    unfolding client_event_def prod.case Let_def c1_def [symmetric] 2 option.case by simp
  ultimately show ?thesis using assms(2) by (intro client_output_ok) (auto simp: client_keeps_def client_ok_def)
qed

lemma serve_client_table:
  assumes "serve_client e now fd ev (clients, w) = Some (clients', w')" "clients_ok clients"
  shows "clients_ok clients'"
proof (cases "map_of clients fd")
  case (Some c)
  then have c: "client_ok fd c" using assms(2) by (simp add: clients_ok_def)
  from Some assms show ?thesis
    by (auto simp: serve_client_def clients_ok_delete intro!: clients_ok_update client_event_table [OF _ c]
        split: option.splits prod.splits)
qed (use assms in \<open>simp add: serve_client_def\<close>)

lemma ws_server_step_table:
  "ws_server_step e cb i (clients, s, w) = Some (clients', s', w') \<Longrightarrow> clients_ok clients \<Longrightarrow> clients_ok clients'"
  by (cases i) (auto simp: ws_server_step_def deliver_pending_def accept_clients_table deliver_frames_table
      split: option.splits prod.splits if_splits dest: serve_client_table)

section \<open>Answers\<close>

lemma starts_with_crlf:
  assumes "starts_with (x @ crlf @ z) pat" "CHR 0x0D \<notin> set pat"
  shows "starts_with (x @ crlf) pat"
proof (cases "length pat \<le> length x")
  case True
  with assms(1) show ?thesis by (simp add: starts_with_def)
next
  case False
  then have "(x @ crlf @ z) ! length x = pat ! length x"
    using assms(1) by (metis starts_with_def leI nth_take)
  then have "CHR 0x0D \<in> set pat" using False by (metis append_Cons leI nth_append_length nth_mem)
  with assms(2) show ?thesis by simp
qed

lemma build_ws_frame_nonempty: "build_ws_frame op data \<noteq> []"
  by (simp add: build_ws_frame_def Let_def)

lemma http_payload_answer:
  assumes "list_all (\<lambda>c. c \<noteq> [] \<and> length c < 65536) chunks" "string_of (concat chunks) = output_headers r @ bod"
    and "\<not> starts_with (output_headers r) ''HTTP/''"
  shows "http_payload r (encode_records (response_records i chunks)) =
    bytes_of (''HTTP/1.1 200 OK'' @ crlf @ ''Content-Type: '' @
      (case dv_find ''Content-Type'' (headers r) of Some (STRING s) \<Rightarrow> s | _ \<Rightarrow> ''text/plain; charset=utf-8'') @
      crlf @ ''Content-Length: '' @ show_nat (length (output_headers r @ bod)) @ crlf @ ''Connection: close'' @ crlf @ crlf @
      output_headers r @ bod)"
proof -
  obtain x where x: "output_headers r = x @ crlf" by (simp add: output_headers_def)
  have "\<not> starts_with (output_headers r @ bod) ''HTTP/''"
    using starts_with_crlf [of x bod "''HTTP/''"] assms(3) by (auto simp: x)
  then show ?thesis
    unfolding http_payload_def decode_stdout_chunks [OF assms(1)] snd_conv append_Nil assms(2) Let_def
    by (simp only: if_False append_assoc)
qed

lemma run_task_answer:
  assumes "\<not> has RESPONDED (task_request t)" "\<not> starts_with (output_headers (task_request t)) ''HTTP/''"
  shows "\<exists>r chunks fs. string_of (concat chunks) = output_headers r @ response_text g r \<and>
    body r = body (task_request t) \<and> headers r = headers (task_request t) \<and>
    run_task (answer_request g cfg dr used) t ((d, st), w) =
      (fs, w\<lparr>pending_frames := pending_frames w @ [(task_fd t,
          case t of
            Message_task fd op _ \<Rightarrow> build_ws_frame op (encode_records (response_records (req_id r) chunks))
          | Http_task fd _ \<Rightarrow>
              bytes_of (''HTTP/1.1 200 OK'' @ crlf @ ''Content-Type: '' @
                (case dv_find ''Content-Type'' (headers r) of Some (STRING s) \<Rightarrow> s | _ \<Rightarrow> ''text/plain; charset=utf-8'') @
                crlf @ ''Content-Length: '' @ show_nat (length (output_headers r @ response_text g r)) @ crlf @
                ''Connection: close'' @ crlf @ crlf @ output_headers r @ response_text g r))],
        ws_pool := drop_request (task_request t) (ws_pool w)\<rparr>)"
proof -
  let ?q = "task_request t"
  obtain chunks r fs where a: "answer_request g cfg dr used (?q, [], d, st) =
      (r, [] @ encode_records (response_records (req_id ?q) chunks), fs)"
    "r = set_flag RESPONDED (?q\<lparr>env := dv_put ''DBG_ARENA_ALLOC'' (make_number (double_of_int (int used))) (env ?q)\<rparr>)"
    "concat chunks = bytes_of (output_headers ?q @ response_text g r)"
    "list_all (\<lambda>c. c \<noteq> [] \<and> length c < 65536) chunks"
    by (rule answer_request_records [OF assms(1), of g cfg dr used "[]" d st])
  have r: "headers r = headers ?q" "req_id r = req_id ?q" "body r = body ?q" "drop_request r = drop_request ?q"
    "output_headers r = output_headers ?q"
    by (simp_all add: a(2) set_flag_def drop_request_def output_headers_def fun_eq_iff)
  have txt_eq: "string_of (concat chunks) = output_headers r @ response_text g r"
    unfolding a(3) r(5) by (rule string_of_bytes_of)
  note pay = http_payload_answer [OF a(4) txt_eq assms(2) [folded r(5)], of "req_id r"]
  have ne: "encode_records (response_records (req_id r) chunks) \<noteq> []"
    by (simp add: response_records_def encode_records_def encode_record_def append_record_def header_bytes_def)
  have run: "run_task (answer_request g cfg dr used) t ((d, st), w) =
      (fs, w\<lparr>pending_frames := pending_frames w @ [(task_fd t,
          case t of
            Message_task fd op _ \<Rightarrow> build_ws_frame op (encode_records (response_records (req_id r) chunks))
          | Http_task fd _ \<Rightarrow> http_payload r (encode_records (response_records (req_id r) chunks)))],
        ws_pool := drop_request ?q (ws_pool w)\<rparr>)"
    using a(1) ne [unfolded r(2)] build_ws_frame_nonempty r(2,4)
    by (cases t) (simp_all add: run_task_def Let_def)
  show ?thesis
    by (rule exI [of _ r], rule exI [of _ chunks], rule exI [of _ fs], intro conjI txt_eq r(1,3))
      (simp only: run pay)
qed

section \<open>Properties\<close>

text \<open>Arenas are accounted for: in every run of the WebSocket server, whatever the clients send, each
  arena of the pool is free or holds the request of exactly one task that is queued; messages and
  requests that find no arena are dropped without one.\<close>

theorem ws_arenas_accounted:
  assumes "keeps_arena cb" "pool_ok (ws_pool w)" "free_arenas (manager (ws_pool w)) = all_arenas (manager (ws_pool w))"
    and "ws_tasks w = []" "ws_server_run e cb is ([], s, w) = Some (clients, s', w')"
  shows "let held = map (\<lambda>t. arena (task_request t)) (ws_tasks w') in
    distinct held \<and> set held \<inter> free_arenas (manager (ws_pool w')) = {} \<and>
    set held \<union> free_arenas (manager (ws_pool w')) = all_arenas (manager (ws_pool w))"
proof -
  let ?A = "all_arenas (manager (ws_pool w))"
  have "ws_ok ?A (mset_set ?A) w" using assms(2-4) by (simp add: ws_ok_def task_arenas_def)
  from ws_server_run_ok [OF assms(1,5) this subset_refl]
  have "places.balance (mset_set ?A) (mset (map (\<lambda>t. arena (task_request t)) (ws_tasks w'))) (ws_pool w')"
    by (simp only: ws_ok_balance task_arenas_def)
  from places.balance_split [OF this] show ?thesis by (simp only: Let_def all_arenas_def finite_Collect_less_nat simp_thms)
qed

theorem ws_arenas_accounted_witness:
  "\<exists>clients s' w'. ws_server_run demo_env (answer_request default_config demo_config
        \<lparr>dr_opened = True, dr_cut_off = None, dr_mtime = 5, dr_wall = 5, dr_now = 10\<rparr> 64)
      [Ws_accepted [5], Ws_wakeup] ([], (Map.empty, empty_store), demo_world) = Some (clients, s', w') \<and>
    (let held = map (\<lambda>t. arena (task_request t)) (ws_tasks w') in
      distinct held \<and> set held \<inter> free_arenas (manager (ws_pool w')) = {} \<and>
      set held \<union> free_arenas (manager (ws_pool w')) = all_arenas (manager demo_pool))"
proof -
  let ?cb = "answer_request default_config demo_config
        \<lparr>dr_opened = True, dr_cut_off = None, dr_mtime = 5, dr_wall = 5, dr_now = 10\<rparr> 64"
  have p: "pool_ok (ws_pool demo_world)" "free_arenas (manager (ws_pool demo_world)) = all_arenas (manager (ws_pool demo_world))"
    "ws_tasks demo_world = []"
    by (simp_all add: demo_world_def demo_pool_ok) (simp add: demo_pool_def free_all_created)
  obtain clients s' w' where "ws_server_run demo_env ?cb [Ws_accepted [5], Ws_wakeup] ([], (Map.empty, empty_store), demo_world) =
      Some (clients, s', w')"
    by (simp add: ws_server_step_def deliver_pending_def)
  moreover from ws_arenas_accounted [OF answer_keeps_arena p this]
  have "let held = map (\<lambda>t. arena (task_request t)) (ws_tasks w') in
      distinct held \<and> set held \<inter> free_arenas (manager (ws_pool w')) = {} \<and>
      set held \<union> free_arenas (manager (ws_pool w')) = all_arenas (manager demo_pool)" by (simp only: demo_world_def ws_world.simps)
  ultimately show ?thesis by blast
qed

text \<open>C25: what a client of the WebSocket port is answered, with the callback that \<open>main\<close> passes: an HTTP
  request gets a 200 response whose length field is right and whose body is the printed request
  preceded by its header lines; a message gets one frame with its opcode, but the payload of the
  frame is the FastCGI records themselves.\<close>

theorem task_answered:
  assumes "\<not> has RESPONDED (task_request t)" "\<not> starts_with (output_headers (task_request t)) ''HTTP/''"
  shows "\<exists>r chunks fs. string_of (concat chunks) = output_headers r @ response_text g r \<and>
    body r = body (task_request t) \<and> headers r = headers (task_request t) \<and>
    run_task (answer_request g cfg dr used) t ((d, st), w) =
      (fs, w\<lparr>pending_frames := pending_frames w @ [(task_fd t,
          case t of
            Message_task fd op _ \<Rightarrow> build_ws_frame op (encode_records (response_records (req_id r) chunks))
          | Http_task fd _ \<Rightarrow>
              bytes_of (''HTTP/1.1 200 OK'' @ crlf @ ''Content-Type: '' @
                (case dv_find ''Content-Type'' (headers r) of Some (STRING s) \<Rightarrow> s | _ \<Rightarrow> ''text/plain; charset=utf-8'') @
                crlf @ ''Content-Length: '' @ show_nat (length (output_headers r @ response_text g r)) @ crlf @
                ''Connection: close'' @ crlf @ crlf @ output_headers r @ response_text g r))],
        ws_pool := drop_request (task_request t) (ws_pool w)\<rparr>)"
  using assms by (rule run_task_answer)

theorem task_answered_witness:
  "\<exists>r chunks fs. string_of (concat chunks) = output_headers r @ response_text default_config r \<and>
    body r = [] \<and> headers r = headers (request_new 0 0) \<and>
    run_task (answer_request default_config demo_config
        \<lparr>dr_opened = True, dr_cut_off = None, dr_mtime = 5, dr_wall = 5, dr_now = 10\<rparr> 64)
      (Message_task 5 1 (request_new 0 0)) ((Map.empty, empty_store), demo_world) =
      (fs, demo_world\<lparr>pending_frames := [(5, build_ws_frame 1 (encode_records (response_records (req_id r) chunks)))],
        ws_pool := drop_request (request_new 0 0) demo_pool\<rparr>)"
proof -
  let ?t = "Message_task 5 1 (request_new 0 0)"
  have h: "\<not> has RESPONDED (task_request ?t)" "\<not> starts_with (output_headers (task_request ?t)) ''HTTP/''"
    by (simp_all add: has_def request_new_def output_headers_def starts_with_def dv_members_def)
  show ?thesis
    using task_answered [OF h, of default_config demo_config
        "\<lparr>dr_opened = True, dr_cut_off = None, dr_mtime = 5, dr_wall = 5, dr_now = 10\<rparr>" 64 Map.empty empty_store demo_world]
    by (simp add: task_fd_def demo_world_def request_new_def)
qed

text \<open>C26: nothing that is to be sent is forgotten: in every run of the WebSocket server each client on the
  table goes by its own descriptor, has not been closed, and while bytes wait in its output buffer the
  event that says it can be written to is asked for. \<open>close_after_write\<close> is never set.\<close>

theorem waiting_output_is_awaited:
  assumes "ws_server_run e cb is ([], s, w) = Some (clients, s', w')" "map_of clients fd = Some c"
  shows "ws_fd c = fd \<and> \<not> ws_closed c \<and> \<not> close_after_write c \<and> (ws_want_out c \<or> ws_out_buf c = [])"
proof -
  have "case (clients, s', w') of (clients, _) \<Rightarrow> clients_ok clients"
    by (rule ws_events.run_invariant [where I = "\<lambda>(clients, _). clients_ok clients", OF assms(1)])
      (use ws_server_step_table in \<open>auto simp: clients_ok_def [of "[]"]\<close>)
  with assms(2) show ?thesis by (auto simp: clients_ok_def client_ok_def)
qed

theorem waiting_output_is_awaited_witness:
  "\<exists>c. ws_server_run demo_env (\<lambda>x. x) [Ws_accepted [5], Ws_wakeup]
      ([], (), demo_world\<lparr>pending_frames := [(5, [1, 2])]\<rparr>) =
        Some ([(5, c)], (), demo_world\<lparr>pending_frames := []\<rparr>) \<and>
    ws_out_buf c = [1, 2] \<and> (ws_want_out c \<or> ws_out_buf c = [])"
proof -
  let ?c = "(new_client 5)\<lparr>ws_out_buf := [1, 2], ws_want_out := True\<rparr>"
  have run: "ws_server_run demo_env (\<lambda>x. x) [Ws_accepted [5], Ws_wakeup]
      ([], (), demo_world\<lparr>pending_frames := [(5, [1, 2])]\<rparr>) = Some ([(5, ?c)], (), demo_world\<lparr>pending_frames := []\<rparr>)"
    by (simp add: ws_server_step_def deliver_pending_def deliver_frame_def new_client_def)
  from waiting_output_is_awaited [OF run, of 5 ?c] run show ?thesis by (intro exI [of _ ?c]) simp
qed

end
