(* ===== verification/Worker.thy ===== *)
theory Worker
  imports Prelude "HOL-Library.Sublist"
begin

text \<open>
  worker.h and worker.cpp: the pool of threads that run the requests. The state has the queue, the
  two flags and where each thread of the pool is in \<open>run\<close>; a step is one action on the shared state,
  so every interleaving of the threads is a path. The mutex is held by the thread that is between
  taking it and giving it back. \<open>enqueue\<close> takes no lock: its test of \<open>stopping\<close>, its push and its
  notification are three steps, and other threads may come between them (the push itself, which is
  a data race in C++, is taken as one step). A sleeping thread may wake without a notification.
\<close>

datatype 'task worker =
    Locking
  | Testing
  | Blocking
  | Asleep
  | Serving
  | Running 'task
  | Done

record 'task worker_pool =
  wq :: "'task list"
  wp_running :: bool
  wp_stopping :: bool
  workers :: "'task worker list"
  entering :: "'task list"
  notifying :: nat

text \<open>What was pushed, what was taken, and what was pushed after the pool was told to stop.\<close>

record 'task pool_log =
  pushed :: "'task list"
  started :: "'task list"
  late :: "'task list"

definition new_pool :: "'task worker_pool" where
  "new_pool = \<lparr>wq = [], wp_running = False, wp_stopping = False, workers = [], entering = [], notifying = 0\<rparr>"

definition holds_mutex :: "'task worker \<Rightarrow> bool" where
  "holds_mutex t \<longleftrightarrow> t = Testing \<or> t = Blocking \<or> t = Serving"

definition mutex_free :: "'task worker_pool \<Rightarrow> bool" where
  "mutex_free p \<longleftrightarrow> list_all (\<lambda>t. \<not> holds_mutex t) (workers p)"

section \<open>The operations\<close>

text \<open>\<open>start\<close> holds the mutex throughout.\<close>

definition start_pool :: "nat \<Rightarrow> 'task worker_pool \<Rightarrow> 'task worker_pool" where
  "start_pool thread_count p =
     (if wp_running p \<or> thread_count = 0 then p
      else p\<lparr>wp_stopping := False, wp_running := True, workers := workers p @ replicate thread_count Locking\<rparr>)"

text \<open>The three steps of \<open>enqueue\<close>, and the whole of it when nothing comes between.\<close>

definition enqueue_test :: "'task \<Rightarrow> 'task worker_pool \<Rightarrow> bool \<times> 'task worker_pool" where
  "enqueue_test t p = (if wp_stopping p then (False, p) else (True, p\<lparr>entering := entering p @ [t]\<rparr>))"

definition enqueue_push :: "'task \<Rightarrow> 'task worker_pool \<Rightarrow> 'task worker_pool" where
  "enqueue_push t p = p\<lparr>wq := wq p @ [t], entering := remove1 t (entering p), notifying := notifying p + 1\<rparr>"

definition wake :: "nat \<Rightarrow> 'task worker_pool \<Rightarrow> 'task worker_pool" where
  "wake i p = (if i < length (workers p) \<and> workers p ! i = Asleep then p\<lparr>workers := (workers p)[i := Locking]\<rparr> else p)"

definition notify_one :: "nat \<Rightarrow> 'task worker_pool \<Rightarrow> 'task worker_pool" where
  "notify_one i p = (wake i p)\<lparr>notifying := notifying p - 1\<rparr>"

definition enqueue :: "'task \<Rightarrow> nat \<Rightarrow> 'task worker_pool \<Rightarrow> bool \<times> 'task worker_pool" where
  "enqueue t i p =
     (case enqueue_test t p of
        (False, p1) \<Rightarrow> (False, p1)
      | (True, p1) \<Rightarrow> (True, notify_one i (enqueue_push t p1)))"

text \<open>The first section of \<open>shutdown\<close>, under the lock, its notification, and what follows the joins.\<close>

definition shutdown_flag :: "'task worker_pool \<Rightarrow> 'task worker_pool" where
  "shutdown_flag p = (if wp_running p then p\<lparr>wp_stopping := True\<rparr> else p)"

definition notify_all :: "'task worker_pool \<Rightarrow> 'task worker_pool" where
  "notify_all p = p\<lparr>workers := map (\<lambda>t. if t = Asleep then Locking else t) (workers p)\<rparr>"

definition shutdown_clear :: "'task worker_pool \<Rightarrow> 'task worker_pool" where
  "shutdown_clear p = p\<lparr>workers := [], wp_running := False, wq := []\<rparr>"

text \<open>One action of a thread in \<open>run\<close>; the second result is the task it takes.\<close>

definition worker_move :: "nat \<Rightarrow> 'task worker_pool \<Rightarrow> ('task worker_pool \<times> 'task option) option" where
  "worker_move i p =
     (let become = (\<lambda>t. p\<lparr>workers := (workers p)[i := t]\<rparr>)
      in case workers p ! i of
           Locking \<Rightarrow> if mutex_free p then Some (become Testing, None) else None
         | Testing \<Rightarrow> Some (if wp_stopping p \<or> wq p \<noteq> [] then become Serving else become Blocking, None)
         | Blocking \<Rightarrow> Some (become Asleep, None)
         | Asleep \<Rightarrow> Some (become Locking, None)
         | Serving \<Rightarrow>
             (if wp_stopping p \<and> wq p = [] then Some (become Done, None)
              else case wq p of
                     [] \<Rightarrow> None
                   | t # ts \<Rightarrow> Some ((become (Running t))\<lparr>wq := ts\<rparr>, Some t))
         | Running t \<Rightarrow> Some (become Locking, None)
         | Done \<Rightarrow> None)"

section \<open>All interleavings\<close>

inductive pool_run :: "nat \<Rightarrow> 'task worker_pool \<Rightarrow> 'task pool_log \<Rightarrow> bool" for n where
  run_start: "pool_run n (start_pool n new_pool) \<lparr>pushed = [], started = [], late = []\<rparr>"
| run_test: "pool_run n p lg \<Longrightarrow> pool_run n (snd (enqueue_test t p)) lg"
| run_push: "pool_run n p lg \<Longrightarrow> t \<in> set (entering p) \<Longrightarrow>
    pool_run n (enqueue_push t p)
      (lg\<lparr>pushed := pushed lg @ [t], late := if wp_stopping p then late lg @ [t] else late lg\<rparr>)"
| run_notify: "pool_run n p lg \<Longrightarrow> 0 < notifying p \<Longrightarrow>
    workers p ! i = Asleep \<and> i < length (workers p) \<or> Asleep \<notin> set (workers p) \<Longrightarrow> pool_run n (notify_one i p) lg"
| run_stop: "pool_run n p lg \<Longrightarrow> mutex_free p \<Longrightarrow> pool_run n (shutdown_flag p) lg"
| run_notify_all: "pool_run n p lg \<Longrightarrow> wp_stopping p \<Longrightarrow> pool_run n (notify_all p) lg"
| run_worker: "pool_run n p lg \<Longrightarrow> i < length (workers p) \<Longrightarrow> worker_move i p = Some (p', taken) \<Longrightarrow>
    pool_run n p' (lg\<lparr>started := started lg @ (case taken of None \<Rightarrow> [] | Some t \<Rightarrow> [t])\<rparr>)"

section \<open>Invariants\<close>

definition holders :: "'task worker list \<Rightarrow> nat" where
  "holders ts = length (filter holds_mutex ts)"

lemma holders_update:
  "i < length ts \<Longrightarrow> holders (ts[i := t]) + (if holds_mutex (ts ! i) then 1 else 0) =
     holders ts + (if holds_mutex t then 1 else 0)"
proof (induction ts arbitrary: i)
  case (Cons x ts)
  then show ?case by (cases i) (auto simp: holders_def)
qed simp

lemma holders_free: "mutex_free p \<longleftrightarrow> holders (workers p) = 0"
  by (simp add: mutex_free_def holders_def filter_empty_conv list_all_iff)

lemma holds_simps [simp]:
  "\<not> holds_mutex Locking" "holds_mutex Testing" "holds_mutex Blocking" "\<not> holds_mutex Asleep"
  "holds_mutex Serving" "\<not> holds_mutex (Running t)" "\<not> holds_mutex Done"
  by (simp_all add: holds_mutex_def)

text \<open>Only one thread at a time is between taking the mutex and giving it back.\<close>

lemma sole_holder:
  assumes "holders ts \<le> 1" "i < length ts" "j < length ts" "holds_mutex (ts ! i)" "holds_mutex (ts ! j)"
  shows "i = j"
proof (rule ccontr)
  assume ne: "i \<noteq> j"
  have "holders (ts[i := Done]) + 1 = holders ts" using holders_update [OF assms(2), of Done] assms(4) by simp
  moreover have "holders (ts[i := Done, j := Done]) + 1 = holders (ts[i := Done])"
    using holders_update [of j "ts[i := Done]" Done] assms(3,5) ne by simp
  ultimately show False using assms(1) by simp
qed

definition pool_inv :: "'task worker_pool \<Rightarrow> 'task pool_log \<Rightarrow> bool" where
  "pool_inv p lg \<longleftrightarrow>
     pushed lg = started lg @ wq p \<and> holders (workers p) \<le> 1 \<and>
     (Serving \<in> set (workers p) \<longrightarrow> wp_stopping p \<or> wq p \<noteq> []) \<and>
     (Done \<in> set (workers p) \<longrightarrow> wp_stopping p \<and> suffix (wq p) (late lg)) \<and>
     suffix (late lg) (started lg @ wq p) \<and> (late lg \<noteq> [] \<longrightarrow> wp_stopping p)"

lemma pool_inv_workers:
  assumes "pool_inv p lg" "holders ts \<le> 1"
    and "Serving \<in> set ts \<longrightarrow> Serving \<in> set (workers p) \<or> wp_stopping p \<or> wq p \<noteq> []"
    and "Done \<in> set ts \<longrightarrow> Done \<in> set (workers p) \<or> wp_stopping p \<and> wq p = []"
  shows "pool_inv (p\<lparr>workers := ts\<rparr>) lg"
  using assms by (auto simp: pool_inv_def)

lemma in_update: "x \<in> set (ts[i := t]) \<Longrightarrow> x = t \<or> x \<in> set ts"
  using set_update_subset_insert by fast

lemma pool_inv_become:
  assumes "pool_inv p lg" "i < length (workers p)" "holds_mutex t \<longrightarrow> holds_mutex (workers p ! i) \<or> mutex_free p"
    and "t = Serving \<longrightarrow> wp_stopping p \<or> wq p \<noteq> []" "t = Done \<longrightarrow> wp_stopping p \<and> wq p = []"
  shows "pool_inv (p\<lparr>workers := (workers p)[i := t]\<rparr>) lg"
proof (rule pool_inv_workers [OF assms(1)])
  show "holders ((workers p)[i := t]) \<le> 1"
    using holders_update [OF assms(2), of t] assms(1,3) by (auto simp: pool_inv_def holders_free split: if_splits)
qed (use assms(4,5) in \<open>auto dest: in_update\<close>)

lemma pool_inv_take:
  assumes "pool_inv p lg" "i < length (workers p)" "workers p ! i = Serving" "wq p = t # ts"
  shows "pool_inv (p\<lparr>workers := (workers p)[i := Running t], wq := ts\<rparr>) (lg\<lparr>started := started lg @ [t]\<rparr>)"
proof -
  have h: "holders ((workers p)[i := Running t]) + 1 = holders (workers p)"
    using holders_update [OF assms(2), of "Running t"] assms(3) by simp
  then have z: "holders ((workers p)[i := Running t]) = 0" using assms(1) by (simp add: pool_inv_def)
  have "Serving \<notin> set ((workers p)[i := Running t])"
    using z by (auto simp: holders_def filter_empty_conv)
  moreover have "suffix ts (late lg)" if "suffix (t # ts) (late lg)" using that by (metis suffix_ConsD)
  moreover have "Done \<in> set ((workers p)[i := Running t]) \<Longrightarrow> Done \<in> set (workers p)" by (auto dest: in_update)
  ultimately show ?thesis using assms(1,4) z by (auto simp: pool_inv_def)
qed

lemma pool_inv_move:
  assumes "pool_inv p lg" "i < length (workers p)" "worker_move i p = Some (p', taken)"
  shows "pool_inv p' (lg\<lparr>started := started lg @ (case taken of None \<Rightarrow> [] | Some t \<Rightarrow> [t])\<rparr>)"
proof (cases "workers p ! i")
  case Serving
  show ?thesis
  proof (cases "wq p")
    case Nil
    then show ?thesis using assms Serving pool_inv_become [OF assms(1,2), of Done]
      by (auto simp: worker_move_def Let_def split: if_splits)
  next
    case (Cons t ts)
    then have "p' = p\<lparr>workers := (workers p)[i := Running t], wq := ts\<rparr>" "taken = Some t"
      using assms(3) Serving by (auto simp: worker_move_def Let_def)
    then show ?thesis using pool_inv_take [OF assms(1,2) Serving Cons] by simp
  qed
next
  case Testing
  then show ?thesis using assms pool_inv_become [OF assms(1,2), of Serving] pool_inv_become [OF assms(1,2), of Blocking]
    by (auto simp: worker_move_def Let_def split: if_splits)
qed (use assms pool_inv_become [OF assms(1,2), of Locking] pool_inv_become [OF assms(1,2), of Testing]
      pool_inv_become [OF assms(1,2), of Asleep] in \<open>auto simp: worker_move_def Let_def split: if_splits\<close>)

lemma pool_inv_wake: "pool_inv p lg \<Longrightarrow> pool_inv (wake i p) lg"
  using pool_inv_become [of p lg i Locking] by (simp add: wake_def)

lemma pool_inv_cong: "pool_inv p lg \<Longrightarrow> wq p' = wq p \<Longrightarrow> workers p' = workers p \<Longrightarrow> wp_stopping p' = wp_stopping p \<Longrightarrow>
    pool_inv p' lg"
  by (simp add: pool_inv_def)

lemma pool_inv_push:
  "pool_inv p lg \<Longrightarrow> pool_inv (enqueue_push t p)
     (lg\<lparr>pushed := pushed lg @ [t], late := if wp_stopping p then late lg @ [t] else late lg\<rparr>)"
proof -
  assume i: "pool_inv p lg"
  then have l: "suffix (late lg) (started lg @ wq p)" "late lg \<noteq> [] \<Longrightarrow> wp_stopping p" by (simp_all add: pool_inv_def)
  have "suffix (if wp_stopping p then late lg @ [t] else late lg) ((started lg @ wq p) @ [t])"
    using l by (cases "wp_stopping p") (simp only: if_True same_suffix_suffix, force)
  moreover have "Done \<in> set (workers p) \<Longrightarrow> suffix (wq p @ [t]) (late lg @ [t])"
    using i unfolding same_suffix_suffix by (simp add: pool_inv_def)
  ultimately show ?thesis using i unfolding pool_inv_def
    by (simp add: enqueue_push_def) blast
qed

lemma wake_simps [simp]: "wq (wake i p) = wq p" "wp_stopping (wake i p) = wp_stopping p"
  by (simp_all add: wake_def)

lemma pool_run_inv: "pool_run n p lg \<Longrightarrow> pool_inv p lg"
proof (induction rule: pool_run.induct)
  case run_start
  show ?case by (simp add: pool_inv_def start_pool_def new_pool_def holders_def)
next
  case (run_test p lg t)
  then show ?case by (auto simp: enqueue_test_def elim!: pool_inv_cong)
next
  case (run_push p lg t)
  then show ?case by (intro pool_inv_push)
next
  case (run_notify p lg i)
  then show ?case using pool_inv_wake [of p lg i] by (simp add: notify_one_def pool_inv_def)
next
  case (run_stop p lg)
  then show ?case by (auto simp: shutdown_flag_def pool_inv_def)
next
  case (run_notify_all p lg)
  have "holders (map (\<lambda>t. if t = Asleep then Locking else t) ts) = holders ts" for ts :: "'a worker list"
    by (induction ts) (auto simp: holders_def)
  with run_notify_all show ?case unfolding notify_all_def
    by (intro pool_inv_workers) (auto simp: pool_inv_def)
next
  case (run_worker p lg i p' taken)
  then show ?case by (intro pool_inv_move)
qed

section \<open>Leaving\<close>

text \<open>How many more moves a thread and a task can cost once the pool has been told to stop.\<close>

fun worker_cost :: "'task worker \<Rightarrow> nat" where
  "worker_cost Done = 0"
| "worker_cost Serving = 1"
| "worker_cost Testing = 2"
| "worker_cost Locking = 3"
| "worker_cost (Running t) = 4"
| "worker_cost Asleep = 4"
| "worker_cost Blocking = 5"

definition pool_cost :: "'task worker_pool \<Rightarrow> nat" where
  "pool_cost p = sum_list (map worker_cost (workers p)) + 4 * length (wq p)"

lemma cost_update:
  "i < length ts \<Longrightarrow> sum_list (map worker_cost (ts[i := t])) + worker_cost (ts ! i) = sum_list (map worker_cost ts) + worker_cost t"
proof (induction ts arbitrary: i)
  case (Cons x ts)
  then show ?case by (cases i) auto
qed simp

lemma move_costs:
  assumes "i < length (workers p)" "wp_stopping p" "worker_move i p = Some (p', taken)"
  shows "pool_cost p' < pool_cost p \<and> wp_stopping p' \<and> length (workers p') = length (workers p) \<and>
    (Asleep \<in> set (workers p') \<or> Blocking \<in> set (workers p') \<longrightarrow> Asleep \<in> set (workers p) \<or> Blocking \<in> set (workers p))"
proof -
  have up: "sum_list (map worker_cost ((workers p)[i := t])) + worker_cost (workers p ! i) =
      sum_list (map worker_cost (workers p)) + worker_cost t" for t
    by (rule cost_update [OF assms(1)])
  have sub: "set ((workers p)[i := t]) \<subseteq> insert t (set (workers p))" for t by (rule set_update_subset_insert)
  have mem: "workers p ! i \<in> set (workers p)" using assms(1) by simp
  show ?thesis
  proof (cases "workers p ! i")
    case Serving
    show ?thesis
    proof (cases "wq p")
      case Nil
      then show ?thesis using assms Serving up [of Done] sub [of Done]
        by (auto simp: worker_move_def pool_cost_def Let_def)
    next
      case (Cons t ts)
      then show ?thesis using assms Serving up [of "Running t"] sub [of "Running t"]
        by (auto simp: worker_move_def pool_cost_def Let_def)
    qed
  qed (use assms up [of Locking] up [of Testing] up [of Serving] up [of Asleep] sub [of Locking] sub [of Testing]
        sub [of Serving] sub [of Asleep] mem in \<open>auto simp: worker_move_def pool_cost_def Let_def split: if_splits\<close>)
qed

lemma someone_moves:
  assumes "wp_stopping p" "Asleep \<notin> set (workers p)" "\<not> list_all (\<lambda>t. t = Done) (workers p)"
  shows "\<exists>i<length (workers p). worker_move i p \<noteq> None"
proof (cases "mutex_free p")
  case False
  then obtain i where "i < length (workers p)" "holds_mutex (workers p ! i)"
    by (auto simp: mutex_free_def list_all_iff in_set_conv_nth)
  then show ?thesis using assms(1)
    by (intro exI [of _ i]) (auto simp: holds_mutex_def worker_move_def Let_def neq_Nil_conv)
next
  case True
  from assms(3) obtain i where i: "i < length (workers p)" "workers p ! i \<noteq> Done"
    by (auto simp: list_all_iff in_set_conv_nth)
  moreover from i assms(2) have "workers p ! i \<noteq> Asleep" by (metis nth_mem)
  moreover from i True have "\<not> holds_mutex (workers p ! i)" by (auto simp: mutex_free_def list_all_iff)
  ultimately show ?thesis using True
    by (intro exI [of _ i]) (cases "workers p ! i"; auto simp: holds_mutex_def worker_move_def Let_def)
qed

text \<open>The threads moving in a given order, as long as the next one can.\<close>

fun moves :: "nat list \<Rightarrow> 'task worker_pool \<Rightarrow> 'task worker_pool option" where
  "moves [] p = Some p"
| "moves (i # is) p =
     (if i < length (workers p) then
        (case worker_move i p of None \<Rightarrow> None | Some (p', _) \<Rightarrow> moves is p')
      else None)"

lemma moves_cost:
  "wp_stopping p \<Longrightarrow> Asleep \<notin> set (workers p) \<Longrightarrow> Blocking \<notin> set (workers p) \<Longrightarrow> moves is p = Some p' \<Longrightarrow>
     length is + pool_cost p' \<le> pool_cost p \<and> wp_stopping p' \<and> Asleep \<notin> set (workers p')"
proof (induction "is" arbitrary: p)
  case (Cons i js)
  then obtain q taken where q: "i < length (workers p)" "worker_move i p = Some (q, taken)" "moves js q = Some p'"
    by (auto split: if_splits option.splits)
  then show ?case using Cons.IH [of q] move_costs [OF q(1) Cons.prems(1) q(2)] Cons.prems(2,3) by auto
qed simp

lemma stopping_not_blocking: "pool_run n p lg \<Longrightarrow> wp_stopping p \<Longrightarrow> Blocking \<notin> set (workers p)"
proof (induction rule: pool_run.induct)
  case (run_stop p lg)
  then have "Blocking \<notin> set (workers p)" by (auto simp: mutex_free_def list_all_iff)
  then show ?case by (simp add: shutdown_flag_def)
next
  case (run_worker p lg i p' taken)
  have st: "wp_stopping p' = wp_stopping p" using run_worker.hyps(3)
    by (auto simp: worker_move_def Let_def split: worker.splits list.splits if_splits)
  then show ?case using run_worker
    by (auto simp: worker_move_def Let_def dest: in_update split: worker.splits list.splits if_splits)
qed (auto simp: start_pool_def new_pool_def enqueue_test_def enqueue_push_def notify_one_def wake_def notify_all_def
    dest: in_update split: if_splits)

section \<open>Properties\<close>

text \<open>C6: whatever the interleaving of enqueuing threads, workers and shutdown, the tasks are taken in the
  order they were pushed, each once, and what was pushed and not taken is in the queue; only one
  worker at a time holds the mutex, and none takes the front of an empty queue.\<close>

theorem tasks_in_order:
  assumes "pool_run n p lg"
  shows "pushed lg = started lg @ wq p \<and> holders (workers p) \<le> 1 \<and>
    (wq p = [] \<and> \<not> wp_stopping p \<longrightarrow> Serving \<notin> set (workers p))"
  using pool_run_inv [OF assms] by (auto simp: pool_inv_def)

lemma run_worker_to:
  "pool_run n p lg \<Longrightarrow> i < length (workers p) \<Longrightarrow> worker_move i p = Some (p', taken) \<Longrightarrow>
     lg' = lg\<lparr>started := started lg @ (case taken of None \<Rightarrow> [] | Some t \<Rightarrow> [t])\<rparr> \<Longrightarrow> pool_run n p' lg'"
  using run_worker [of n p lg i p' taken] by simp

lemma one_worker_takes:
  "pool_run 1 \<lparr>wq = [], wp_running = True, wp_stopping = False, workers = [Running t], entering = [], notifying = 1\<rparr>
     \<lparr>pushed = [t], started = [t], late = []\<rparr>"
proof -
  let ?p = "\<lambda>q w e k. \<lparr>wq = q, wp_running = True, wp_stopping = False, workers = [w], entering = e, notifying = k\<rparr>"
  let ?l = "\<lambda>a b. \<lparr>pushed = a, started = b, late = []\<rparr>"
  have "pool_run 1 (?p [] Locking [] 0) (?l [] [])"
    using run_start [of 1] by (simp add: start_pool_def new_pool_def)
  then have "pool_run 1 (?p [] Locking [t] 0) (?l [] [])"
    using run_test [of 1 "?p [] Locking [] 0" "?l [] []" t] by (simp add: enqueue_test_def)
  then have "pool_run 1 (?p [t] Locking [] 1) (?l [t] [])"
    using run_push [of 1 "?p [] Locking [t] 0" "?l [] []" t] by (simp add: enqueue_push_def)
  then have "pool_run 1 (?p [t] Testing [] 1) (?l [t] [])"
    by (rule run_worker_to [where i = 0], simp, simp add: worker_move_def mutex_free_def, simp)
  then have "pool_run 1 (?p [t] Serving [] 1) (?l [t] [])"
    by (rule run_worker_to [where i = 0], simp, simp add: worker_move_def, simp)
  then show ?thesis by (rule run_worker_to [where i = 0], simp, simp add: worker_move_def, simp)
qed

theorem tasks_in_order_witness:
  "\<exists>p lg. pool_run 1 p lg \<and> pushed lg = [7::nat] \<and> workers p = [Running 7] \<and>
     pushed lg = started lg @ wq p \<and> holders (workers p) \<le> 1 \<and>
     Serving \<notin> set (workers p)"
  using one_worker_takes [of "7::nat"] tasks_in_order [OF one_worker_takes [of "7::nat"]]
  by (intro exI [of _ "\<lparr>wq = [], wp_running = True, wp_stopping = False, workers = [Running 7], entering = [], notifying = 1\<rparr>"]
      exI [of _ "\<lparr>pushed = [7], started = [7], late = []\<rparr>"]) simp

text \<open>C15: as soon as a worker has left, all that was pushed before the pool was told to stop has been
  taken; what \<open>shutdown\<close> throws away with the queue was pushed after that.\<close>

theorem shutdown_drains:
  assumes "pool_run n p lg" "Done \<in> set (workers p)"
  shows "wp_stopping p \<and> (\<exists>early. pushed lg = early @ late lg \<and> prefix early (started lg)) \<and> suffix (wq p) (late lg)"
proof -
  have i: "pushed lg = started lg @ wq p" "wp_stopping p" "suffix (wq p) (late lg)" "suffix (late lg) (started lg @ wq p)"
    using pool_run_inv [OF assms(1)] assms(2) by (auto simp: pool_inv_def)
  obtain u where u: "late lg = u @ wq p" using i(3) by (auto simp: suffix_def)
  obtain early where e: "started lg @ wq p = early @ late lg" using i(4) by (auto simp: suffix_def)
  then have "started lg = early @ u" unfolding u by simp
  then show ?thesis using i e by auto
qed

lemma one_worker_leaves:
  "pool_run 1 \<lparr>wq = [], wp_running = True, wp_stopping = True, workers = [Done], entering = [], notifying = 1\<rparr>
     \<lparr>pushed = [t], started = [t], late = []\<rparr>"
proof -
  let ?p = "\<lambda>b w. \<lparr>wq = [], wp_running = True, wp_stopping = b, workers = [w], entering = [], notifying = 1\<rparr>"
  let ?l = "\<lparr>pushed = [t], started = [t], late = []\<rparr>"
  have "pool_run 1 (?p True (Running t)) ?l"
    using run_stop [OF one_worker_takes [of t]] by (simp add: shutdown_flag_def mutex_free_def)
  then have "pool_run 1 (?p True Locking) ?l"
    by (rule run_worker_to [where i = 0], simp, simp add: worker_move_def, simp)
  then have "pool_run 1 (?p True Testing) ?l"
    by (rule run_worker_to [where i = 0], simp, simp add: worker_move_def mutex_free_def, simp)
  then have "pool_run 1 (?p True Serving) ?l"
    by (rule run_worker_to [where i = 0], simp, simp add: worker_move_def, simp)
  then show ?thesis by (rule run_worker_to [where i = 0], simp, simp add: worker_move_def, simp)
qed

theorem shutdown_drains_witness:
  "\<exists>p lg. pool_run 1 p lg \<and> workers p = [Done] \<and> pushed lg = [7::nat] \<and> wp_stopping p \<and>
     (\<exists>early. pushed lg = early @ late lg \<and> prefix early (started lg)) \<and> suffix (wq p) (late lg)"
  using one_worker_leaves [of "7::nat"] shutdown_drains [OF one_worker_leaves [of "7::nat"]]
  by (intro exI [of _ "\<lparr>wq = [], wp_running = True, wp_stopping = True, workers = [Done], entering = [], notifying = 1\<rparr>"]
      exI [of _ "\<lparr>pushed = [7], started = [7], late = []\<rparr>"]) simp

text \<open>C16: \<open>shutdown\<close> returns: once the workers have been told to stop and woken, and as long as nothing more
  is pushed, every move of a worker costs at least one of a bounded number of moves, and some worker
  can move until all have left, in whatever order they are scheduled.\<close>

theorem shutdown_terminates:
  assumes "pool_run n p lg" "wp_stopping p" "moves is (notify_all p) = Some p'"
  shows "length is \<le> pool_cost (notify_all p) \<and>
    (list_all (\<lambda>t. t = Done) (workers p') \<or> (\<exists>i<length (workers p'). worker_move i p' \<noteq> None))"
proof -
  have "Blocking \<notin> set (workers (notify_all p))" using stopping_not_blocking [OF assms(1,2)]
    by (auto simp: notify_all_def)
  then have m: "length is + pool_cost p' \<le> pool_cost (notify_all p) \<and> wp_stopping p' \<and> Asleep \<notin> set (workers p')"
    using assms(2,3) by (intro moves_cost) (auto simp: notify_all_def)
  then show ?thesis using someone_moves [of p'] by auto
qed

theorem shutdown_terminates_witness:
  "let p = \<lparr>wq = [], wp_running = True, wp_stopping = True, workers = [Running (7::nat)], entering = [], notifying = 1\<rparr> in
   (\<exists>p'. moves [0, 0, 0, 0] (notify_all p) = Some p' \<and> list_all (\<lambda>t. t = Done) (workers p')) \<and>
   length [0, 0, 0, 0 :: nat] \<le> pool_cost (notify_all p)"
proof -
  let ?p = "\<lparr>wq = [], wp_running = True, wp_stopping = True, workers = [Running (7::nat)], entering = [], notifying = 1\<rparr>"
  have r: "pool_run 1 ?p \<lparr>pushed = [7], started = [7], late = []\<rparr>"
    using run_stop [OF one_worker_takes [of 7]] by (simp add: shutdown_flag_def mutex_free_def)
  have m: "moves [0, 0, 0, 0] (notify_all ?p) = Some (?p\<lparr>workers := [Done]\<rparr>)"
    by (simp add: worker_move_def notify_all_def mutex_free_def)
  have "length [0, 0, 0, 0 :: nat] \<le> pool_cost (notify_all ?p)"
    using shutdown_terminates [OF r _ m] by simp
  with m show ?thesis by (simp add: Let_def)
qed

text \<open>C39: because \<open>enqueue\<close> does not take the mutex, its notification can fall between a worker's test of
  the queue and its going to sleep: the task then lies in the queue with every worker asleep, no
  notification under way and nobody told to stop, until another task comes or a worker wakes by
  itself.\<close>

theorem wakeup_lost:
  "\<exists>p lg. pool_run 1 p lg \<and> wq p = [t] \<and> workers p = [Asleep] \<and> entering p = [] \<and> notifying p = 0 \<and>
     \<not> wp_stopping p"
proof -
  let ?p = "\<lambda>q w e k. \<lparr>wq = q, wp_running = True, wp_stopping = False, workers = [w], entering = e, notifying = k\<rparr>"
  let ?l = "\<lambda>a. \<lparr>pushed = a, started = [], late = []\<rparr>"
  have "pool_run 1 (?p [] Locking [] 0) (?l [])"
    using run_start [of 1] by (simp add: start_pool_def new_pool_def)
  then have "pool_run 1 (?p [] Testing [] 0) (?l [])"
    by (rule run_worker_to [where i = 0], simp, simp add: worker_move_def mutex_free_def, simp)
  then have "pool_run 1 (?p [] Blocking [] 0) (?l [])"
    by (rule run_worker_to [where i = 0], simp, simp add: worker_move_def, simp)
  then have "pool_run 1 (?p [] Blocking [t] 0) (?l [])"
    using run_test [of 1 "?p [] Blocking [] 0" "?l []" t] by (simp add: enqueue_test_def)
  then have "pool_run 1 (?p [t] Blocking [] 1) (?l [t])"
    using run_push [of 1 "?p [] Blocking [t] 0" "?l []" t] by (simp add: enqueue_push_def)
  then have "pool_run 1 (?p [t] Blocking [] 0) (?l [t])"
    using run_notify [of 1 "?p [t] Blocking [] 1" "?l [t]" 0] by (simp add: notify_one_def wake_def)
  then have "pool_run 1 (?p [t] Asleep [] 0) (?l [t])"
    by (rule run_worker_to [where i = 0], simp, simp add: worker_move_def, simp)
  then show ?thesis by (intro exI [of _ "?p [t] Asleep [] 0"] exI [of _ "?l [t]"]) simp
qed

end
