(* ===== verification/System.thy ===== *)
theory System
  imports Serving Wsruns Worker
begin

text \<open>
  The program that \<open>main\<close> in wasapi-server.cpp puts together: the FastCGI server and the WebSocket
  server, each with a thread and an event loop of its own, over one \<open>global_arena_manager\<close>, one pool
  of workers, one file cache and disk, and one callback \<open>on_request_ready\<close>. An event of one server, or
  a task of one of them, is a step of the whole; steps interleave in any order.
\<close>

section \<open>Starting\<close>

text \<open>
  \<open>main\<close> up to the start of the two threads: the configuration, the pool of arenas and the workers.
  \<open>malloc\<close>, the contents of the memory and the layout of the class \<open>Request\<close> are the platform's.
\<close>

record platform =
  pl_malloc :: "nat \<Rightarrow> size_t"
  pl_ram :: mem
  pl_request_size :: size_t
  pl_request_align :: size_t

definition lines_text :: "string list \<Rightarrow> string" where
  "lines_text ls = concat (map (\<lambda>l. l @ [CHR 0x0A]) ls)"

definition usage :: "string \<Rightarrow> string" where
  "usage prog = lines_text
     [''Usage: '' @ prog @ '' [options]'',
      [],
      ''Options:'',
      ''  --fcgi-port N                TCP port (default 9000)'',
      ''  --fcgi-socket PATH           alt. UNIX socket path for FastCGI'',
      ''  --ws-port N                  WebSocket port (default 9001)'',
      ''  --ws-socket PATH             alt. UNIX socket path for WebSocket'']"

text \<open>The last component is what is written to the error output.\<close>

definition initialize_server_config :: "string list \<Rightarrow> global_config \<Rightarrow> parse_end \<times> global_config \<times> string" where
  "initialize_server_config argv g =
     (case config_parse_args argv g [] of
        (Returned False, g', errors) \<Rightarrow> (Returned False, g', lines_text errors @ usage (hd argv))
      | (how, g', errors) \<Rightarrow> (how, g', []))"

definition main_setup :: "platform \<Rightarrow> string list \<Rightarrow> (global_config \<times> request_pool \<times> 'task worker_pool) option" where
  "main_setup pl argv =
     (case initialize_server_config argv default_config of
        (Returned True, g, messages) \<Rightarrow>
          Some (g,
            \<lparr>manager = create_arenas (pl_malloc pl) (ucast (max_in_flight g)) (arena_capacity g), ram = pl_ram pl,
             request_size = pl_request_size pl, request_align = pl_request_align pl\<rparr>,
            start_pool (unat (max_in_flight g)) new_pool)
      | _ \<Rightarrow> None)"

section \<open>The two servers together\<close>

text \<open>
  The arenas, the disk and the cache are kept in the FastCGI server's state; the WebSocket server's
  state has its own queue entries, frames and clients.
\<close>

record system =
  fcgi :: server
  ws_clients :: "(int \<times> ws_client) list"
  ws_queue :: "ws_task list"
  ws_frames :: "(int \<times> bytes) list"

definition initial_system :: "server_env \<Rightarrow> request_pool \<Rightarrow> files_world \<Rightarrow> system" where
  "initial_system e p fw = \<lparr>fcgi = initial_server e p fw, ws_clients = [], ws_queue = [], ws_frames = []\<rparr>"

definition ws_view :: "system \<Rightarrow> (files_world, files_world) ws_server" where
  "ws_view y = (ws_clients y, disk_files (fcgi y),
     \<lparr>ws_pool = pool (fcgi y), ws_tasks = ws_queue y, pending_frames = ws_frames y, ws_files = disk_files (fcgi y)\<rparr>)"

definition ws_store :: "files_world \<Rightarrow> (int \<times> ws_client) list \<Rightarrow> files_world ws_world \<Rightarrow> system \<Rightarrow> system" where
  "ws_store fw clients w y =
     \<lparr>fcgi = (fcgi y)\<lparr>pool := ws_pool w, disk_files := fw\<rparr>, ws_clients = clients, ws_queue = ws_tasks w,
      ws_frames = pending_frames w\<rparr>"

datatype system_event =
    Fcgi "fcgi_event \<times> sent list"
  | Ws ws_input

text \<open>A task of the WebSocket server leaves the files as its callback does, its events as saving uploads does.\<close>

definition system_step :: "server_env \<Rightarrow> files_world ws_env \<Rightarrow> system_event \<Rightarrow> system \<Rightarrow> system option" where
  "system_step se we ev y =
     (case ev of
        Fcgi x \<Rightarrow> (case server_step se x (fcgi y) of None \<Rightarrow> None | Some s \<Rightarrow> Some (y\<lparr>fcgi := s\<rparr>))
      | Ws i \<Rightarrow>
          (case ws_server_step we (user_request_ready se) i (ws_view y) of
             None \<Rightarrow> None
           | Some (clients, fw, w) \<Rightarrow>
               Some (ws_store (case i of Ws_worker k \<Rightarrow> fw | _ \<Rightarrow> ws_files w) clients w y)))"

text \<open>
  What epoll can report to the FastCGI server: descriptors that are registered. Reading the eventfd
  and the timer, and running tasks, is always possible.
\<close>

fun reported :: "server_env \<Rightarrow> system_event \<Rightarrow> system \<Rightarrow> bool" where
  "reported se (Fcgi (Accepted fds, rs)) y = (map_of (interest (fcgi y)) (listen_fd se) \<noteq> None)"
| "reported se (Fcgi (Io now fd events received eof, rs)) y = (map_of (interest (fcgi y)) fd \<noteq> None)"
| "reported se ev y = True"

inductive system_run :: "server_env \<Rightarrow> files_world ws_env \<Rightarrow> system \<Rightarrow> system \<Rightarrow> bool" for se we y where
  run_refl: "system_run se we y y"
| run_step: "system_run se we y y' \<Longrightarrow> reported se ev y' \<Longrightarrow> system_step se we ev y' = Some y'' \<Longrightarrow> system_run se we y y''"

lemma system_run_trans: "system_run se we y' y'' \<Longrightarrow> system_run se we y y' \<Longrightarrow> system_run se we y y''"
  by (induction rule: system_run.induct) (auto intro: run_step)

lemma system_run_one: "reported se ev y \<Longrightarrow> system_step se we ev y = Some y' \<Longrightarrow> system_run se we y y'"
  by (blast intro: system_run.intros)

lemmas [program_defs] = system_step_def ws_server_step_def ws_view_def ws_store_def

section \<open>The arenas of the program\<close>

text \<open>What is left of a set of arenas counted once is a set counted once.\<close>

lemma part_of_set:
  assumes "M + N = mset_set A"
  shows "M = mset_set (set_mset M)" "set_mset M \<subseteq> A"
proof -
  have le: "count M x \<le> 1" for x
    using count_mset_set_le [of A x] arg_cong [OF assms, of "\<lambda>m. count m x"] by simp
  show "M = mset_set (set_mset M)"
    by (rule multiset_eqI) (use le in \<open>metis count_eq_zero_iff count_greater_eq_one_iff count_mset_set(1,3) finite_set_mset le_antisym\<close>)
  show "set_mset M \<subseteq> A"
  proof
    fix x assume "x \<in> set_mset M"
    then have "x \<in># mset_set A" using assms by (metis union_iff)
    then show "x \<in> A" by (metis count_eq_zero_iff count_mset_set(2,3))
  qed
qed

definition system_ok :: "nat set \<Rightarrow> system \<Rightarrow> bool" where
  "system_ok A y \<longleftrightarrow> server_ok A (ledger (fcgi y)) (fcgi y) \<and> ledger (fcgi y) + task_arenas (ws_queue y) = mset_set A"

lemma keeps_place_arena: "keeps_place cb \<Longrightarrow> keeps_arena cb"
  by (simp add: keeps_place_def keeps_arena_def same_place_def)

lemma system_step_ok:
  assumes "keeps_place (user_request_ready se)" "system_step se we ev y = Some y'" "system_ok A y"
  shows "system_ok A y'"
proof (cases ev)
  case (Fcgi x)
  then obtain s where s: "server_step se x (fcgi y) = Some s" "y' = y\<lparr>fcgi := s\<rparr>"
    using assms(2) by (auto simp: system_step_def split: option.splits)
  have sum: "ledger (fcgi y) + task_arenas (ws_queue y) = mset_set A" using assms(3) by (simp add: system_ok_def)
  have "whole A (set_mset (ledger (fcgi y))) (fcgi y)"
    using assms(3) part_of_set(1) [OF sum] by (simp add: system_ok_def)
  from server_step_ok [OF assms(1) s(1) this] have "server_ok A (ledger (fcgi y)) s"
    unfolding part_of_set(1) [OF sum, symmetric] .
  moreover from this have "ledger s = ledger (fcgi y)" by (simp add: server_ok_def)
  ultimately show ?thesis using sum s(2) by (simp add: system_ok_def)
next
  case (Ws i)
  obtain clients fw w where w: "ws_server_step we (user_request_ready se) i (ws_view y) = Some (clients, fw, w)"
    and y': "y' = ws_store (case i of Ws_worker k \<Rightarrow> fw | _ \<Rightarrow> ws_files w) clients w y"
    using assms(2) Ws by (auto simp: system_step_def split: option.splits)
  let ?cs = "conn_arenas (conns (fcgi y))" and ?free = "\<lambda>p. mset_set (free_arenas (manager p))"
  let ?w = "snd (snd (ws_view y))"
  define M where "M = task_arenas (ws_queue y) + ?free (pool (fcgi y))"
  have sum: "M + ?cs = mset_set A"
    using assms(3) by (simp add: M_def system_ok_def ledger_def ac_simps)
  have "ws_ok A M ?w" using assms(3) by (simp add: ws_ok_def ws_view_def M_def system_ok_def server_ok_def)
  then have "ws_ok A (mset_set (set_mset M)) ?w" unfolding part_of_set(1) [OF sum, symmetric] .
  from ws_server_step_ok [OF keeps_place_arena [OF assms(1)] _ this part_of_set(2) [OF sum]] w
  have "ws_ok A (mset_set (set_mset M)) w" by (metis prod.collapse)
  then have ok: "ws_ok A M w" unfolding part_of_set(1) [OF sum, symmetric] .
  have "server_ok A (ledger (fcgi y')) (fcgi y')"
    using assms(3) ok by (simp add: y' ws_store_def system_ok_def server_ok_def ws_ok_def)
  moreover have "ledger (fcgi y') + task_arenas (ws_queue y') = mset_set A"
    unfolding sum [symmetric] using ok by (auto simp: y' ws_store_def ledger_def ws_ok_def ac_simps)
  ultimately show ?thesis by (simp add: system_ok_def)
qed

lemma system_run_ok:
  "system_run se we y y' \<Longrightarrow> keeps_place (user_request_ready se) \<Longrightarrow> system_ok A y \<Longrightarrow> system_ok A y'"
  by (induction rule: system_run.induct) (auto dest: system_step_ok)

lemma initial_system_ok:
  "pool_ok p \<Longrightarrow> free_arenas (manager p) = all_arenas (manager p) \<Longrightarrow>
     system_ok (all_arenas (manager p)) (initial_system e p fw)"
  by (simp add: system_ok_def initial_system_def server_ok_def initial_server_def ledger_def conn_arenas_def umap_ok_def
      task_arenas_def)

section \<open>A server that accepts no more\<close>

text \<open>
  Accepting is resumed where the FastCGI server gives an arena back. With accepting paused and no
  FastCGI request alive there is nothing left to give back; the WebSocket server's requests are
  given back without a look at the listening socket.
\<close>

definition deaf :: "server_env \<Rightarrow> server \<Rightarrow> bool" where
  "deaf se s \<longleftrightarrow> accept_paused s \<and> conns s = [] \<and> fcgi_tasks s = [] \<and> pending_output s = [] \<and>
     map_of (interest s) (listen_fd se) = None"

lemma deaf_step:
  assumes "reported se ev y" "system_step se we ev y = Some y'" "deaf se (fcgi y)"
  shows "deaf se (fcgi y')"
proof (cases ev)
  case (Fcgi x)
  obtain i rs where x: "x = (i, rs)" by force
  then obtain s' where "server_step se (i, rs) (fcgi y) = Some s'" "fcgi y' = s'"
    using assms(2) Fcgi by (auto simp: system_step_def split: option.splits)
  then show ?thesis using assms(1,3) Fcgi x
    by (cases i) (auto simp: deaf_def handler_defs)
next
  case (Ws i)
  with assms(2,3) show ?thesis
    by (auto simp: system_step_def ws_store_def deaf_def split: option.splits)
qed

lemma deaf_run: "system_run se we y y' \<Longrightarrow> deaf se (fcgi y) \<Longrightarrow> deaf se (fcgi y')"
  by (induction rule: system_run.induct) (auto dest: deaf_step)

lemma no_arena_left: "pool_ok p \<Longrightarrow> free_arenas (manager p) = {} \<Longrightarrow> available_count (manager p) = 0"
proof -
  assume a: "pool_ok p" "free_arenas (manager p) = {}"
  then have "filter Not (in_use (manager p)) = []"
    by (auto simp: pool_ok_def manager_ok_def free_arenas_def filter_empty_conv in_set_conv_nth)
  then show ?thesis using a(1) by (simp add: pool_ok_def manager_ok_def unat_eq_zero)
qed

lemma accept_when_full:
  assumes "pool_ok (pool s)" "free_arenas (manager (pool s)) = {}" "\<not> accept_paused s"
    and "conns s = []" "fcgi_tasks s = []" "pending_output s = []"
  shows "\<exists>s'. server_step se (Accepted fds, rs) s = Some s' \<and> deaf se s' \<and> pool s' = pool s"
  using assms(3-6) no_arena_left [OF assms(1,2)]
  by (simp add: handler_defs pause_accept_def modify_listen_interest_def deaf_def delete_conv')

text \<open>The workers run what the WebSocket server has queued.\<close>

lemma run_task_queue: "run_task cb t (s, w) = (s', w') \<Longrightarrow> ws_tasks w' = ws_tasks w"
  by (auto simp: run_task_def Let_def split: prod.splits)

lemma drain:
  "ws_queue y = ts \<Longrightarrow> \<exists>y'. system_run se we y y' \<and> ws_queue y' = [] \<and> conns (fcgi y') = conns (fcgi y)"
proof (induction ts arbitrary: y)
  case Nil
  then show ?case by (blast intro: run_refl)
next
  case (Cons t ts)
  let ?w = "snd (snd (ws_view y))"
  obtain fw w where w: "run_task (user_request_ready se) t (disk_files (fcgi y), ?w\<lparr>ws_tasks := ts\<rparr>) = (fw, w)" by (meson surj_pair)
  have q: "ws_tasks w = ts" using run_task_queue [OF w] by simp
  obtain y1 where y1: "system_step se we (Ws (Ws_worker 0)) y = Some y1" "ws_queue y1 = ts" "conns (fcgi y1) = conns (fcgi y)"
    using Cons.prems w q by (simp add: program_defs)
  have "system_run se we y y1" using y1(1) by (intro system_run_one) simp_all
  with Cons.IH [OF y1(2)] y1(3) show ?case by (metis system_run_trans)
qed

lemma unat_wider: "unat (ucast (x :: u32) :: size_t) = unat x"
proof -
  have "unat x < 2 ^ 64" by (rule less_le_trans [OF unsigned_less]) simp
  then show ?thesis by (simp add: unsigned_ucast_eq take_bit_nat_eq_self_iff)
qed

text \<open>C2: arenas are accounted for across the program: from the start that \<open>main\<close> makes, however the events of
  the two servers and the tasks of the workers interleave, each arena is free, or holds the request
  of exactly one entry of one FastCGI connection, or that of exactly one queued WebSocket task; so no
  request of one server ever lives in the memory of a request of the other.\<close>

theorem program_arenas_accounted:
  assumes "main_setup pl argv = Some (g, p, ws)" "pool_ok p" "keeps_place (user_request_ready se)"
    and "system_run se we (initial_system se p fw) y"
  shows "let held = concat (map (\<lambda>(fd, c). map (\<lambda>(i, r). arena r) (c_requests c)) (conns (fcgi y)));
             queued = map (\<lambda>t. arena (task_request t)) (ws_queue y);
             free = free_arenas (manager (pool (fcgi y)))
    in distinct (held @ queued) \<and> set (held @ queued) \<inter> free = {} \<and>
       set (held @ queued) \<union> free = {..<unat (max_in_flight g)}"
proof -
  let ?A = "all_arenas (manager p)"
  let ?held = "concat (map (\<lambda>(fd, c). map (\<lambda>(i, r). arena r) (c_requests c)) (conns (fcgi y)))"
  let ?queued = "map (\<lambda>t. arena (task_request t)) (ws_queue y)"
  have m: "manager p = create_arenas (pl_malloc pl) (ucast (max_in_flight g)) (arena_capacity g)"
    using assms(1) by (auto simp: main_setup_def initialize_server_config_def split: prod.splits parse_end.splits bool.splits)
  then have p: "free_arenas (manager p) = ?A" "?A = {..<unat (max_in_flight g)}"
    by (auto simp: free_all_created) (simp_all add: all_arenas_def create_arenas_def unat_wider)
  have "system_ok ?A y"
    by (rule system_run_ok [OF assms(4,3)]) (rule initial_system_ok [OF assms(2) p(1)])
  then have "places.balance (mset_set ?A) (mset (?held @ ?queued)) (pool (fcgi y))"
    by (simp add: system_ok_def server_ok_def places.balance_def ledger_def conn_arenas_concat task_arenas_def ac_simps)
  from places.balance_split [OF this] show ?thesis
    unfolding Let_def p(2) [symmetric] by (simp add: all_arenas_def)
qed

text \<open>C8: the FastCGI server can be silenced through the WebSocket port: when all arenas hold WebSocket or HTTP
  requests and no FastCGI connection is open, the next FastCGI client makes it stop listening; after
  the workers are through and every arena is free again, it still does not listen, and never will,
  whatever happens.\<close>

theorem fastcgi_silenced:
  assumes "keeps_place (user_request_ready se)" "system_ok A y" "free_arenas (manager (pool (fcgi y))) = {}"
    and "conns (fcgi y) = []" "fcgi_tasks (fcgi y) = []" "pending_output (fcgi y) = []" "\<not> accept_paused (fcgi y)"
  shows "\<exists>y1 y2. system_step se we (Fcgi (Accepted fds, rs)) y = Some y1 \<and> system_run se we y1 y2 \<and>
    ws_queue y2 = [] \<and> free_arenas (manager (pool (fcgi y2))) = A \<and>
    (\<forall>y3. system_run se we y2 y3 \<longrightarrow>
      accept_paused (fcgi y3) \<and> conns (fcgi y3) = [] \<and> map_of (interest (fcgi y3)) (listen_fd se) = None)"
proof -
  have "pool_ok (pool (fcgi y))" using assms(2) by (simp add: system_ok_def server_ok_def)
  from accept_when_full [OF this assms(3,7,4-6)] obtain s' where
    s': "server_step se (Accepted fds, rs) (fcgi y) = Some s'" "deaf se s'" by blast
  define y1 where "y1 = y\<lparr>fcgi := s'\<rparr>"
  have y1: "system_step se we (Fcgi (Accepted fds, rs)) y = Some y1" "deaf se (fcgi y1)"
    using s' by (simp_all add: system_step_def y1_def)
  obtain y2 where y2: "system_run se we y1 y2" "ws_queue y2 = []" "conns (fcgi y2) = conns (fcgi y1)"
    using drain [of y1 _ se we] by blast
  have "system_ok A y2" using system_run_ok [OF y2(1) assms(1)] system_step_ok [OF assms(1) y1(1) assms(2)] by blast
  then have "mset_set (free_arenas (manager (pool (fcgi y2)))) = mset_set A"
    using y1(2) y2(2,3) by (simp add: system_ok_def ledger_def conn_arenas_def task_arenas_def deaf_def)
  moreover have "finite A" using \<open>system_ok A y2\<close> whole_finite by (auto simp: system_ok_def)
  ultimately have "free_arenas (manager (pool (fcgi y2))) = A" by (metis finite_free finite_set_mset_mset_set)
  moreover have "deaf se (fcgi y3)" if "system_run se we y2 y3" for y3
    using deaf_run [OF that] deaf_run [OF y2(1) y1(2)] by blast
  ultimately show ?thesis using y1(1) y2(1,2) unfolding deaf_def by blast
qed

text \<open>A client that sends plain HTTP requests, one after the other on one connection.\<close>

definition get_event :: ws_event where
  "get_event = \<lparr>ev_hangup = False, ev_input = Some (bytes_of get_text, False), ev_output = None, ev_flush = []\<rparr>"

definition http_client :: "ws_client \<Rightarrow> bool" where
  "http_client c \<longleftrightarrow> \<not> handshake_done c \<and> \<not> ws_closed c \<and> \<not> close_after_write c \<and> ws_in_buf c = [] \<and>
     http_content_length c = 0 \<and> (\<exists>rest. in_http c @ get_text = get_text @ rest)"

lemma get_text_plain: "header_block get_text" "websocket_key get_text = None" "content_length_loop get_text 0 0 = 0"
  by (simp_all add: get_text_def header_block_def websocket_key_def str_find_def starts_with_def content_length_loop.simps
      str_find_char_def substr_def lower_def tolower_def Let_def)

lemma http_taken:
  assumes "has_cbhttp we" "map_of (ws_clients y) fd = Some c" "http_client c"
    and "pool_ok (pool (fcgi y))" "free_arenas (manager (pool (fcgi y))) \<noteq> {}"
  shows "\<exists>y' c' p r. system_step se we (Ws (Ws_io now fd get_event)) y = Some y' \<and>
    map_of (ws_clients y') fd = Some c' \<and> http_client c' \<and> ws_queue y' = ws_queue y @ [r] \<and>
    p \<in> free_arenas (manager (pool (fcgi y))) \<and> pool_ok (pool (fcgi y')) \<and>
    free_arenas (manager (pool (fcgi y'))) = free_arenas (manager (pool (fcgi y))) - {p} \<and>
    conns (fcgi y') = conns (fcgi y) \<and> fcgi_tasks (fcgi y') = fcgi_tasks (fcgi y) \<and>
    pending_output (fcgi y') = pending_output (fcgi y) \<and> accept_paused (fcgi y') = accept_paused (fcgi y)"
proof -
  obtain rest where rest: "in_http c @ get_text = get_text @ rest" using assms(3) by (auto simp: http_client_def)
  obtain p w where P: "place_request now (pool (fcgi y)) = (Some (request_new p now), w)" "pool_ok w"
    "p \<in> free_arenas (manager (pool (fcgi y)))" "free_arenas (manager w) = free_arenas (manager (pool (fcgi y))) - {p}"
    by (rule place_request_free [OF assms(4,5), of now]) blast
  define c1 where "c1 = c\<lparr>in_http := get_text @ rest, http_mode := True, http_headers_parsed := True\<rparr>"
  let ?c2 = "c1\<lparr>ws_out_buf := send_all [] (ws_out_buf c1), ws_want_out := send_all [] (ws_out_buf c1) \<noteq> []\<rparr>"
  let ?w = "snd (snd (ws_view y))"
  obtain r f where r: "http_request we (ws_fd c) (get_text @ rest) [] (request_new p now, disk_files (fcgi y)) = (r, f)" by (meson surj_pair)
  have "client_readable we now (bytes_of get_text) False (c, ?w) =
      Some (take_http_body we now (c1\<lparr>ws_in_buf := bytes_of rest\<rparr>, ?w))"
    using client_readable_http [of c get_text "bytes_of get_text" rest we now False ?w] assms(3) get_text_plain rest
    by (cases c) (simp add: http_client_def c1_def)
  also have "take_http_body we now (c1\<lparr>ws_in_buf := bytes_of rest\<rparr>, ?w) =
      (c1, ?w\<lparr>ws_pool := w, ws_tasks := ws_queue y @ [Http_task (ws_fd c) r], ws_files := f\<rparr>)"
    using assms(1,3) P(1) r
    by (cases c) (simp add: take_http_body_def c1_def http_client_def schedule_http_def ws_view_def)
  finally have read: "client_readable we now (bytes_of get_text) False (c, ?w) =
      Some (c1, ?w\<lparr>ws_pool := w, ws_tasks := ws_queue y @ [Http_task (ws_fd c) r], ws_files := f\<rparr>)" .
  have c1: "http_client (c1\<lparr>ws_out_buf := b, ws_want_out := x\<rparr>)" for b x
    using assms(3) rest by (auto simp: c1_def http_client_def)
  have "client_event we now get_event (c, ?w) = Some (Some ?c2,
      ?w\<lparr>ws_pool := w, ws_tasks := ws_queue y @ [Http_task (ws_fd c) r], ws_files := f\<rparr>)"
    using read c1 [where b = "ws_out_buf c1" and x = False] by (simp add: client_event_def client_output_def get_event_def http_client_def Let_def)
  then have "system_step se we (Ws (Ws_io now fd get_event)) y =
      Some (ws_store f (AList.update fd ?c2 (ws_clients y))
        (?w\<lparr>ws_pool := w, ws_tasks := ws_queue y @ [Http_task (ws_fd c) r], ws_files := f\<rparr>) y)"
    using assms(2) by (simp add: system_step_def ws_server_step_def serve_client_def ws_view_def)
  then show ?thesis using P c1 by (auto simp: ws_store_def update_conv')
qed

definition demo_ws_env :: "files_world ws_env" where
  "demo_ws_env = \<lparr>ws_config = default_config, has_cbhttp = True, sha1 = (\<lambda>_. replicate 20 0), ws_saver = (\<lambda>_ _ w. (None, w))\<rparr>"

lemma demo_client_accepted:
  "\<exists>y. system_step se demo_ws_env (Ws (Ws_accepted [5])) (initial_system se p fw) = Some y \<and>
     (\<exists>c. map_of (ws_clients y) 5 = Some c \<and> http_client c) \<and> ws_queue y = [] \<and> fcgi y = initial_server se p fw"
  by (auto simp: program_defs initial_system_def new_client_def http_client_def initial_server_def)

theorem fastcgi_silenced_witness:
  "\<exists>y y1 y2. system_run demo_server_env demo_ws_env (initial_system demo_server_env demo_pool (Map.empty, empty_store)) y \<and>
    length (ws_queue y) = 2 \<and> system_step demo_server_env demo_ws_env (Fcgi (Accepted [6], [])) y = Some y1 \<and>
    system_run demo_server_env demo_ws_env y1 y2 \<and> ws_queue y2 = [] \<and>
    free_arenas (manager (pool (fcgi y2))) = all_arenas (manager demo_pool) \<and>
    (\<forall>y3. system_run demo_server_env demo_ws_env y2 y3 \<longrightarrow>
      accept_paused (fcgi y3) \<and> conns (fcgi y3) = [] \<and> map_of (interest (fcgi y3)) (listen_fd demo_server_env) = None)"
proof -
  let ?se = demo_server_env and ?we = demo_ws_env
  let ?y0 = "initial_system ?se demo_pool (Map.empty, empty_store)"
  have cb: "has_cbhttp ?we" by (simp add: demo_ws_env_def)
  have k: "keeps_place (user_request_ready ?se)" by (simp add: demo_server_env_def answer_keeps_place)
  obtain ya c where a: "system_step ?se ?we (Ws (Ws_accepted [5])) ?y0 = Some ya" "map_of (ws_clients ya) 5 = Some c"
    "http_client c" "ws_queue ya = []" "fcgi ya = initial_server ?se demo_pool (Map.empty, empty_store)"
    using demo_client_accepted by blast
  have pa: "pool (fcgi ya) = demo_pool" "conns (fcgi ya) = []" "fcgi_tasks (fcgi ya) = []" "pending_output (fcgi ya) = []"
    "\<not> accept_paused (fcgi ya)" by (simp_all add: a(5) initial_server_def)
  have "free_arenas (manager (pool (fcgi ya))) \<noteq> {}" using demo_pool_nonempty by (simp add: pa(1))
  from http_taken [OF cb a(2,3) demo_pool_ok [folded pa(1)] this, of ?se 0] obtain yb c' p r where
    b: "system_step ?se ?we (Ws (Ws_io 0 5 get_event)) ya = Some yb" "map_of (ws_clients yb) 5 = Some c'" "http_client c'"
      "ws_queue yb = [r]" "p \<in> free_arenas (manager demo_pool)" "pool_ok (pool (fcgi yb))"
      "free_arenas (manager (pool (fcgi yb))) = free_arenas (manager demo_pool) - {p}" "conns (fcgi yb) = []"
      "fcgi_tasks (fcgi yb) = []" "pending_output (fcgi yb) = []" "\<not> accept_paused (fcgi yb)"
    using a(4) pa by auto
  have one: "card (free_arenas (manager (pool (fcgi yb)))) = 1" using b(5,7) demo_pool_free by simp
  then have "free_arenas (manager (pool (fcgi yb))) \<noteq> {}" by auto
  from http_taken [OF cb b(2,3,6) this, of ?se 1] obtain y q r' where
    c: "system_step ?se ?we (Ws (Ws_io 1 5 get_event)) yb = Some y" "ws_queue y = [r, r']"
      "q \<in> free_arenas (manager (pool (fcgi yb)))"
      "free_arenas (manager (pool (fcgi y))) = free_arenas (manager (pool (fcgi yb))) - {q}" "conns (fcgi y) = []"
      "fcgi_tasks (fcgi y) = []" "pending_output (fcgi y) = []" "\<not> accept_paused (fcgi y)"
    using b by auto
  have none: "free_arenas (manager (pool (fcgi y))) = {}"
    using one c(3) unfolding c(4) by (auto simp: card_1_singleton_iff)
  have run: "system_run ?se ?we ?y0 y"
    by (rule run_step [OF run_step [OF run_step [OF run_refl _ a(1)] _ b(1)] _ c(1)]) simp_all
  have "system_ok (all_arenas (manager demo_pool)) y"
    by (rule system_run_ok [OF run k]) (rule initial_system_ok [OF demo_pool_ok demo_free])
  note silenced = fastcgi_silenced [OF k this none c(5-8), of ?we "[6]" "[]"]
  have "length (ws_queue y) = 2" by (simp add: c(2))
  with silenced run show ?thesis by blast
qed

text \<open>The program started without arguments, on a platform that gives it one megabyte after the other.\<close>

definition demo_platform :: platform where
  "demo_platform = \<lparr>pl_malloc = (\<lambda>i. 1048576 * of_nat (i + 1)), pl_ram = (\<lambda>_. 0), pl_request_size = 1000, pl_request_align = 16\<rparr>"

lemma demo_setup_pool:
  assumes "main_setup demo_platform [''wasapi''] = Some (g, p, ws)"
  shows "pool_ok p" "free_arenas (manager p) = all_arenas (manager p)" "all_arenas (manager p) = {..<8}" "g = default_config"
proof -
  have g: "g = default_config" and p: "manager p = create_arenas (\<lambda>i. 1048576 * of_nat (i + 1)) 8 262144"
    "request_size p = 1000" "request_align p = 16"
    using assms by (auto simp: main_setup_def initialize_server_config_def config_parse_args_def demo_platform_def default_config_def)
  show "g = default_config" by (rule g)
  show "free_arenas (manager p) = all_arenas (manager p)" by (simp add: p free_all_created)
  show "all_arenas (manager p) = {..<8}" by (auto simp: p all_arenas_def create_arenas_def)
  have "arenas (manager p) = map (\<lambda>i. \<lparr>a_data = 1048576 * of_nat (i + 1), a_capacity = 262144, a_offset = 0, management_flag = of_nat i\<rparr>)
      [0, 1, 2, 3, 4, 5, 6, 7]"
    by (simp add: p create_arenas_def arena_create_def arena_reset_def upt_rec)
  then have "\<forall>a\<in>set (arenas (manager p)). roomy p a" "\<forall>a\<in>set (arenas (manager p)). a_offset a = 0"
    by (simp_all add: roomy_def p arena_alloc_def arena_reset_def align_up_def Let_def)
  moreover have "manager_ok (manager p)" by (simp add: p create_arenas_ok)
  ultimately show "pool_ok p" by (auto simp: pool_ok_def free_arenas_def manager_ok_def)
qed

theorem program_arenas_accounted_witness:
  "\<exists>p ws y r. main_setup demo_platform [''wasapi''] = Some (default_config, p, ws :: nat worker_pool) \<and>
    system_run demo_server_env demo_ws_env (initial_system demo_server_env p (Map.empty, empty_store)) y \<and> ws_queue y = [r] \<and>
    (let held = concat (map (\<lambda>(fd, c). map (\<lambda>(i, r). arena r) (c_requests c)) (conns (fcgi y)));
         queued = map (\<lambda>t. arena (task_request t)) (ws_queue y);
         free = free_arenas (manager (pool (fcgi y)))
     in distinct (held @ queued) \<and> set (held @ queued) \<inter> free = {} \<and>
        set (held @ queued) \<union> free = {..<unat (max_in_flight default_config)})"
proof -
  let ?se = demo_server_env and ?we = demo_ws_env
  obtain g p and ws :: "nat worker_pool" where s: "main_setup demo_platform [''wasapi''] = Some (g, p, ws)"
    by (simp add: main_setup_def initialize_server_config_def config_parse_args_def)
  note P = demo_setup_pool [OF s]
  note s = s [unfolded P(4)]
  have cb: "has_cbhttp ?we" by (simp add: demo_ws_env_def)
  have k: "keeps_place (user_request_ready ?se)" by (simp add: demo_server_env_def answer_keeps_place)
  obtain ya c where a: "system_step ?se ?we (Ws (Ws_accepted [5])) (initial_system ?se p (Map.empty, empty_store)) = Some ya"
    "map_of (ws_clients ya) 5 = Some c" "http_client c" "ws_queue ya = []" "pool (fcgi ya) = p"
    using demo_client_accepted [of ?se p "(Map.empty, empty_store)"] by (auto simp: initial_server_def)
  have "free_arenas (manager (pool (fcgi ya))) \<noteq> {}" by (simp add: a(5) P(2,3) lessThan_empty_iff)
  from http_taken [OF cb a(2,3) P(1) [folded a(5)] this, of ?se 0] obtain y r where
    b: "system_step ?se ?we (Ws (Ws_io 0 5 get_event)) ya = Some y" "ws_queue y = [r]"
    using a(4) by auto
  have run: "system_run ?se ?we (initial_system ?se p (Map.empty, empty_store)) y"
    by (rule run_step [OF run_step [OF run_refl _ a(1)] _ b(1)]) simp_all
  from program_arenas_accounted [OF s P(1) k run] s run b(2) show ?thesis by blast
qed

end
