(* ===== verification/Listening.thy ===== *)
theory Listening
  imports Config "HOL-Library.Multiset"
begin

text \<open>
  How the two servers get their descriptors: \<open>create_listen_socket\<close> and the part of \<open>serve\<close> and \<open>run\<close> in
  fcgi-connection.cpp that comes before and after the event loop, and the same in websockets.cpp.
  The results of the system calls are arguments; what is left of them is the list of descriptors
  that are open, the addresses that were bound and the socket files on the disk.
\<close>

section \<open>The kernel\<close>

text \<open>Which calls succeed, and the descriptors they return.\<close>

record kernel =
  k_socket :: "int option"
  k_bind :: bool
  k_listen :: bool
  k_nonblock :: bool
  k_epoll :: "int option"
  k_eventfd :: "int option"
  k_watch_event :: bool
  k_watch_listen :: bool
  k_timer :: "int option"
  k_settime :: bool
  k_watch_timer :: bool

datatype endpoint = Unix_name string | Any_port u16

record net =
  opened :: "int list"
  bound :: "(int \<times> endpoint) list"
  socket_files :: "string list"

definition open_fd :: "int \<Rightarrow> net \<Rightarrow> net" where
  "open_fd fd n = n\<lparr>opened := opened n @ [fd]\<rparr>"

definition close_fd :: "int \<Rightarrow> net \<Rightarrow> net" where
  "close_fd fd n = n\<lparr>opened := remove1 fd (opened n), bound := AList.delete fd (bound n)\<rparr>"

definition close_opt :: "int option \<Rightarrow> net \<Rightarrow> net" where
  "close_opt fd n = (case fd of None \<Rightarrow> n | Some d \<Rightarrow> close_fd d n)"

text \<open>\<open>c_str()\<close> ends at the first null character; \<open>snprintf\<close> keeps 107 characters of it.\<close>

definition c_text :: "string \<Rightarrow> string" where
  "c_text s = takeWhile (\<lambda>c. c \<noteq> CHR 0x00) s"

definition sun_path :: "string \<Rightarrow> string" where
  "sun_path p = take 107 (c_text p)"

definition unlink_name :: "string \<Rightarrow> net \<Rightarrow> net" where
  "unlink_name p n = n\<lparr>socket_files := removeAll (c_text p) (socket_files n)\<rparr>"

definition bind_fd :: "int \<Rightarrow> endpoint \<Rightarrow> net \<Rightarrow> net" where
  "bind_fd fd ep n = n\<lparr>bound := AList.update fd ep (bound n),
     socket_files := (case ep of Unix_name p \<Rightarrow> socket_files n @ [p] | Any_port _ \<Rightarrow> socket_files n)\<rparr>"

section \<open>The FastCGI server\<close>

text \<open>A failing \<open>chmod\<close> is only logged.\<close>

definition fcgi_listen_socket :: "global_config \<Rightarrow> kernel \<Rightarrow> net \<Rightarrow> int option \<times> net" where
  "fcgi_listen_socket g k n =
     (let path = fcgi_socket_path g;
          n0 = (if path \<noteq> [] then unlink_name path n else n)
      in case k_socket k of
           None \<Rightarrow> (None, n0)
         | Some fd \<Rightarrow>
             (let n1 = open_fd fd n0
              in if \<not> k_bind k then (None, close_fd fd n1)
                 else
                   (let n2 = bind_fd fd (if path \<noteq> [] then Unix_name (sun_path path) else Any_port (fcgi_port g)) n1
                    in if \<not> k_listen k then (None, close_fd fd n2)
                       else if \<not> k_nonblock k then (None, close_fd fd n2)
                       else (Some fd, n2))))"

text \<open>\<open>run\<close> before its loop: a descriptor that cannot be watched is given back.\<close>

definition watched :: "int option \<Rightarrow> bool \<Rightarrow> net \<Rightarrow> int option \<times> net" where
  "watched fd ok n =
     (case fd of
        None \<Rightarrow> (None, n)
      | Some d \<Rightarrow> if ok then (Some d, open_fd d n) else (None, close_fd d (open_fd d n)))"

definition fcgi_run_start :: "kernel \<Rightarrow> net \<Rightarrow> (int \<times> int option \<times> int option) option \<times> net" where
  "fcgi_run_start k n =
     (case k_epoll k of
        None \<Rightarrow> (None, n)
      | Some epfd \<Rightarrow>
          (case watched (k_eventfd k) (k_watch_event k) (open_fd epfd n) of
             (efd, n1) \<Rightarrow>
               if \<not> k_watch_listen k then (None, close_fd epfd n1)
               else (case watched (k_timer k) (k_settime k \<and> k_watch_timer k) n1 of
                       (tfd, n2) \<Rightarrow> (Some (epfd, efd, tfd), n2))))"

text \<open>\<open>serve\<close> up to the loop: the descriptors with which the loop is entered, or that it is not.\<close>

definition fcgi_serve_start ::
  "global_config \<Rightarrow> int \<Rightarrow> string \<Rightarrow> kernel \<Rightarrow> net \<Rightarrow> (int \<times> int \<times> int option \<times> int option) option \<times> net" where
  "fcgi_serve_start g port path k n =
     (case fcgi_listen_socket (g\<lparr>fcgi_port := of_int port, fcgi_socket_path := path\<rparr>) k n of
        (None, n1) \<Rightarrow> (None, n1)
      | (Some lfd, n1) \<Rightarrow>
          (case fcgi_run_start k n1 of
             (Some fds, n2) \<Rightarrow> (Some (lfd, fds), n2)
           | (None, n2) \<Rightarrow>
               (None, (if path \<noteq> [] then unlink_name path else id) (close_fd lfd n2))))"

text \<open>What is closed when the loop has been left; \<open>cfds\<close> are the connections that are still open.\<close>

definition fcgi_serve_end ::
  "string \<Rightarrow> int list \<Rightarrow> int \<times> int \<times> int option \<times> int option \<Rightarrow> net \<Rightarrow> net" where
  "fcgi_serve_end path cfds = (\<lambda>(lfd, epfd, efd, tfd) n.
     let n1 = close_opt tfd (close_opt efd (close_fd epfd n));
         n2 = close_fd lfd (fold close_fd cfds n1)
     in if path \<noteq> [] then unlink_name path n2 else n2)"

section \<open>The WebSocket server\<close>

text \<open>Here a socket that cannot be made non-blocking is kept.\<close>

definition ws_bind_listen :: "endpoint \<Rightarrow> kernel \<Rightarrow> net \<Rightarrow> int option \<times> net" where
  "ws_bind_listen ep k n =
     (case k_socket k of
        None \<Rightarrow> (None, n)
      | Some fd \<Rightarrow>
          (let n1 = open_fd fd n
           in if \<not> k_bind k then (None, close_fd fd n1)
              else
                (let n2 = bind_fd fd ep n1
                 in if \<not> k_listen k then (None, close_fd fd n2) else (Some fd, n2))))"

definition create_unix_listen_socket :: "string \<Rightarrow> kernel \<Rightarrow> net \<Rightarrow> int option \<times> net" where
  "create_unix_listen_socket path k n = ws_bind_listen (Unix_name (sun_path path)) k (unlink_name path n)"

definition create_tcp_listen_socket :: "int \<Rightarrow> kernel \<Rightarrow> net \<Rightarrow> int option \<times> net" where
  "create_tcp_listen_socket port k n = ws_bind_listen (Any_port (of_int port)) k n"

definition ws_serve_start :: "int \<Rightarrow> string \<Rightarrow> kernel \<Rightarrow> net \<Rightarrow> (int \<times> int \<times> int option) option \<times> net" where
  "ws_serve_start port path k n =
     (case (if path \<noteq> [] then create_unix_listen_socket path k n else create_tcp_listen_socket port k n) of
        (None, n1) \<Rightarrow> (None, n1)
      | (Some lfd, n1) \<Rightarrow>
          (case k_epoll k of
             None \<Rightarrow> (None, close_fd lfd n1)
           | Some epfd \<Rightarrow>
               (case k_eventfd k of
                  None \<Rightarrow> (Some (lfd, epfd, None), open_fd epfd n1)
                | Some efd \<Rightarrow> (Some (lfd, epfd, Some efd), open_fd efd (open_fd epfd n1)))))"

text \<open>The clients go with the map that holds them; their descriptors are not closed.\<close>

definition ws_serve_end :: "int \<times> int \<times> int option \<Rightarrow> net \<Rightarrow> net" where
  "ws_serve_end = (\<lambda>(lfd, epfd, efd) n. close_fd lfd (close_fd epfd (close_opt efd n)))"

section \<open>Descriptors\<close>

lemmas fcgi_start_defs = fcgi_serve_start_def fcgi_listen_socket_def fcgi_run_start_def watched_def Let_def

lemmas ws_start_defs =
  ws_serve_start_def create_unix_listen_socket_def create_tcp_listen_socket_def ws_bind_listen_def Let_def

lemma opened_simps [simp]:
  "opened (open_fd fd n) = opened n @ [fd]" "opened (close_fd fd n) = remove1 fd (opened n)"
  "opened (unlink_name p n) = opened n" "opened (bind_fd fd ep n) = opened n"
  by (simp_all add: open_fd_def close_fd_def unlink_name_def bind_fd_def)

text \<open>The kernel returns descriptors that are not open, each once.\<close>

definition fresh_fds :: "kernel \<Rightarrow> net \<Rightarrow> bool" where
  "fresh_fds k n \<longleftrightarrow>
     distinct (opened n @ concat (map (\<lambda>x. case x of None \<Rightarrow> [] | Some fd \<Rightarrow> [fd]) [k_socket k, k_epoll k, k_eventfd k, k_timer k]))"

definition opts :: "int option list \<Rightarrow> int list" where
  "opts xs = concat (map (\<lambda>x. case x of None \<Rightarrow> [] | Some fd \<Rightarrow> [fd]) xs)"

lemma fcgi_start_descriptors:
  assumes "fresh_fds k n" "fcgi_serve_start g port path k n = (r, n')"
  shows "opened n' = opened n @
    (case r of
       Some (lfd, epfd, efd, tfd) \<Rightarrow> opts [Some lfd, Some epfd, efd, tfd]
     | None \<Rightarrow>
         (if k_socket k \<noteq> None \<and> k_bind k \<and> k_listen k \<and> k_nonblock k \<and> k_epoll k \<noteq> None \<and> k_watch_event k \<and> \<not> k_watch_listen k
          then opts [k_eventfd k] else []))"
  using assms
  by (auto simp: fcgi_start_defs fresh_fds_def opts_def remove1_append split: option.splits if_splits prod.splits)

lemma ws_start_descriptors:
  assumes "fresh_fds k n" "ws_serve_start port path k n = (r, n')"
  shows "opened n' = opened n @ (case r of Some (lfd, epfd, efd) \<Rightarrow> opts [Some lfd, Some epfd, efd] | None \<Rightarrow> [])"
  using assms
  by (auto simp: ws_start_defs fresh_fds_def opts_def remove1_append split: option.splits if_splits prod.splits)

lemma opened_close_all: "mset (opened (fold close_fd fds n)) = mset (opened n) - mset fds"
  by (induction fds arbitrary: n) simp_all

lemma opened_close_opt: "mset (opened (close_opt fd n)) = mset (opened n) - mset (opts [fd])"
  by (cases fd) (simp_all add: close_opt_def opts_def)

text \<open>A socket path that is longer than \<open>sun_path\<close> names another file, which stays when the server ends.\<close>

lemma long_socket_path:
  assumes "fcgi_serve_start g port path k n = (Some fds, n')" "107 < length (c_text path)" "fresh_fds k n"
  shows "map_of (bound n') (fst fds) = Some (Unix_name (take 107 (c_text path)))"
    "take 107 (c_text path) \<in> set (socket_files (fcgi_serve_end path [] fds n'))"
proof -
  have p: "path \<noteq> []" "take 107 (c_text path) \<noteq> c_text path" using assms(2) by (auto simp: c_text_def dest: arg_cong [of _ _ length])
  show "map_of (bound n') (fst fds) = Some (Unix_name (take 107 (c_text path)))"
    using assms(1,3) p
    by (auto simp: fcgi_start_defs sun_path_def bind_fd_def open_fd_def close_fd_def fresh_fds_def delete_conv' update_conv' split: option.splits if_splits prod.splits)
  show "take 107 (c_text path) \<in> set (socket_files (fcgi_serve_end path [] fds n'))"
    using assms(1) p
    by (auto simp: fcgi_start_defs sun_path_def bind_fd_def open_fd_def close_fd_def close_opt_def fcgi_serve_end_def unlink_name_def split: option.splits if_splits prod.splits)
qed

section \<open>Properties\<close>

text \<open>C30: the servers give back the descriptors they open for themselves, on every path on which a system
  call fails and when the loop has been left, with one exception: when the listening socket cannot be
  watched, the eventfd of the FastCGI server stays open. Of the connections that are open when the
  loop has been left, the FastCGI server closes all and the WebSocket server none.\<close>

theorem descriptors_given_back:
  assumes "fresh_fds k n" "fcgi_serve_start g port path k n = (r, n')" "ws_serve_start wport wpath k n = (wr, wn')"
  shows "(case r of
      Some fds \<Rightarrow> \<forall>cfds m. mset (opened m) = mset (opened n') + mset cfds \<longrightarrow>
        mset (opened (fcgi_serve_end path cfds fds m)) = mset (opened n)
    | None \<Rightarrow> opened n' = opened n @
        (if k_socket k \<noteq> None \<and> k_bind k \<and> k_listen k \<and> k_nonblock k \<and> k_epoll k \<noteq> None \<and> k_watch_event k \<and> \<not> k_watch_listen k
         then opts [k_eventfd k] else [])) \<and>
    (case wr of
      Some fds \<Rightarrow> \<forall>cfds m. mset (opened m) = mset (opened wn') + mset cfds \<longrightarrow>
        mset (opened (ws_serve_end fds m)) = mset (opened n) + mset cfds
    | None \<Rightarrow> opened wn' = opened n)"
proof
  note F = fcgi_start_descriptors [OF assms(1,2)]
  show "case r of
      Some fds \<Rightarrow> \<forall>cfds m. mset (opened m) = mset (opened n') + mset cfds \<longrightarrow>
        mset (opened (fcgi_serve_end path cfds fds m)) = mset (opened n)
    | None \<Rightarrow> opened n' = opened n @
        (if k_socket k \<noteq> None \<and> k_bind k \<and> k_listen k \<and> k_nonblock k \<and> k_epoll k \<noteq> None \<and> k_watch_event k \<and> \<not> k_watch_listen k
         then opts [k_eventfd k] else [])"
  proof (cases r)
    case (Some fds)
    obtain lfd epfd efd tfd where fds: "fds = (lfd, epfd, efd, tfd)" by (metis prod_cases4)
    have "mset (opened n') = mset (opened n) + mset (opts [efd]) + mset (opts [tfd]) + {#lfd#} + {#epfd#}"
      using F by (simp add: Some fds opts_def)
    then show ?thesis
      by (auto simp: Some fds fcgi_serve_end_def opened_close_all opened_close_opt Let_def)
  qed (use F in simp)
  note W = ws_start_descriptors [OF assms(1,3)]
  show "case wr of
      Some fds \<Rightarrow> \<forall>cfds m. mset (opened m) = mset (opened wn') + mset cfds \<longrightarrow>
        mset (opened (ws_serve_end fds m)) = mset (opened n) + mset cfds
    | None \<Rightarrow> opened wn' = opened n"
  proof (cases wr)
    case (Some fds)
    obtain lfd epfd efd where fds: "fds = (lfd, epfd, efd)" by (metis prod_cases3)
    have "mset (opened wn') = mset (opened n) + mset (opts [efd]) + {#lfd#} + {#epfd#}"
      using W by (simp add: Some fds opts_def)
    then show ?thesis by (auto simp: Some fds ws_serve_end_def opened_close_opt)
  qed (use W in simp)
qed

theorem descriptors_given_back_witness:
  "let k = \<lparr>k_socket = Some 3, k_bind = True, k_listen = True, k_nonblock = True, k_epoll = Some 4, k_eventfd = Some 5,
        k_watch_event = True, k_watch_listen = False, k_timer = Some 6, k_settime = True, k_watch_timer = True\<rparr>;
       n = \<lparr>opened = [0, 1, 2], bound = [], socket_files = []\<rparr>
   in opened (snd (fcgi_serve_start default_config 9000 [] k n)) = [0, 1, 2, 5] \<and>
      mset (opened (ws_serve_end (3, 4, Some 5) (open_fd 7 (snd (ws_serve_start 9001 [] k n))))) = mset [0, 1, 2, 7]"
proof -
  let ?k = "\<lparr>k_socket = Some 3, k_bind = True, k_listen = True, k_nonblock = True, k_epoll = Some 4, k_eventfd = Some 5,
        k_watch_event = True, k_watch_listen = False, k_timer = Some 6, k_settime = True, k_watch_timer = True\<rparr>"
  let ?n = "\<lparr>opened = [0, 1, 2], bound = [], socket_files = []\<rparr>"
  have f: "fst (fcgi_serve_start default_config 9000 [] ?k ?n) = None"
    by (simp add: fcgi_start_defs)
  have w: "fst (ws_serve_start 9001 [] ?k ?n) = Some (3, 4, Some 5)"
    by (simp add: ws_start_defs)
  have "fresh_fds ?k ?n" by (simp add: fresh_fds_def)
  from descriptors_given_back [OF this surjective_pairing surjective_pairing, of default_config 9000 "[]" 9001 "[]"]
  show ?thesis unfolding f w Let_def option.case by (auto simp: opts_def dest!: spec [of _ "[7]"])
qed

end
