(* ===== verification/Logger.thy ===== *)
theory Logger
  imports Config Json
begin

text \<open>
  logger.h: lines with a level and the name of the thread, on one destination that the first line
  opens. The message is the text that \<open>vfprintf\<close> makes of the format and its arguments. The file and
  the lines printed so far are global, the tag is \<open>thread_local\<close>; the lines are printed under
  \<open>log_mutex\<close>, so a line is one step.
\<close>

section \<open>The code\<close>

datatype log_dest = Stderr_dest | File_dest string

record logger =
  thread_names :: "nat \<Rightarrow> string option"
  thread_tags :: "nat \<Rightarrow> string"
  log_file :: "log_dest option"
  log_lines :: "(log_dest \<times> string) list"

definition new_logger :: logger where
  "new_logger = \<lparr>thread_names = Map.empty, thread_tags = (\<lambda>_. []), log_file = None, log_lines = []\<rparr>"

text \<open>The configuration, whether \<open>fopen\<close> succeeds, and \<open>pthread_self()\<close> as a number.\<close>

record log_env =
  le_config :: global_config
  le_opened :: bool
  le_self :: "nat \<Rightarrow> u64"

definition register_thread_name :: "nat \<Rightarrow> string \<Rightarrow> logger \<Rightarrow> logger" where
  "register_thread_name t name l = l\<lparr>thread_names := (thread_names l)(t \<mapsto> name)\<rparr>"

definition chosen_destination :: "log_env \<Rightarrow> log_dest" where
  "chosen_destination e =
     (let d = log_destination (le_config e)
      in if d = ''stderr'' \<or> d = [] then Stderr_dest
         else if le_opened e then File_dest d else Stderr_dest)"

definition log_destination_init :: "log_env \<Rightarrow> logger \<Rightarrow> log_dest \<times> logger" where
  "log_destination_init e l =
     (case log_file l of
        Some f \<Rightarrow> (f, l)
      | None \<Rightarrow> (let f = chosen_destination e in (f, l\<lparr>log_file := Some f\<rparr>)))"

fun show_hex :: "nat \<Rightarrow> string" where
  "show_hex n = (if n < 16 then [hex_lower n] else show_hex (n div 16) @ [hex_lower (n mod 16)])"

declare show_hex.simps [simp del]

definition current_thread_tag :: "log_env \<Rightarrow> nat \<Rightarrow> logger \<Rightarrow> string \<times> logger" where
  "current_thread_tag e t l =
     (let tag = thread_tags l t
      in if tag \<noteq> [] then (tag, l)
         else
           (let tag1 = (case thread_names l t of Some name \<Rightarrow> name | None \<Rightarrow> []);
                tag2 = (if tag1 = [] then ''tid:'' @ show_hex (unat (le_self e t)) else tag1)
            in (tag2, l\<lparr>thread_tags := (thread_tags l)(t := tag2)\<rparr>)))"

text \<open>The four functions \<open>log\<close>, \<open>log_error\<close>, \<open>log_info\<close> and \<open>log_debug\<close> differ in the level and the front.\<close>

datatype log_kind = Log_at int | Log_error | Log_info | Log_debug

fun kind_level :: "log_kind \<Rightarrow> int" where
  "kind_level (Log_at n) = n"
| "kind_level Log_error = 0"
| "kind_level Log_info = 1"
| "kind_level Log_debug = 2"

fun kind_front :: "log_kind \<Rightarrow> string" where
  "kind_front (Log_at n) = ''[LOG'' @ show_int n @ '']''"
| "kind_front Log_error = ''[ERROR]''"
| "kind_front Log_info = ''[INFO]''"
| "kind_front Log_debug = ''[DEBUG]''"

definition log_line :: "log_kind \<Rightarrow> string \<Rightarrow> string \<Rightarrow> string" where
  "log_line k tag msg = kind_front k @ '' ['' @ tag @ ''] '' @ msg @ [CHR 0x0A]"

definition log_message :: "log_env \<Rightarrow> nat \<Rightarrow> log_kind \<Rightarrow> string \<Rightarrow> logger \<Rightarrow> logger" where
  "log_message e t k msg l =
     (if kind_level k > log_level (le_config e) then l
      else
        (case log_destination_init e l of
           (out, l1) \<Rightarrow>
             (case current_thread_tag e t l1 of
                (tag, l2) \<Rightarrow> l2\<lparr>log_lines := log_lines l2 @ [(out, log_line k tag msg)]\<rparr>)))"

section \<open>Runs\<close>

datatype log_op =
    Register nat string
  | Write nat log_kind string

fun log_step :: "log_env \<Rightarrow> log_op \<Rightarrow> logger \<Rightarrow> logger" where
  "log_step e (Register t name) = register_thread_name t name"
| "log_step e (Write t k msg) = log_message e t k msg"

text \<open>The tag of a thread: its name when it prints its first line.\<close>

definition named_tag :: "log_env \<Rightarrow> nat \<Rightarrow> string option \<Rightarrow> string" where
  "named_tag e t nm = (case nm of Some (c # cs) \<Rightarrow> c # cs | _ \<Rightarrow> ''tid:'' @ show_hex (unat (le_self e t)))"

fun first_tag :: "log_env \<Rightarrow> nat \<Rightarrow> string option \<Rightarrow> log_op list \<Rightarrow> string" where
  "first_tag e t nm [] = []"
| "first_tag e t nm (Register t' name # ops) = first_tag e t (if t' = t then Some name else nm) ops"
| "first_tag e t nm (Write t' k msg # ops) =
     (if t' = t \<and> kind_level k \<le> log_level (le_config e) then named_tag e t nm else first_tag e t nm ops)"

fun printed :: "log_env \<Rightarrow> (nat \<Rightarrow> string) \<Rightarrow> log_dest \<Rightarrow> log_op \<Rightarrow> (log_dest \<times> string) list" where
  "printed e tag d (Register t name) = []"
| "printed e tag d (Write t k msg) =
     (if kind_level k \<le> log_level (le_config e) then [(d, log_line k (tag t) msg)] else [])"

definition tag_from :: "log_env \<Rightarrow> logger \<Rightarrow> log_op list \<Rightarrow> nat \<Rightarrow> string" where
  "tag_from e l ops t = (if thread_tags l t \<noteq> [] then thread_tags l t else first_tag e t (thread_names l t) ops)"

definition dest_from :: "log_env \<Rightarrow> logger \<Rightarrow> log_dest" where
  "dest_from e l = (case log_file l of Some f \<Rightarrow> f | None \<Rightarrow> chosen_destination e)"

lemma tag_of_current:
  "current_thread_tag e t l =
     (let tag = (if thread_tags l t \<noteq> [] then thread_tags l t else named_tag e t (thread_names l t))
      in (tag, l\<lparr>thread_tags := (thread_tags l)(t := tag)\<rparr>))"
  by (cases l) (auto simp: current_thread_tag_def named_tag_def Let_def fun_upd_idem split: option.split list.split)

lemma named_tag_nonempty: "named_tag e t nm \<noteq> []"
  by (auto simp: named_tag_def split: option.split list.split)

lemmas log_step_defs = register_thread_name_def log_message_def log_destination_init_def tag_of_current Let_def

lemma run_lines:
  "log_lines (fold (log_step e) ops l) = log_lines l @ concat (map (printed e (tag_from e l ops) (dest_from e l)) ops)"
proof (induction ops arbitrary: l)
  case (Cons op ops)
  let ?l = "log_step e op l"
  have d: "dest_from e ?l = dest_from e l"
    by (cases op)
      (simp_all add: dest_from_def log_step_defs split: option.split)
  have t: "tag_from e ?l ops = tag_from e l (op # ops)"
    by (cases op)
      (auto simp: tag_from_def log_step_defs fun_eq_iff named_tag_nonempty split: option.split)
  have "log_lines ?l = log_lines l @ printed e (tag_from e l (op # ops)) (dest_from e l) op"
    by (cases op)
      (auto simp: tag_from_def dest_from_def log_step_defs split: option.split)
  then show ?case using Cons.IH [of ?l] by (simp add: d t)
qed simp

section \<open>Properties\<close>

text \<open>The log of a run: the lines whose level is at most the configured one, in the order they were
  written, all on one destination; and every line of a thread has the same name, the one registered
  when the thread printed its first line: a name registered later is never seen.\<close>

theorem log_of_run:
  "log_lines (fold (log_step e) ops new_logger) =
     concat (map (printed e (\<lambda>t. first_tag e t None ops) (chosen_destination e)) ops)"
  using run_lines [of e ops new_logger] by (simp add: new_logger_def tag_from_def [abs_def] dest_from_def)

end
