(* ===== verification/Caching.thy ===== *)
theory Caching
  imports Fileio
begin

text \<open>
  fileio.cpp with several threads. The mutex of the cache is held in sections; between them a reader
  looks at the disk and keeps what it saw. A thread is therefore a value that says what it does next
  and what it has learned; a move is one locked section, one look at the disk, or a change of the
  disk by anybody. Run alone, a reader is \<open>read_entire_file_cached\<close> of theory Fileio.
\<close>

section \<open>Threads\<close>

text \<open>
  \<open>Counted\<close> has its call number, \<open>Missed\<close> goes on to \<open>stat\<close>, \<open>Statted\<close> to the second section, \<open>Changed\<close>
  to reading, \<open>Loaded\<close> to the third; \<open>Stored\<close> has written the file and goes on to its section.
\<close>

datatype cache_thread =
    Counted string int u32
  | Missed string int
  | Statted string int int nat
  | Changed string int nat
  | Loaded string int string
  | Returned string string
  | Stored string string
  | Saved string string

text \<open>The first section, with a call number.\<close>

definition lookup_section :: "cache_config \<Rightarrow> int \<Rightarrow> u32 \<Rightarrow> string \<Rightarrow> file_store \<Rightarrow> string option \<times> file_store" where
  "lookup_section cfg now n filename st =
     (let st1 = maybe_maintain cfg now n st
      in (case map_of (file_cache st1) filename of
            Some e \<Rightarrow> if now - last_check e < 1000000000 then (Some (content e), st1) else (None, st1)
          | None \<Rightarrow> (None, st1)))"

definition write_section :: "cache_config \<Rightarrow> int \<Rightarrow> int \<Rightarrow> string \<Rightarrow> string \<Rightarrow> file_store \<Rightarrow> file_store" where
  "write_section cfg wall now filename cont st =
     (if file_cache_max_size cfg < length cont then remove_entry filename st
      else evict_size cfg (insert_entry filename cont wall now st))"

text \<open>\<open>steady\<close> and \<open>wall\<close> are the clocks where the step reads them.\<close>

fun thread_step ::
  "cache_config \<Rightarrow> int \<Rightarrow> int \<Rightarrow> disk \<Rightarrow> cache_thread \<Rightarrow> file_store \<Rightarrow> (cache_thread \<times> file_store) option" where
  "thread_step cfg steady wall d (Counted f now n) st =
     Some (case lookup_section cfg now n f st of
             (Some c, st') \<Rightarrow> (Returned f c, st')
           | (None, st') \<Rightarrow> (Missed f now, st'))"
| "thread_step cfg steady wall d (Missed f now) st =
     Some (case d f of
             None \<Rightarrow> (Returned f [], st)
           | Some (mt, cont) \<Rightarrow> (Statted f now mt (length cont), st))"
| "thread_step cfg steady wall d (Statted f now mt sz) st =
     Some (case cache_revalidate now mt f st of
             (Some c, st') \<Rightarrow> (Returned f c, st')
           | (None, st') \<Rightarrow> (Changed f mt sz, st'))"
| "thread_step cfg steady wall d (Changed f mt sz) st =
     Some (case read_file_binary d f sz of
             None \<Rightarrow> (Returned f [], st)
           | Some c \<Rightarrow> (Loaded f mt c, st))"
| "thread_step cfg steady wall d (Loaded f mt c) st =
     Some (case cache_fill cfg steady f c mt st of (r, st') \<Rightarrow> (Returned f r, st'))"
| "thread_step cfg steady wall d (Stored f c) st = Some (Saved f c, write_section cfg wall steady f c st)"
| "thread_step cfg steady wall d (Returned f c) st = None"
| "thread_step cfg steady wall d (Saved f c) st = None"

record cache_system =
  cache_threads :: "cache_thread list"
  the_store :: file_store
  the_disk :: disk

inductive cache_moves :: "cache_config \<Rightarrow> cache_system \<Rightarrow> cache_system \<Rightarrow> bool" for cfg y where
  moves_refl: "cache_moves cfg y y"
| moves_read: "cache_moves cfg y y' \<Longrightarrow> n = call_counter (the_store y') + 1 \<Longrightarrow>
    cache_moves cfg y
      (y'\<lparr>cache_threads := cache_threads y' @ [Counted f now n], the_store := (the_store y')\<lparr>call_counter := n\<rparr>\<rparr>)"
| moves_write: "cache_moves cfg y y' \<Longrightarrow>
    cache_moves cfg y (y'\<lparr>cache_threads := cache_threads y' @ [Stored f c], the_disk := (the_disk y')(f \<mapsto> (mt, c))\<rparr>)"
| moves_disk: "cache_moves cfg y y' \<Longrightarrow> cache_moves cfg y (y'\<lparr>the_disk := d\<rparr>)"
| moves_thread: "cache_moves cfg y y' \<Longrightarrow> i < length (cache_threads y') \<Longrightarrow>
    thread_step cfg steady wall (the_disk y') (cache_threads y' ! i) (the_store y') = Some (t, st) \<Longrightarrow>
    cache_moves cfg y (y'\<lparr>cache_threads := (cache_threads y')[i := t], the_store := st\<rparr>)"

section \<open>Threads that run alone\<close>

lemma lookup_section_alone:
  "cache_lookup cfg now f st = lookup_section cfg now (call_counter st + 1) f (st\<lparr>call_counter := call_counter st + 1\<rparr>)"
  by (simp add: cache_lookup_def lookup_section_def Let_def)

lemma write_section_alone:
  "write_entire_file cfg True None mt wall now f c (d, st) = (True, d(f \<mapsto> (mt, c)), write_section cfg wall now f c st)"
  by (simp add: write_entire_file_def write_section_def)

text \<open>The steps of one thread in a row, with a disk that does not change.\<close>

fun run_alone :: "cache_config \<Rightarrow> int \<Rightarrow> disk \<Rightarrow> nat \<Rightarrow> cache_thread \<times> file_store \<Rightarrow> cache_thread \<times> file_store" where
  "run_alone cfg later d 0 s = s"
| "run_alone cfg later d (Suc k) s =
     (case thread_step cfg later 0 d (fst s) (snd s) of None \<Rightarrow> s | Some s' \<Rightarrow> run_alone cfg later d k s')"

lemma reader_alone:
  "run_alone cfg later d 5 (Counted f now (call_counter st + 1), st\<lparr>call_counter := call_counter st + 1\<rparr>) =
     (case read_entire_file_cached cfg now later d d f st of (c, st') \<Rightarrow> (Returned f c, st'))"
  by (auto simp: numeral_eq_Suc read_entire_file_cached_def lookup_section_alone [symmetric] split: prod.splits option.splits)

section \<open>The accounts\<close>

lemma lookup_section_inv:
  assumes "store_inv cfg st"
  shows "store_inv cfg (snd (lookup_section cfg now n f st))"
  using maybe_maintain_inv(1) [OF assms, of now n]
  by (auto simp: lookup_section_def Let_def split: option.split)

lemma write_section_inv: "store_inv cfg st \<Longrightarrow> store_inv cfg (write_section cfg wall now f c st)"
  using write_inv [of cfg st True None 0 wall now f c Map.empty] by (simp add: write_section_alone)

lemma thread_step_inv:
  assumes "thread_step cfg steady wall d t st = Some (t', st')" "store_inv cfg st"
  shows "store_inv cfg st'"
proof (cases t)
  case (Counted f now n)
  with assms lookup_section_inv [OF assms(2), of now n f] show ?thesis
    by (auto split: prod.splits option.splits)
next
  case (Statted f now mt sz)
  with assms cache_revalidate_inv [OF assms(2)] show ?thesis
    by (auto split: prod.splits option.splits)
next
  case (Loaded f mt c)
  with assms cache_fill_inv [OF assms(2)] show ?thesis by (auto split: prod.splits)
qed (use assms write_section_inv in \<open>auto split: option.splits prod.splits\<close>)

lemma store_inv_counter [simp]: "store_inv cfg (st\<lparr>call_counter := n\<rparr>) = store_inv cfg st"
  by (simp add: store_inv_def store_ok_def)

lemma cache_moves_inv: "cache_moves cfg y y' \<Longrightarrow> store_inv cfg (the_store y) \<Longrightarrow> store_inv cfg (the_store y')"
  by (induction rule: cache_moves.induct) (auto dest: thread_step_inv)

section \<open>A stale copy\<close>

definition holds_copy :: "cache_config \<Rightarrow> string \<Rightarrow> int \<Rightarrow> string \<Rightarrow> int \<Rightarrow> file_store \<Rightarrow> bool" where
  "holds_copy cfg f m c chk st \<longleftrightarrow> store_inv cfg st \<and>
     map_of (file_cache st) f = Some \<lparr>content = c, mtime = m, last_check = chk, fsize = length c\<rparr>"

lemma evict_size_idle: "total_cache_size st \<le> file_cache_max_size cfg \<Longrightarrow> evict_size cfg st = st"
  by (cases "file_cache st"; cases "total_cache_size st") (simp_all add: evict_size_def)

lemma maintain_keeps:
  assumes "store_inv cfg st" "map_of (file_cache st) f = Some e" "now - last_check e \<le> file_cache_ttl cfg"
  shows "map_of (file_cache (maybe_maintain cfg now n st)) f = Some e"
proof -
  let ?st = "evict_ttl cfg now st"
  have fc: "file_cache ?st = filter (\<lambda>e. now - last_check (snd e) \<le> file_cache_ttl cfg) (file_cache st)"
    by (simp add: evict_ttl_def ttl_loop_filter)
  have "umap_ok (file_cache ?st)" using evict_ttl_ok [of st cfg now] assms(1)
    by (simp add: store_inv_def store_ok_def entries_ok_def)
  then have m: "map_of (file_cache ?st) f = Some e"
    using assms(3) map_of_SomeD [OF assms(2)] by (intro map_of_is_SomeI) (simp_all add: umap_ok_def fc)
  have "total_cache_size ?st \<le> total_cache_size st" by (simp add: evict_ttl_def ttl_loop_filter)
  then have "evict_size cfg ?st = ?st" using assms(1) by (intro evict_size_idle) (simp add: store_inv_def)
  then show ?thesis using m assms(2) by (simp add: maybe_maintain_def)
qed

lemma copy_read:
  assumes "holds_copy cfg f m c chk st" "d f = Some (m, other)" "now - chk \<le> file_cache_ttl cfg"
  shows "\<exists>st' chk'. read_entire_file_cached cfg now later d d f st = (c, st') \<and> holds_copy cfg f m c chk' st' \<and>
    now - chk' < 1000000000"
proof -
  let ?e = "\<lparr>content = c, mtime = m, last_check = chk, fsize = length c\<rparr>"
  have inv: "store_inv cfg st" and e: "map_of (file_cache st) f = Some ?e" using assms(1) by (simp_all add: holds_copy_def)
  define st1 where "st1 = maybe_maintain cfg now (call_counter st + 1) (st\<lparr>call_counter := call_counter st + 1\<rparr>)"
  have e1: "map_of (file_cache st1) f = Some ?e"
    unfolding st1_def by (rule maintain_keeps) (use inv e assms(3) in simp_all)
  have i1: "store_inv cfg st1" unfolding st1_def by (rule maybe_maintain_inv(1)) (use inv in simp)
  show ?thesis
  proof (cases "now - chk < 1000000000")
    case True
    then have "read_entire_file_cached cfg now later d d f st = (c, st1)"
      using e1 by (simp add: read_entire_file_cached_def cache_lookup_def Let_def st1_def [symmetric])
    then show ?thesis using True e1 i1 by (auto simp: holds_copy_def)
  next
    case False
    define st2 where "st2 = st1\<lparr>file_cache := AList.update f (?e\<lparr>last_check := now\<rparr>) (file_cache st1)\<rparr>"
    have v: "cache_revalidate now m f st1 = (Some c, st2)" using e1 by (simp add: cache_revalidate_def st2_def)
    then have "read_entire_file_cached cfg now later d d f st = (c, st2)"
      using False e1 assms(2) by (simp add: read_entire_file_cached_def cache_lookup_def Let_def st1_def [symmetric])
    moreover have "holds_copy cfg f m c now st2"
      using cache_revalidate_inv [OF i1 v] by (simp add: holds_copy_def st2_def update_conv')
    ultimately show ?thesis by (intro exI [of _ st2] exI [of _ now]) simp
  qed
qed

text \<open>Later reads of one file, one after the other, and how far apart they are.\<close>

fun reads_of :: "cache_config \<Rightarrow> disk \<Rightarrow> string \<Rightarrow> (int \<times> int) list \<Rightarrow> file_store \<Rightarrow> string list" where
  "reads_of cfg d f [] st = []"
| "reads_of cfg d f ((now, later) # ts) st =
     (case read_entire_file_cached cfg now later d d f st of (c, st') \<Rightarrow> c # reads_of cfg d f ts st')"

fun paced :: "int \<Rightarrow> int \<Rightarrow> int list \<Rightarrow> bool" where
  "paced gap prev [] = True"
| "paced gap prev (t # ts) = (t - prev \<le> gap \<and> paced gap t ts)"

lemma copy_reads:
  "holds_copy cfg f m c chk st \<Longrightarrow> d f = Some (m, other) \<Longrightarrow> prev - chk < 1000000000 \<Longrightarrow>
     paced (file_cache_ttl cfg - 1000000000) prev (map fst ts) \<Longrightarrow> reads_of cfg d f ts st = replicate (length ts) c"
proof (induction ts arbitrary: chk st prev)
  case (Cons t ts)
  obtain now later where t: "t = (now, later)" by force
  have "now - chk \<le> file_cache_ttl cfg" using Cons.prems(3,4) by (simp add: t)
  from copy_read [where d = d and now = now and later = later, OF Cons.prems(1,2) this] obtain st' chk' where
    st': "read_entire_file_cached cfg now later d d f st = (c, st')" "holds_copy cfg f m c chk' st'" "now - chk' < 1000000000"
    by blast
  with Cons.IH [OF st'(2) Cons.prems(2) st'(3)] Cons.prems(4) show ?case by (simp add: t)
qed simp

lemma moves_on:
  "cache_moves cfg y \<lparr>cache_threads = ts, the_store = st, the_disk = d\<rparr> \<Longrightarrow> i < length ts \<Longrightarrow>
     thread_step cfg steady wall d (ts ! i) st = Some (t, st') \<Longrightarrow>
     cache_moves cfg y \<lparr>cache_threads = ts[i := t], the_store = st', the_disk = d\<rparr>"
  using moves_thread [of cfg y "\<lparr>cache_threads = ts, the_store = st, the_disk = d\<rparr>" i steady wall t st'] by simp

section \<open>Properties\<close>

text \<open>C20: whatever the threads of the process and other processes do, between any two locked sections: the
  cache has one entry per file, each entry's size is the length of its contents, the total is their
  sum and stays within \<open>file_cache_max_size\<close>.\<close>

theorem cache_accounts_threads:
  assumes "cache_moves cfg \<lparr>cache_threads = [], the_store = empty_store, the_disk = d\<rparr> y"
  shows "umap_ok (file_cache (the_store y)) \<and>
    total_cache_size (the_store y) = (\<Sum>e\<leftarrow>file_cache (the_store y). length (content (snd e))) \<and>
    total_cache_size (the_store y) \<le> file_cache_max_size cfg"
proof -
  have "store_inv cfg (the_store y)"
    by (rule cache_moves_inv [OF assms]) (simp add: store_inv_def store_ok_def empty_store_def entries_ok_def entry_sizes_def)
  then show ?thesis by (rule store_inv_accounts)
qed

text \<open>C40: a write that falls between a reader's two looks at the cache is lost to the readers: when the file
  is written in the second in which it was modified before, the reader puts the old contents over the
  new ones, with a modification time that is right; from then on every read returns the old contents,
  for as long as reads keep coming less than the cache's lifetime apart.\<close>

theorem stale_copy_stays:
  assumes "length old \<le> file_cache_max_size cfg" "length new \<le> file_cache_max_size cfg" "d f = Some (m, old)"
  shows "\<exists>y. cache_moves cfg \<lparr>cache_threads = [], the_store = empty_store, the_disk = d\<rparr> y \<and>
    cache_threads y = [Returned f old, Saved f new] \<and> the_disk y f = Some (m, new) \<and>
    (\<forall>ts. paced (file_cache_ttl cfg - 1000000000) later (map fst ts) \<longrightarrow>
      reads_of cfg (the_disk y) f ts (the_store y) = replicate (length ts) old)"
proof -
  let ?y0 = "\<lparr>cache_threads = [], the_store = empty_store, the_disk = d\<rparr>" and ?d = "d(f \<mapsto> (m, new))"
  let ?e = "\<lambda>c t. \<lparr>content = c, mtime = m, last_check = t, fsize = length c\<rparr>"
  let ?st = "\<lambda>fc n. \<lparr>file_cache = fc, total_cache_size = n, call_counter = 1\<rparr>"
  have no_maintenance: "maybe_maintain cfg now 1 st = st" for now st by (simp add: maybe_maintain_def)
  have "cache_moves cfg ?y0 \<lparr>cache_threads = [Counted f now 1], the_store = ?st [] 0, the_disk = d\<rparr>"
    using moves_read [OF moves_refl [of cfg ?y0], of 1 f now] by (simp add: empty_store_def)
  from moves_on [OF this, of 0 0 0 "Missed f now" "?st [] 0"]
  have "cache_moves cfg ?y0 \<lparr>cache_threads = [Missed f now], the_store = ?st [] 0, the_disk = d\<rparr>"
    by (simp add: lookup_section_def no_maintenance)
  from moves_on [OF this, of 0 0 0 "Statted f now m (length old)" "?st [] 0"]
  have "cache_moves cfg ?y0 \<lparr>cache_threads = [Statted f now m (length old)], the_store = ?st [] 0, the_disk = d\<rparr>"
    using assms(3) by simp
  from moves_on [OF this, of 0 0 0 "Changed f m (length old)" "?st [] 0"]
  have "cache_moves cfg ?y0 \<lparr>cache_threads = [Changed f m (length old)], the_store = ?st [] 0, the_disk = d\<rparr>"
    by (simp add: cache_revalidate_def)
  from moves_on [OF this, of 0 0 0 "Loaded f m old" "?st [] 0"]
  have "cache_moves cfg ?y0 \<lparr>cache_threads = [Loaded f m old], the_store = ?st [] 0, the_disk = d\<rparr>"
    using assms(3) by (simp add: read_file_binary_def)
  from moves_write [where f = f and c = new and mt = m, OF this]
  have "cache_moves cfg ?y0 \<lparr>cache_threads = [Loaded f m old, Stored f new], the_store = ?st [] 0, the_disk = ?d\<rparr>" by simp
  from moves_on [OF this, of 1 now m "Saved f new" "?st [(f, ?e new now)] (length new)"]
  have "cache_moves cfg ?y0
      \<lparr>cache_threads = [Loaded f m old, Saved f new], the_store = ?st [(f, ?e new now)] (length new), the_disk = ?d\<rparr>"
    using assms(2) by (simp add: write_section_def insert_entry_def remove_entry_def evict_size_idle emplace_def Let_def)
  from moves_on [OF this, of 0 later 0 "Returned f old" "?st [(f, ?e old later)] (length old)"]
  have moves: "cache_moves cfg ?y0
      \<lparr>cache_threads = [Returned f old, Saved f new], the_store = ?st [(f, ?e old later)] (length old), the_disk = ?d\<rparr>"
    using assms(1) by (simp add: cache_fill_def insert_entry_def remove_entry_def evict_size_idle emplace_def Let_def)
  have "holds_copy cfg f m old later (?st [(f, ?e old later)] (length old))"
    using assms(1) by (simp add: holds_copy_def store_inv_def store_ok_def entries_ok_def entry_sizes_def umap_ok_def)
  then have "reads_of cfg ?d f ts (?st [(f, ?e old later)] (length old)) = replicate (length ts) old"
    if "paced (file_cache_ttl cfg - 1000000000) later (map fst ts)" for ts
    using that by (intro copy_reads [where m = m and other = new and prev = later and chk = later]) simp_all
  with moves show ?thesis
    by (intro exI [of _ "\<lparr>cache_threads = [Returned f old, Saved f new], the_store = ?st [(f, ?e old later)] (length old), the_disk = ?d\<rparr>"])
      simp
qed

lemma cache_accounts_threads_witness:
  "\<exists>y. cache_moves \<lparr>file_cache_ttl = 9, file_cache_max_size = 3\<rparr>
      \<lparr>cache_threads = [], the_store = empty_store, the_disk = Map.empty\<rparr> y \<and>
    map fst (file_cache (the_store y)) = [''s''] \<and> umap_ok (file_cache (the_store y)) \<and>
    total_cache_size (the_store y) = (\<Sum>e\<leftarrow>file_cache (the_store y). length (content (snd e))) \<and>
    total_cache_size (the_store y) \<le> 3"
proof -
  let ?cfg = "\<lparr>file_cache_ttl = 9, file_cache_max_size = 3\<rparr>"
  let ?y = "\<lparr>cache_threads = [], the_store = empty_store, the_disk = Map.empty\<rparr>"
  let ?st = "\<lparr>file_cache = [(''s'', \<lparr>content = ''ab'', mtime = 7, last_check = 5, fsize = 2\<rparr>)],
    total_cache_size = 2, call_counter = 0\<rparr>"
  have "cache_moves ?cfg ?y
      \<lparr>cache_threads = [Stored ''s'' ''ab''], the_store = empty_store, the_disk = [''s'' \<mapsto> (7, ''ab'')]\<rparr>"
    using moves_write [where f = "''s''" and c = "''ab''" and mt = 7, OF moves_refl [of ?cfg ?y]] by simp
  from moves_on [OF this, of 0 5 7 "Saved ''s'' ''ab''" ?st]
  have "cache_moves ?cfg ?y
      \<lparr>cache_threads = [Saved ''s'' ''ab''], the_store = ?st, the_disk = [''s'' \<mapsto> (7, ''ab'')]\<rparr>"
    by (simp add: write_section_def insert_entry_def remove_entry_def evict_size_idle emplace_def empty_store_def Let_def)
  with cache_accounts_threads [OF this] show ?thesis
    by (intro exI [of _ "\<lparr>cache_threads = [Saved ''s'' ''ab''], the_store = ?st, the_disk = [''s'' \<mapsto> (7, ''ab'')]\<rparr>"]) (simp add: Let_def)
qed

lemma stale_copy_stays_witness:
  "\<exists>y. cache_moves \<lparr>file_cache_ttl = 9000000000, file_cache_max_size = 3\<rparr>
      \<lparr>cache_threads = [], the_store = empty_store, the_disk = [''s'' \<mapsto> (7, ''a'')]\<rparr> y \<and>
    cache_threads y = [Returned ''s'' ''a'', Saved ''s'' ''b''] \<and> the_disk y ''s'' = Some (7, ''b'') \<and>
    reads_of \<lparr>file_cache_ttl = 9000000000, file_cache_max_size = 3\<rparr> (the_disk y) ''s''
      [(5000000000, 5000000001), (11000000000, 11000000001)] (the_store y) = [''a'', ''a'']"
proof -
  let ?cfg = "\<lparr>file_cache_ttl = 9000000000, file_cache_max_size = 3\<rparr>" and ?d = "[''s'' \<mapsto> (7, ''a'')]"
  obtain y where y: "cache_moves ?cfg \<lparr>cache_threads = [], the_store = empty_store, the_disk = ?d\<rparr> y"
      "cache_threads y = [Returned ''s'' ''a'', Saved ''s'' ''b'']" "the_disk y ''s'' = Some (7, ''b'')"
    and reads: "\<And>ts. paced 8000000000 0 (map fst ts) \<Longrightarrow>
      reads_of ?cfg (the_disk y) ''s'' ts (the_store y) = replicate (length ts) ''a''"
    using stale_copy_stays [of "''a''" ?cfg "''b''" ?d "''s''" 7 0] by auto
  from reads [of "[(5000000000, 5000000001), (11000000000, 11000000001)]"] y show ?thesis
    by (intro exI [of _ y]) (simp add: numeral_eq_Suc)
qed

end
