(* ===== verification/Pointers.thy ===== *)
theory Pointers
  imports System
begin

text \<open>
  The pointers that queued tasks hold. A task keeps a pointer to its request and one to its
  connection; \<open>worker_active\<close> keeps the request from being swept, \<open>active_workers\<close> keeps the connection
  from being closed. Both are enough as long as no request is handed to the workers a second time
  while its first task is still queued, which nothing in \<open>process_buffer\<close> rules out.
\<close>

section \<open>What the actions on a request leave alone\<close>

definition pinned :: "request \<Rightarrow> request \<Rightarrow> bool" where
  "pinned r r' \<longleftrightarrow> arena r' = arena r \<and> conn_ptr r' = conn_ptr r \<and> worker_active r' = worker_active r"

lemma pinned_refl [simp]: "pinned r r"
  by (simp add: pinned_def)

lemma pinned_simps [simp]:
  "pinned r0 (set_flag f r) = pinned r0 r" "pinned r0 (r\<lparr>env := ev\<rparr>) = pinned r0 r"
  "pinned r0 (r\<lparr>body := b\<rparr>) = pinned r0 r" "pinned r0 (r\<lparr>body_bytes := n\<rparr>) = pinned r0 r"
  "pinned r0 (r\<lparr>params_bytes := n\<rparr>) = pinned r0 r"
  by (simp_all add: pinned_def set_flag_def)

lemma pinned_fail: "pinned r0 (fst (fail_request st (r, out))) = pinned r0 r"
  by (simp add: fail_request_def)

lemma pinned_params_loop: "pinned r0 (fst (params_loop lim p (r, out))) = pinned r0 r"
proof (induction lim p "(r, out)" arbitrary: r out rule: params_loop.induct)
  case (1 lim p r out)
  obtain n p1 where d1: "decode_length p = (n, p1)" by force
  obtain v p2 where d2: "decode_length p1 = (v, p2)" by force
  let ?r = "r\<lparr>env := dv_put (string_of (take n p2)) (make_string (string_of (take v (drop n p2)))) (env r),
    params_bytes := params_bytes r + (n + v)\<rparr>"
  have "pinned r0 (fst (params_loop lim (drop (n + v) p2) (?r, out))) = pinned r0 ?r"
    if "p \<noteq> []" "\<not> length p2 < n + v" "\<not> max_params_bytes lim < params_bytes r + n + v"
    using 1 [OF that(1) d1 [symmetric] refl d2 [symmetric] refl that(2,3) refl refl refl] .
  then show ?case
    by (subst params_loop.simps) (simp add: d1 d2 Let_def pinned_fail)
qed

lemma actions_pinned:
  "pinned r (begin_action bs r)" "pinned r (fst (params_action lim bs (r, out)))"
  "pinned r (fst (stdin_action lim bs (r, out)))" "pinned r (fst (abort_action (r, out)))"
  by (auto simp: begin_action_def params_action_def stdin_action_def abort_action_def Let_def pinned_fail pinned_params_loop)

section \<open>One connection\<close>

text \<open>The arenas of the tasks that are queued for a connection.\<close>

definition tasks_for :: "int \<Rightarrow> (int \<times> nat) list \<Rightarrow> nat list" where
  "tasks_for fd ts = map snd (filter (\<lambda>t. fst t = fd) ts)"

lemma tasks_for_simps [simp]:
  "tasks_for fd [] = []" "tasks_for fd (ts @ us) = tasks_for fd ts @ tasks_for fd us"
  "tasks_for fd ((k, p) # ts) = (if k = fd then p # tasks_for fd ts else tasks_for fd ts)"
  by (simp_all add: tasks_for_def)

text \<open>The requests of a connection belong to it, its count is that of its tasks, and each task finds its request, marked.\<close>

definition backed :: "int \<Rightarrow> (u16 \<times> request) list \<Rightarrow> nat \<Rightarrow> nat list \<Rightarrow> bool" where
  "backed fd rs n ps \<longleftrightarrow> n = length ps \<and> (\<forall>i r. map_of rs i = Some r \<longrightarrow> conn_ptr r = Some fd) \<and>
     (\<forall>p\<in>set ps. \<exists>i r. map_of rs i = Some r \<and> arena r = p \<and> worker_active r)"

lemma backed_none [simp]: "backed fd [] n ps \<longleftrightarrow> n = 0 \<and> ps = []"
  by (auto simp: backed_def)

lemma backed_new:
  "backed fd rs n ps \<Longrightarrow> map_of rs i = None \<Longrightarrow> conn_ptr r = Some fd \<Longrightarrow> backed fd (AList.update i r rs) n ps"
  unfolding backed_def by (auto simp: update_conv') (metis option.distinct(1))

lemma backed_store:
  assumes "backed fd rs n ps" "map_of rs i = Some r" "pinned r r'"
  shows "backed fd (AList.update i r' rs) n ps"
  unfolding backed_def
proof (intro conjI ballI)
  show "\<forall>j q. map_of (AList.update i r' rs) j = Some q \<longrightarrow> conn_ptr q = Some fd"
    using assms by (auto simp: backed_def pinned_def update_conv')
  fix p assume "p \<in> set ps"
  with assms(1) obtain j q where j: "map_of rs j = Some q" "arena q = p" "worker_active q" by (auto simp: backed_def)
  then show "\<exists>j q. map_of (AList.update i r' rs) j = Some q \<and> arena q = p \<and> worker_active q"
    using assms(2,3) by (cases "j = i") (auto simp: pinned_def update_conv')
qed (use assms in \<open>simp add: backed_def\<close>)

lemma backed_delete:
  assumes "backed fd rs n ps" "map_of rs i = Some r" "\<not> worker_active r"
  shows "backed fd (AList.delete i rs) n ps"
  using assms unfolding backed_def by (auto simp: delete_conv') (metis option.inject)

lemma backed_enqueue:
  assumes "backed fd rs n ps" "map_of rs i = Some r" "arena r' = arena r" "conn_ptr r' = Some fd" "worker_active r'"
  shows "backed fd (AList.update i r' rs) (n + 1) (ps @ [arena r])"
  unfolding backed_def
proof (intro conjI ballI)
  show "\<forall>j q. map_of (AList.update i r' rs) j = Some q \<longrightarrow> conn_ptr q = Some fd"
    using assms by (auto simp: backed_def update_conv')
  fix p assume "p \<in> set (ps @ [arena r])"
  then consider "p = arena r" | "p \<in> set ps" by auto
  then show "\<exists>j q. map_of (AList.update i r' rs) j = Some q \<and> arena q = p \<and> worker_active q"
  proof cases
    case 1
    then show ?thesis using assms(3,5) by (intro exI [of _ i] exI [of _ r']) (simp add: update_conv')
  next
    case 2
    with assms(1) obtain j q where j: "map_of rs j = Some q" "arena q = p" "worker_active q" by (auto simp: backed_def)
    then show ?thesis using assms(2,3,5) by (cases "j = i") (auto simp: update_conv')
  qed
qed (use assms in \<open>simp add: backed_def\<close>)

lemma backed_dequeue:
  assumes "backed fd rs n (ps @ p # qs)" "map_of rs i = Some r" "arena r = p" "conn_ptr r' = conn_ptr r" "p \<notin> set (ps @ qs)"
  shows "backed fd (AList.update i r' rs) (n - 1) (ps @ qs)"
  unfolding backed_def
proof (intro conjI ballI)
  show "\<forall>j q. map_of (AList.update i r' rs) j = Some q \<longrightarrow> conn_ptr q = Some fd"
    using assms by (auto simp: backed_def update_conv')
  fix p' assume p': "p' \<in> set (ps @ qs)"
  then have "p' \<in> set (ps @ p # qs)" by auto
  with assms(1) obtain j q where j: "map_of rs j = Some q" "arena q = p'" "worker_active q" unfolding backed_def by blast
  moreover have "j \<noteq> i" using j p' assms(2,3,5) by auto
  ultimately show "\<exists>j q. map_of (AList.update i r' rs) j = Some q \<and> arena q = p' \<and> worker_active q"
    by (intro exI [of _ j] exI [of _ q]) (simp add: update_conv')
qed (use assms(1) in \<open>simp add: backed_def\<close>)

text \<open>The records of one read; the tasks of other connections stay as they were in \<open>T\<close>.\<close>

definition io_tasks :: "int \<Rightarrow> (int \<times> nat) list \<Rightarrow> io_world fcgi_state \<Rightarrow> bool" where
  "io_tasks fd T f \<longleftrightarrow> backed fd (requests f) (iw_active (world f)) (tasks_for fd (iw_tasks (world f))) \<and>
     (\<forall>k. k \<noteq> fd \<longrightarrow> tasks_for k (iw_tasks (world f)) = tasks_for k T)"

lemma io_tasks_cong [simp]:
  "io_tasks fd T (f\<lparr>out_buf := b\<rparr>) = io_tasks fd T f" "io_tasks fd T (f\<lparr>waiting_for_arena := v\<rparr>) = io_tasks fd T f"
  by (simp_all add: io_tasks_def)

lemma io_tasks_current:
  assumes "io_tasks fd T f" "current_req (io_callbacks g now fd) i f = (q, f')"
  shows "io_tasks fd T f' \<and> (case q of None \<Rightarrow> True | Some r \<Rightarrow> map_of (requests f') i = Some r)"
  using assms
  by (auto simp: current_req_def io_callbacks_def allocate_request_in_def io_tasks_def update_conv' intro!: backed_new
      split: option.splits prod.splits)

lemma io_tasks_store:
  "io_tasks fd T f \<Longrightarrow> map_of (requests f) i = Some r \<Longrightarrow> pinned r r' \<Longrightarrow> io_tasks fd T (store_req i r' f)"
  by (auto simp: io_tasks_def store_req_def intro: backed_store)

lemma io_tasks_finish:
  assumes "io_tasks fd T f" "map_of (requests f) i = Some r" "pinned r r'"
  shows "io_tasks fd T (finish_record (io_callbacks g now fd) i (r', out) f)"
proof -
  let ?f1 = "store_req i r' (f\<lparr>out_buf := out\<rparr>)"
  have ok: "io_tasks fd T ?f1" using io_tasks_store [of fd T "f\<lparr>out_buf := out\<rparr>" i r r'] assms by simp
  have m: "map_of (requests ?f1) i = Some r'" by (simp add: store_req_def)
  have own: "conn_ptr r' = Some fd" using ok m by (auto simp: io_tasks_def backed_def)
  show ?thesis
  proof (cases "has RESPONDED r'")
    case True
    then show ?thesis using ok by (simp add: finish_record_def is_ready_def)
  next
    case False
    let ?r2 = "r'\<lparr>env := strip_path_prefix g (env r'), worker_active := True\<rparr>" and ?w = "world ?f1"
    have "io_tasks fd T (store_req i ?r2 (?f1\<lparr>world := ?w\<lparr>iw_active := iw_active ?w + 1, iw_tasks := iw_tasks ?w @ [(fd, arena r')]\<rparr>\<rparr>))"
      using ok backed_enqueue [of fd "requests ?f1" _ _ i r' ?r2] m own by (simp add: io_tasks_def) (simp add: store_req_def)
    then show ?thesis using ok own False
      by (simp add: finish_record_def Let_def io_callbacks_def internal_on_request_ready_def)
  qed
qed

lemma io_tasks_handle:
  assumes "io_tasks fd T f"
  shows "case handle_record lim (io_callbacks g now fd) rc f of Inl f' \<Rightarrow> io_tasks fd T f' | Inr f' \<Rightarrow> io_tasks fd T f'"
proof -
  obtain ty i bs where rc: "rc = Record ty i bs" by (cases rc)
  obtain q f' where c: "current_req (io_callbacks g now fd) i f = (q, f')" by force
  note p = io_tasks_current [OF assms c]
  have fin: "io_tasks fd T (finish_record (io_callbacks g now fd) i x f')" if "q = Some r" "pinned r (fst x)" for r x
    using p that io_tasks_finish [of fd T f' i r "fst x" g now "snd x"] by simp
  show ?thesis using p c assms
    by (cases q) (auto simp: handle_record_def with_request_def rc actions_pinned intro!: fin)
qed

lemma io_tasks_process:
  assumes "io_tasks fd T f" "process_buffer lim (io_callbacks g now fd) buf f = (st, rest, f')"
  shows "io_tasks fd T f'"
proof -
  from process_buffer_loop [OF assms(2)] obtain e r where
    l: "record_loop lim (io_callbacks g now fd) buf f = (e, r, f')" by blast
  show ?thesis
  proof (rule fcgi_loop.run_invariant [where I = "io_tasks fd T", OF l assms(1)])
    fix rc f f' assume "io_tasks fd T f"
    from io_tasks_handle [OF this, of lim g now rc]
    show "handle_record lim (io_callbacks g now fd) rc f = Inl f' \<Longrightarrow> io_tasks fd T f'"
      "handle_record lim (io_callbacks g now fd) rc f = Inr f' \<Longrightarrow> io_tasks fd T f'" by auto
  qed
qed

section \<open>The server\<close>

definition entry_ok :: "int \<Rightarrow> connection option \<Rightarrow> nat list \<Rightarrow> bool" where
  "entry_ok fd entry ps \<longleftrightarrow> (case entry of None \<Rightarrow> ps = [] | Some c \<Rightarrow> backed fd (c_requests c) (active_workers c) ps)"

lemma entry_ok_simps [simp]:
  "entry_ok fd None ps \<longleftrightarrow> ps = []" "entry_ok fd (Some c) ps \<longleftrightarrow> backed fd (c_requests c) (active_workers c) ps"
  by (simp_all add: entry_ok_def)

definition tasks_ok :: "server \<Rightarrow> bool" where
  "tasks_ok s \<longleftrightarrow> (\<forall>fd. entry_ok fd (map_of (conns s) fd) (tasks_for fd (fcgi_tasks s)))"

lemma tasks_ok_conn:
  "tasks_ok s \<Longrightarrow> map_of (conns s) fd = Some c \<Longrightarrow> backed fd (c_requests c) (active_workers c) (tasks_for fd (fcgi_tasks s))"
  unfolding tasks_ok_def by (metis entry_ok_simps(2))

lemma tasks_ok_change:
  assumes "tasks_ok s" "fcgi_tasks s' = fcgi_tasks s" "map_of (conns s') = (map_of (conns s))(fd \<mapsto> c)"
    and "backed fd (c_requests c) (active_workers c) (tasks_for fd (fcgi_tasks s))"
  shows "tasks_ok s'"
  using assms by (simp add: tasks_ok_def)

lemma tasks_ok_process:
  assumes "tasks_ok s"
  shows "tasks_ok (process_fcgi e now fd s)"
proof (cases "map_of (conns s) fd")
  case (Some c)
  obtain st rest f where p: "process_buffer (config_limits (se_config e)) (io_callbacks (se_config e) now fd)
      (c_in_buf c) (load_io c s) = (st, rest, f)" by (metis prod_cases3)
  have "io_tasks fd (fcgi_tasks s) (load_io c s)"
    using tasks_ok_conn [OF assms Some] by (simp add: io_tasks_def load_io_def)
  from io_tasks_process [OF this p] have f: "io_tasks fd (fcgi_tasks s) f" .
  have "entry_ok k (map_of (conns s) k) (tasks_for k (fcgi_tasks s))" for k using assms by (simp add: tasks_ok_def)
  then have "tasks_ok (store_io fd (c\<lparr>c_in_buf := rest, c_closed := (st = CLOSE)\<rparr>) f s)"
    using f by (auto simp: tasks_ok_def store_io_def io_tasks_def)
  with Some p assms show ?thesis by (simp add: process_fcgi_def)
qed (use assms in \<open>simp add: process_fcgi_def\<close>)

interpretation pointers: server_invariant tasks_ok
proof
  show "tasks_ok s'" if "tasks_ok s" "conns s' = conns s" "pool s' = pool s" "fcgi_tasks s' = fcgi_tasks s" for s s'
    using that by (simp add: tasks_ok_def)
  show "tasks_ok (put_conn fd c' s)" if "tasks_ok s" "map_of (conns s) fd = Some c" "c_requests c' = c_requests c"
    "active_workers c' = active_workers c" for s fd c c'
    using that tasks_ok_conn [OF that(1,2)] by (intro tasks_ok_change [OF that(1), of _ fd c']) (simp_all add: put_conn_def)
qed (rule tasks_ok_process)

lemma tasks_ok_pool [simp]: "tasks_ok (s\<lparr>pool := p\<rparr>) = tasks_ok s"
  by (simp add: tasks_ok_def)

lemma put_tasks_ok:
  "tasks_ok s \<Longrightarrow> backed fd (c_requests c) (active_workers c) (tasks_for fd (fcgi_tasks s)) \<Longrightarrow> tasks_ok (put_conn fd c s)"
  by (erule tasks_ok_change [of _ _ fd c]) (simp_all add: put_conn_def)

section \<open>Sweeping and closing\<close>

lemma release_tasks:
  assumes "release_request e now busy r s = Some s'" "tasks_ok s"
  shows "tasks_ok s'" "busy = Some fd \<Longrightarrow> map_of (conns s') fd = map_of (conns s) fd"
  using pointers.release [OF assms(1)] assms(2) by simp_all

lemma cleanup_loop_tasks:
  "cleanup_loop e now fd rs s = Some s' \<Longrightarrow> tasks_ok s \<Longrightarrow> tasks_ok s' \<and> map_of (conns s') fd = map_of (conns s) fd"
proof (induction rs arbitrary: s)
  case (Cons ir rs)
  obtain i r where ir: "ir = (i, r)" by force
  define s1 where "s1 = (if \<not> has RESPONDED r then finalize_files (se_config e) r s else s)"
  have s1: "tasks_ok s1" "conns s1 = conns s" using Cons.prems(2) by (simp_all add: s1_def)
  obtain s2 where s2: "release_request e now (Some fd) r s1 = Some s2" "cleanup_loop e now fd rs s2 = Some s'"
    using Cons.prems(1) by (auto simp: ir s1_def [symmetric] Let_def bind_eq_Some_conv)
  from Cons.IH [OF s2(2)] release_tasks [OF s2(1) s1(1)] s1(2) show ?case by simp
qed simp

lemma should_close_idle: "should_close_connection c \<Longrightarrow> active_workers c = 0"
  by (auto simp: should_close_connection_def split: if_splits)

text \<open>A connection that no worker is active for can be closed.\<close>

lemma close_tasks:
  assumes "close_connection e now fd s = Some s'" "tasks_ok s" "map_of (conns s) fd = Some c" "active_workers c = 0"
  shows "tasks_ok s'"
proof -
  obtain s1 where s1: "cleanup_loop e now fd (c_requests c) s = Some s1"
    and s': "fcgi_tasks s' = fcgi_tasks s1" "map_of (conns s') = (map_of (conns s1))(fd := None)"
    using assms(1,3) by (auto simp: close_connection_def cleanup_connection_requests_def bind_eq_Some_conv delete_conv'
        put_conn_def update_conv' fun_eq_iff)
  have ok: "tasks_ok s1" "map_of (conns s1) fd = Some c" using cleanup_loop_tasks [OF s1 assms(2)] assms(3) by simp_all
  have "tasks_for fd (fcgi_tasks s1) = []" using tasks_ok_conn [OF ok] assms(4) by (simp add: backed_def)
  with ok(1) show ?thesis by (simp add: tasks_ok_def s')
qed

lemma sweep_tasks: "sweep_requests e now fd ids s = Some s' \<Longrightarrow> tasks_ok s \<Longrightarrow> tasks_ok s'"
proof (induction ids arbitrary: s)
  case (Cons i ids)
  show ?case
  proof (cases "\<exists>c r. map_of (conns s) fd = Some c \<and> map_of (c_requests c) i = Some r \<and> \<not> worker_active r \<and>
      (has RESPONDED r \<or> has FAILED r \<or> has ABORTED r)")
    case True
    then obtain c r where cr: "map_of (conns s) fd = Some c" "map_of (c_requests c) i = Some r" "\<not> worker_active r"
      "has RESPONDED r \<or> has FAILED r \<or> has ABORTED r" by blast
    define s1 where "s1 = (if has RESPONDED r then finalize_files (se_config e) r s else s)"
    have s1: "tasks_ok s1" "conns s1 = conns s" using Cons.prems(2) by (simp_all add: s1_def)
    obtain s2 where s2: "release_request e now (Some fd) r s1 = Some s2"
      "sweep_requests e now fd ids (put_conn fd (c\<lparr>c_requests := AList.delete i (c_requests c)\<rparr>) s2) = Some s'"
      using Cons.prems(1) cr by (auto simp: s1_def [symmetric] Let_def bind_eq_Some_conv split: if_splits)
    have ok2: "tasks_ok s2" "map_of (conns s2) fd = Some c" using release_tasks [OF s2(1) s1(1)] s1(2) cr(1) by simp_all
    have "tasks_ok (put_conn fd (c\<lparr>c_requests := AList.delete i (c_requests c)\<rparr>) s2)"
      using tasks_ok_conn [OF ok2] cr by (intro put_tasks_ok [OF ok2(1)]) (simp add: backed_delete)
    then show ?thesis by (rule Cons.IH [OF s2(2)])
  next
    case False
    then have "sweep_requests e now fd ids s = Some s' \<or> s' = s"
      using Cons.prems(1) by (auto split: option.splits if_splits)
    then show ?thesis using Cons by blast
  qed
qed simp

lemma fresh_tasks: "tasks_ok s \<Longrightarrow> map_of (conns s) fd = None \<Longrightarrow> tasks_ok (put_conn fd (new_connection\<lparr>c_fd := k\<rparr>) s)"
  unfolding tasks_ok_def [of s] by (intro put_tasks_ok) (auto simp: tasks_ok_def dest: spec [of _ fd])

lemma close_all_tasks: "close_all e now fds s = Some s' \<Longrightarrow> tasks_ok s \<Longrightarrow> tasks_ok s'"
proof (induction fds arbitrary: s)
  case (Cons fd fds)
  define s1 where "s1 = (if map_of (conns s) fd = None then put_conn fd new_connection s else s)"
  have s1: "tasks_ok s1" using Cons.prems(2) fresh_tasks [of s fd "- 1"] by (simp add: s1_def new_connection_def)
  from Cons.prems(1) obtain c where c: "map_of (conns s1) fd = Some c"
    "(if should_close_connection c then do { s2 \<leftarrow> close_connection e now fd s1; close_all e now fds s2 }
      else close_all e now fds s1) = Some s'"
    by (auto simp: s1_def [symmetric] Let_def split: option.splits)
  then show ?case using Cons.IH s1 close_tasks [OF _ s1 c(1)] should_close_idle
    by (auto simp: bind_eq_Some_conv split: if_splits)
qed simp

section \<open>The other events\<close>

lemma accept_tasks: "tasks_ok s \<Longrightarrow> tasks_ok (accept_loop lfd fds s)"
proof (induction fds arbitrary: s)
  case (Cons cfd fds)
  have "tasks_ok (put_conn cfd ((case map_of (conns s) cfd of None \<Rightarrow> new_connection | Some c \<Rightarrow> c)\<lparr>c_fd := cfd\<rparr>) (s\<lparr>interest := ep\<rparr>))"
    for ep
    using Cons.prems fresh_tasks [of "s\<lparr>interest := ep\<rparr>" cfd cfd] pointers.put [of "s\<lparr>interest := ep\<rparr>" cfd]
    by (cases "map_of (conns s) cfd") simp_all
  then show ?case by (simp add: Let_def Cons.IH)
qed simp

text \<open>A callback that leaves the marks of the request alone.\<close>

definition keeps_marks :: "(request \<times> bytes \<times> files_world \<Rightarrow> request \<times> bytes \<times> files_world) \<Rightarrow> bool" where
  "keeps_marks cb \<longleftrightarrow> (\<forall>r out fw. pinned r (fst (cb (r, out, fw))))"

lemma write_request_tasks:
  assumes "tasks_ok s" "map_of (conns s) fd = Some c" "map_of (c_requests c) i = Some r" "pinned r r'"
  shows "tasks_ok (write_request fd i r' s)"
  using assms backed_store [OF tasks_ok_conn [OF assms(1,2)] assms(3,4)]
  by (simp add: write_request_def put_tasks_ok)

lemma pending_tasks:
  assumes "keeps_marks (user_request_ready e)" "keeps_place (user_request_ready e)"
  shows "pending_loop e ps s = Some s' \<Longrightarrow> server_ok A M s \<Longrightarrow> tasks_ok s \<Longrightarrow> tasks_ok s'"
proof (induction ps arbitrary: s)
  case (Cons p ps)
  then obtain owner i r where d: "deref p (conns s) = Some (owner, i, r)" by (auto split: option.splits)
  from server_deref [OF Cons.prems(2) d] obtain c where c: "map_of (conns s) owner = Some c" "map_of (c_requests c) i = Some r"
    by blast
  obtain r' out fw where u: "user_request_ready e (r, [], disk_files s) = (r', out, fw)" by (metis prod_cases3)
  then have k: "pinned r r'" "same_place r r'" using assms by (metis keeps_marks_def keeps_place_def fst_conv)+
  have "tasks_ok (append_output fd out (write_request owner i r' (s\<lparr>disk_files := fw\<rparr>)))"
    "server_ok A M (append_output fd out (write_request owner i r' (s\<lparr>disk_files := fw\<rparr>)))" for fd
    using Cons.prems(2,3) c k
    by (intro pointers.append write_request_tasks [where c = c and r = r]
        accounts.append write_request_ok [where c = c and r = r]; simp)+
  then show ?case
    using Cons.prems d u Cons.IH by (auto split: if_splits option.splits)
qed simp

text \<open>The timer, when nobody waits for an arena.\<close>

lemma close_quiet_tasks:
  assumes "close_connection e now fd s = Some s'" "waiting_conns s = []"
  shows "fcgi_tasks s' = fcgi_tasks s"
proof (cases "map_of (conns s) fd")
  case None
  with assms show ?thesis by (simp add: close_connection_def)
next
  case (Some c)
  obtain p ep pa fw where "cleanup_loop e now fd (c_requests c) s =
      Some (s\<lparr>pool := p, interest := ep, accept_paused := pa, disk_files := fw\<rparr>)"
    using cleanup_quiet [OF assms(2)] by blast
  then show ?thesis using Some assms(1) by (auto simp: close_connection_def cleanup_connection_requests_def put_conn_def)
qed

lemma close_listed_tasks:
  "close_listed e now fds s = Some s' \<Longrightarrow> tasks_ok s \<Longrightarrow> waiting_conns s = [] \<Longrightarrow>
     (\<And>fd c. fd \<in> set fds \<Longrightarrow> map_of (conns s) fd = Some c \<Longrightarrow> active_workers c = 0) \<Longrightarrow> tasks_ok s'"
proof (induction fds arbitrary: s)
  case (Cons fd fds)
  obtain s1 where s1: "close_connection e now fd s = Some s1" "close_listed e now fds s1 = Some s'"
    using Cons.prems(1) by (auto simp: bind_eq_Some_conv)
  have q: "waiting_conns s1 = []" "map_of (conns s1) = (map_of (conns s))(fd := None)"
    using close_quiet [OF Cons.prems(3), of e now fd] s1(1) by auto
  have "tasks_ok s1"
  proof (cases "map_of (conns s) fd")
    case None
    with s1(1) Cons.prems(2) show ?thesis by (simp add: close_connection_def)
  next
    case (Some c)
    with Cons.prems(4) [of fd c] show ?thesis by (intro close_tasks [OF s1(1) Cons.prems(2) Some]) simp
  qed
  then show ?case using Cons.prems(4) q by (intro Cons.IH [OF s1(2)]) (auto split: if_splits)
qed simp

lemma expired_pinned [simp]: "pinned r (expired g now r)"
  by (simp add: expired_def)

lemma expire_backed: "backed fd (c_requests c) n ps \<Longrightarrow> backed fd (c_requests (expire_connection g now c)) n ps"
proof -
  assume "backed fd (c_requests c) n ps"
  then show ?thesis using expired_pinned [unfolded pinned_def]
    by (fastforce simp: backed_def expire_connection_requests map_of_map)
qed

lemma expire_active [simp]: "active_workers (expire_connection g now c) = active_workers c"
  by (simp add: expire_connection_def split: prod.split)

lemma housekeeping_tasks:
  assumes "housekeeping_close_idle e now s = Some s'" "tasks_ok s" "waiting_conns s = []" "umap_ok (conns s)"
  shows "tasks_ok s'"
proof -
  let ?x = "expire_connection (se_config e) now"
  define cs where "cs = map (\<lambda>(fd, c). (fd, ?x c)) (conns s)"
  have m: "map_of cs fd = map_option ?x (map_of (conns s) fd)" for fd by (simp add: cs_def map_of_map)
  have ok: "tasks_ok (s\<lparr>conns := cs\<rparr>)" unfolding tasks_ok_def
  proof
    fix fd
    have "entry_ok fd (map_of (conns s) fd) (tasks_for fd (fcgi_tasks s))" using assms(2) by (simp add: tasks_ok_def)
    then show "entry_ok fd (map_of (conns (s\<lparr>conns := cs\<rparr>)) fd) (tasks_for fd (fcgi_tasks (s\<lparr>conns := cs\<rparr>)))"
      by (cases "map_of (conns s) fd") (simp_all add: m expire_backed)
  qed
  have u: "umap_ok cs" using assms(4) by (simp add: cs_def umap_ok_def comp_def case_prod_beta)
  have idle: "active_workers c = 0"
    if listed: "fd \<in> set (map fst (filter (\<lambda>(fd, c). should_close_connection c) cs))" and c: "map_of cs fd = Some c" for fd c
  proof -
    obtain c' where "(fd, c') \<in> set cs" "should_close_connection c'" using listed by force
    with u c show ?thesis by (metis map_of_is_SomeI option.inject should_close_idle umap_ok_def)
  qed
  have "close_listed e now (map fst (filter (\<lambda>(fd, c). should_close_connection c) cs)) (s\<lparr>conns := cs\<rparr>) = Some s'"
    using assms(1) by (simp add: housekeeping_close_idle_def cs_def Let_def)
  then show ?thesis by (rule close_listed_tasks [OF _ ok]) (use assms(3) idle in auto)
qed

section \<open>The worker's side\<close>

text \<open>A task that is queued finds its request and its connection.\<close>

lemma queued_task:
  assumes "tasks_ok s" "k < length (fcgi_tasks s)" "fcgi_tasks s ! k = (fd, p)"
  obtains c i r where "map_of (conns s) fd = Some c" "map_of (c_requests c) i = Some r" "arena r = p" "worker_active r"
proof -
  have "(fd, p) \<in> set (fcgi_tasks s)" using assms(2,3) by (metis nth_mem)
  then have t: "p \<in> set (tasks_for fd (fcgi_tasks s))" by (force simp: tasks_for_def)
  then obtain c where c: "map_of (conns s) fd = Some c"
    using assms(1) by (cases "map_of (conns s) fd") (auto simp: tasks_ok_def dest: spec [of _ fd])
  with tasks_ok_conn [OF assms(1) c] t that show thesis by (auto simp: backed_def)
qed

lemma task_result:
  assumes "whole A B s" "k < length (fcgi_tasks s)" "fcgi_tasks s ! k = (fd, arena r)"
    and "map_of (conns s) fd = Some c" "map_of (c_requests c) i = Some r"
  obtains s' r' where "run_fcgi_task e k ti s = Some s'"
    "fcgi_tasks s' = take k (fcgi_tasks s) @ drop (Suc k) (fcgi_tasks s)" "conn_ptr r' = conn_ptr r"
    "map_of (conns s') = (map_of (conns s))(fd \<mapsto>
      c\<lparr>c_requests := AList.update i r' (c_requests c), active_workers := active_workers c - 1\<rparr>)"
proof -
  define s1 where "s1 = s\<lparr>fcgi_tasks := take k (fcgi_tasks s) @ drop (Suc k) (fcgi_tasks s)\<rparr>"
  have d: "deref (arena r) (conns s1) = Some (fd, i, r)" "map_of (conns s1) fd = Some c"
    using deref_held [OF assms(1,4,5) count_mset_set_le] assms(4) by (simp_all add: s1_def)
  obtain r1 s2 where s2: "(if \<not> has RESPONDED r \<and> \<not> c_closed c
      then case task_body e ti (r, disk_files s1) of
             (r1, fw) \<Rightarrow> (r1, s1\<lparr>disk_files := fw, pending_output := pending_output s1 @ [arena r]\<rparr>)
      else (r, s1)) = (r1, s2)" by force
  then have r1: "same_place r r1" "conns s2 = conns s1" "fcgi_tasks s2 = fcgi_tasks s1"
    using task_body_place by (auto simp: task_keeps_def split: if_splits prod.splits)
  let ?r' = "r1\<lparr>worker_active := False\<rparr>"
  let ?c = "c\<lparr>c_requests := AList.update i ?r' (c_requests c)\<rparr>"
  have "run_fcgi_task e k ti s = Some (put_conn fd (?c\<lparr>active_workers := active_workers c - 1\<rparr>) (put_conn fd ?c s2))"
    using assms(2,3) d r1(2)
    unfolding run_fcgi_task_def Let_def assms(3) prod.case s1_def [symmetric] d option.case s2
    by (simp add: write_request_def d)
  then show thesis
    by (rule that [where r' = ?r']) (use r1 in \<open>simp_all add: same_place_def put_conn_def s1_def update_conv' fun_eq_iff\<close>)
qed

lemma task_tasks:
  assumes "run_fcgi_task e k ti s = Some s'" "tasks_ok s" "whole A B s" "distinct (map snd (fcgi_tasks s))"
  shows "tasks_ok s'"
proof (cases "k < length (fcgi_tasks s)")
  case False
  with assms(1,2) show ?thesis by (simp add: run_fcgi_task_def)
next
  case True
  let ?ts = "fcgi_tasks s"
  obtain fd p where t: "?ts ! k = (fd, p)" by force
  obtain c i r where c: "map_of (conns s) fd = Some c" "map_of (c_requests c) i = Some r" "arena r = p"
    using queued_task [OF assms(2) True t] by metis
  obtain r' where r': "fcgi_tasks s' = take k ?ts @ drop (Suc k) ?ts" "conn_ptr r' = conn_ptr r"
    "map_of (conns s') = (map_of (conns s))(fd \<mapsto>
      c\<lparr>c_requests := AList.update i r' (c_requests c), active_workers := active_workers c - 1\<rparr>)"
    by (rule task_result [OF assms(3) True t [folded c(3)] c(1,2), of e ti]) (use assms(1) in simp)
  have split: "?ts = take k ?ts @ (fd, p) # drop (Suc k) ?ts" using id_take_nth_drop [OF True] t by simp
  define ps where "ps = tasks_for fd (fcgi_tasks s')"
  have b: "tasks_for fd ?ts = tasks_for fd (take k ?ts) @ p # tasks_for fd (drop (Suc k) ?ts)"
    "ps = tasks_for fd (take k ?ts) @ tasks_for fd (drop (Suc k) ?ts)"
    unfolding ps_def r'(1) by (subst split) simp_all
  have others: "tasks_for j (fcgi_tasks s') = tasks_for j ?ts" if "j \<noteq> fd" for j
    using that unfolding r'(1) by (subst (3) split) simp
  have "p \<notin> set ps"
  proof -
    have "set ps \<subseteq> set (map snd (take k ?ts)) \<union> set (map snd (drop (Suc k) ?ts))" by (auto simp: b(2) tasks_for_def)
    moreover have "distinct (map snd (take k ?ts) @ p # map snd (drop (Suc k) ?ts))"
      using assms(4) by (subst (asm) split) simp
    ultimately show ?thesis by auto
  qed
  moreover have bk: "backed fd (c_requests c) (active_workers c) (tasks_for fd ?ts)" by (rule tasks_ok_conn [OF assms(2) c(1)])
  ultimately have "backed fd (AList.update i r' (c_requests c)) (active_workers c - 1) ps"
    using c(2,3) r'(2) unfolding b by (intro backed_dequeue) simp_all
  then show ?thesis using assms(2) others by (auto simp: tasks_ok_def r'(3) ps_def)
qed

section \<open>Runs that hand over once\<close>

lemma server_step_tasks:
  assumes "keeps_marks (user_request_ready e)" "keeps_place (user_request_ready e)" "server_step e (ev, rs) s = Some s'"
    and "whole A B s" "tasks_ok s" "distinct (map snd (fcgi_tasks s))" "\<And>now. ev = Timer now \<Longrightarrow> waiting_conns s = []"
  shows "tasks_ok s'"
proof (cases ev)
  case (Accepted fds)
  with assms(3,5) accept_tasks [of "s\<lparr>sends := rs\<rparr>"] show ?thesis by (auto simp: handler_defs Let_def)
next
  case Output_ready
  with assms(3,4,5) pending_tasks [OF assms(1,2), of "pending_output s" "s\<lparr>sends := rs, pending_output := []\<rparr>" s']
  show ?thesis by (simp add: handler_defs)
next
  case (Timer now)
  then have "housekeeping_close_idle e now (s\<lparr>sends := rs\<rparr>) = Some s'" using assms(3) by (simp add: server_step_def)
  then show ?thesis by (rule housekeeping_tasks) (use assms(4,5,7) Timer in \<open>simp_all add: server_ok_def\<close>)
next
  case (Io now fd events received eof)
  then have "handle_io e now fd events received eof (s\<lparr>sends := rs\<rparr>) = Some s'" using assms(3) by (simp add: server_step_def)
  then show ?thesis by (rule pointers.handle_io) (use assms(5) sweep_tasks close_all_tasks in auto)
next
  case (Worker k ti)
  then have "run_fcgi_task e k ti (s\<lparr>sends := rs\<rparr>) = Some s'" using assms(3) by (simp add: server_step_def)
  then show ?thesis by (rule task_tasks) (use assms(4-6) in simp_all)
qed

text \<open>
  Runs of the program in which no arena is ever in two queued tasks, and nobody waits for an arena when
  the timer fires: the closes of the timer give arenas back, which may start requests on connections
  that it has already decided to close.
\<close>

inductive orderly_run :: "server_env \<Rightarrow> files_world ws_env \<Rightarrow> system \<Rightarrow> system \<Rightarrow> bool" for se we y where
  orderly_refl: "orderly_run se we y y"
| orderly_step: "orderly_run se we y y' \<Longrightarrow> reported se ev y' \<Longrightarrow> system_step se we ev y' = Some y'' \<Longrightarrow>
    distinct (map snd (fcgi_tasks (fcgi y''))) \<Longrightarrow>
    (\<forall>now rs. ev = Fcgi (Timer now, rs) \<longrightarrow> waiting_conns (fcgi y') = []) \<Longrightarrow> orderly_run se we y y''"

lemma orderly_system_run: "orderly_run se we y y' \<Longrightarrow> system_run se we y y'"
  by (induction rule: orderly_run.induct) (auto intro: system_run.intros)

lemma system_share: "system_ok A y \<Longrightarrow> \<exists>B. whole A B (fcgi y)"
  unfolding system_ok_def by (metis part_of_set(1))

lemma system_step_tasks:
  assumes "keeps_marks (user_request_ready se)" "keeps_place (user_request_ready se)" "system_step se we ev y = Some y'"
    and "system_ok A y" "tasks_ok (fcgi y)" "distinct (map snd (fcgi_tasks (fcgi y)))"
    and "\<And>now rs. ev = Fcgi (Timer now, rs) \<Longrightarrow> waiting_conns (fcgi y) = []"
  shows "tasks_ok (fcgi y')"
proof (cases ev)
  case (Fcgi x)
  obtain i rs where x: "x = (i, rs)" by force
  with assms(3) Fcgi obtain s where s: "server_step se (i, rs) (fcgi y) = Some s" "fcgi y' = s"
    by (auto simp: system_step_def split: option.splits)
  obtain B where "whole A B (fcgi y)" using system_share [OF assms(4)] by blast
  from server_step_tasks [OF assms(1,2) s(1) this assms(5,6)] assms(7) Fcgi x s(2) show ?thesis by simp
next
  case (Ws i)
  with assms(3,5) show ?thesis by (auto simp: system_step_def ws_store_def split: option.splits)
qed

lemma orderly_tasks:
  "orderly_run se we y y' \<Longrightarrow> keeps_marks (user_request_ready se) \<Longrightarrow> keeps_place (user_request_ready se) \<Longrightarrow>
     system_ok A y \<Longrightarrow> tasks_ok (fcgi y) \<Longrightarrow> distinct (map snd (fcgi_tasks (fcgi y))) \<Longrightarrow>
     system_ok A y' \<and> tasks_ok (fcgi y') \<and> distinct (map snd (fcgi_tasks (fcgi y')))"
  by (induction rule: orderly_run.induct) (auto dest: system_step_ok intro: system_step_tasks)

lemma answer_keeps_marks: "keeps_marks (answer_request g cfg dr used)"
  by (auto simp: keeps_marks_def pinned_def answer_request_def Let_def set_flag_def split: prod.split)

section \<open>A request that is handed over twice\<close>

text \<open>One record arrives on a connection.\<close>

lemma record_processed:
  assumes "map_of (conns s) fd = Some c" "\<not> c_closed c" "c_in_buf c = encode_record rc" "record_fits rc"
    and "handle_record (config_limits (se_config e)) (io_callbacks (se_config e) now fd) rc (load_io c s) = Inr f"
  shows "process_fcgi e now fd s = store_io fd (c\<lparr>c_in_buf := [], c_closed := False\<rparr>) f s"
proof -
  have "record_loop (config_limits (se_config e)) (io_callbacks (se_config e) now fd) (encode_record rc @ []) (load_io c s) =
      (Starved, [], f)"
    unfolding record_loop_encode [OF assms(4,5)] by (simp add: record_loop.simps next_record_def)
  then show ?thesis using assms(1-3) by (simp add: process_fcgi_def process_buffer_def)
qed

abbreviation one_request :: "int \<Rightarrow> u16 \<Rightarrow> request \<Rightarrow> nat \<Rightarrow> connection" where
  "one_request fd i r n \<equiv> (fresh_conn fd)\<lparr>c_requests := [(i, r)], active_workers := n\<rparr>"

text \<open>The end of the input once more: the request, which is ready, is handed over again.\<close>

lemma handed_over_again:
  assumes c: "map_of (conns s) fd = Some (one_request fd i r n)" "0 < n" "close_queue s = []"
    and r: "is_ready r" "conn_ptr r = Some fd" "worker_active r"
  shows "\<exists>r' s'. handle_io e now fd EPOLLIN (encode_record (Record FCGI_STDIN i [])) False s = Some s' \<and>
    map_of (conns s') fd = Some (one_request fd i r' (n + 1)) \<and> fcgi_tasks s' = fcgi_tasks s @ [(fd, arena r)] \<and>
    close_queue s' = [] \<and> waiting_conns s' = waiting_conns s \<and> is_ready r' \<and> arena r' = arena r \<and> conn_ptr r' = Some fd"
proof -
  let ?bs = "encode_record (Record FCGI_STDIN i [])" and ?g = "se_config e"
  let ?r1 = "set_flag INPUT_COMPLETE r"
  let ?r2 = "?r1\<lparr>env := strip_path_prefix ?g (env r), worker_active := True\<rparr>"
  define c0 where "c0 = (one_request fd i r n)\<lparr>c_in_buf := ?bs\<rparr>"
  let ?s0 = "put_conn fd c0 s"
  let ?f = "load_io c0 ?s0"
  let ?f' = "?f\<lparr>requests := [(i, ?r2)], world := (world ?f)\<lparr>iw_active := n + 1, iw_tasks := fcgi_tasks s @ [(fd, arena r)]\<rparr>\<rparr>"
  have ready: "is_ready ?r1" "is_ready ?r2" "\<not> has RESPONDED ?r1" using r(1) by (simp_all add: is_ready_def flag_defs) (simp_all add: has_def set_flag_def)
  have "handle_record (config_limits ?g) (io_callbacks ?g now fd) (Record FCGI_STDIN i []) ?f = Inr ?f'"
    using r(2) ready
    by (simp add: handle_record_def fcgi_consts with_request_def current_req_def load_io_def c0_def stdin_action_def
        finish_record_def Let_def store_req_def io_callbacks_def internal_on_request_ready_def)
  from record_processed [OF _ _ _ _ this]
  have p: "process_fcgi e now fd ?s0 = store_io fd (c0\<lparr>c_in_buf := [], c_closed := False\<rparr>) ?f' ?s0"
    by (simp add: c0_def record_fits_def)
  define c1 where "c1 = one_request fd i ?r2 (n + 1)"
  define s1 where "s1 = put_conn fd c1 (s\<lparr>fcgi_tasks := fcgi_tasks s @ [(fd, arena r)]\<rparr>)"
  have "store_io fd (c0\<lparr>c_in_buf := [], c_closed := False\<rparr>) ?f' ?s0 = s1"
    by (simp add: store_io_def load_io_def s1_def c1_def c0_def put_conn_def new_connection_def)
  with p have p: "process_fcgi e now fd ?s0 = s1" by simp
  have c1: "\<not> should_close_connection c1" "c_requests c1 = [(i, ?r2)]" "c_out_buf c1 = []" "c_out_pos c1 = 0" "reads_only c1"
    "map_of (conns s1) fd = Some c1" "\<not> c_waiting c1"
    by (auto simp: c1_def s1_def dest: should_close_idle)
  have "(one_request fd i r n)\<lparr>c_in_buf := ?bs, c_closed := False\<rparr> = c0" by (simp add: c0_def new_connection_def)
  then have "read_input e now fd ?bs False s = flush_connection fd s1"
    using c(1) p c1(6,7) by (simp add: read_input_def Let_def)
  also have "\<dots> = s1\<lparr>close_queue := []\<rparr>"
    using flush_empty [OF c1(6,3-5)] c1(1) c(3) by (simp add: s1_def put_conn_def)
  finally have "handle_io e now fd EPOLLIN ?bs False s = Some (s1\<lparr>close_queue := []\<rparr>)"
    using c(1) c1 by (simp add: handle_io_def Let_def)
  then show ?thesis using ready r(2)
    by (intro exI [of _ ?r2] exI [of _ "s1\<lparr>close_queue := []\<rparr>"]) (simp add: s1_def c1_def)
qed

text \<open>The abort of a request that no worker is marked to work on: it is given back at once.\<close>

lemma aborted_and_released:
  assumes ok: "whole A A s" and c: "map_of (conns s) fd = Some (one_request fd i r (Suc n))" "close_queue s = []"
      "waiting_conns s = []" "sends s = []"
    and r: "\<not> has RESPONDED r" "\<not> worker_active r"
  shows "\<exists>s'. handle_io e now fd EPOLLIN (encode_record (Record FCGI_ABORT_REQUEST i [])) False s = Some s' \<and>
    arena r \<in> free_arenas (manager (pool s')) \<and> fcgi_tasks s' = fcgi_tasks s"
proof -
  let ?bs = "encode_record (Record FCGI_ABORT_REQUEST i [])" and ?g = "se_config e"
  let ?out = "append_end_request [] (req_id r) 0 REQUEST_COMPLETE"
  define r1 where "r1 = set_flag FAILED (set_flag RESPONDED (set_flag ABORTED r))"
  define c0 where "c0 = (one_request fd i r (Suc n))\<lparr>c_in_buf := ?bs\<rparr>"
  let ?s0 = "put_conn fd c0 s"
  let ?f = "load_io c0 ?s0"
  let ?f' = "?f\<lparr>requests := [(i, r1)], out_buf := ?out\<rparr>"
  have r1: "has RESPONDED r1" "\<not> is_ready r1" "\<not> worker_active r1" "arena r1 = arena r"
    using r by (simp_all add: r1_def is_ready_def has_def flag_defs set_flag_def)
  have "\<not> has RESPONDED (set_flag ABORTED r)" "req_id (set_flag ABORTED r) = req_id r" using r(1) by (simp_all add: has_def flag_defs set_flag_def)
  then have "handle_record (config_limits ?g) (io_callbacks ?g now fd) (Record FCGI_ABORT_REQUEST i []) ?f = Inr ?f'"
    using r1(2)
    by (simp add: handle_record_def fcgi_consts with_request_def current_req_def load_io_def c0_def abort_action_def
        fail_request_def finish_record_def Let_def store_req_def r1_def)
  from record_processed [OF _ _ _ _ this]
  have "process_fcgi e now fd ?s0 = store_io fd (c0\<lparr>c_in_buf := [], c_closed := False\<rparr>) ?f' ?s0"
    by (simp add: c0_def record_fits_def)
  moreover define c1 where "c1 = (one_request fd i r1 (Suc n))\<lparr>c_out_buf := ?out\<rparr>"
  moreover define s1 where "s1 = put_conn fd c1 s"
  ultimately have p: "process_fcgi e now fd ?s0 = s1"
    by (simp add: store_io_def load_io_def c0_def put_conn_def new_connection_def)
  have ne: "?out \<noteq> []" by (simp add: append_end_request_def append_record_def header_bytes_def)
  have c1: "map_of (conns s1) fd = Some c1" "\<not> c_waiting c1" "reads_only c1" by (simp_all add: c1_def s1_def)
  obtain ep where ep: "write_interest True fd c1 s1 = put_conn fd (writes_too c1) (s1\<lparr>interest := ep\<rparr>)"
    using interest_on [OF c1(3), of fd s1] by auto
  have "flush_connection fd s1 = put_conn fd (writes_too c1) (s1\<lparr>interest := ep\<rparr>)"
  proof -
    have o: "c_out_buf c1 = ?out" "c_out_pos c1 = 0" "c1\<lparr>c_out_pos := 0\<rparr> = c1" by (simp_all add: c1_def new_connection_def)
    have q: "sends s1 = []" using c(4) by (simp add: s1_def)
    then have e: "s1\<lparr>sends := [], wire := wire s1\<rparr> = s1" by (cases s1) simp
    have l: "send_loop [] ?out 0 = (Blocked, 0, [], [])" using ne by (simp add: send_loop.simps)
    show ?thesis unfolding ep [symmetric] flush_connection_def c1(1) option.case o(1,2) q l prod.case Let_def send_end.case
      by (simp add: o(3) e)
  qed
  moreover define s2 where "s2 = put_conn fd (writes_too c1) (s1\<lparr>interest := ep\<rparr>)"
  moreover have "(one_request fd i r (Suc n))\<lparr>c_in_buf := ?bs, c_closed := False\<rparr> = c0" by (simp add: c0_def new_connection_def)
  ultimately have ri: "read_input e now fd ?bs False s = s2" using c(1) p c1(1,2) by (simp add: read_input_def Let_def)
  have w: "c_requests (writes_too c1) = [(i, r1)]" "active_workers (writes_too c1) = Suc n" by (simp_all add: writes_too_def c1_def)
  let ?s3 = "finalize_files (se_config e) r1 s2"
  have "waiting_conns ?s3 = []" using c(3) by (simp add: s2_def s1_def)
  from release_quiet [OF this, of e now "Some fd" r1] obtain ep' pa where
    rel: "release_request e now (Some fd) r1 ?s3 = Some (?s3\<lparr>pool := drop_request r1 (pool s2), interest := ep', accept_paused := pa\<rparr>)"
    by auto
  define c4 where "c4 = (writes_too c1)\<lparr>c_requests := []\<rparr>"
  define s4 where "s4 = put_conn fd c4 (?s3\<lparr>pool := drop_request r1 (pool s2), interest := ep', accept_paused := pa\<rparr>)"
  have "\<not> should_close_connection c4" using w(2) should_close_idle [of c4] by (auto simp: c4_def)
  moreover have "sweep_requests e now fd [i] s2 = Some s4"
    using w(1) r1 rel by (simp add: s2_def [symmetric] Let_def c4_def s4_def) (simp add: s2_def)
  moreover have "close_queue s4 = []" "map_of (conns s4) fd = Some c4"
    using c(2) by (simp_all add: s4_def finalize_files_def s2_def s1_def)
  moreover have "map_of (conns s2) fd = Some (writes_too c1)" by (simp add: s2_def)
  ultimately have "handle_io e now fd EPOLLIN ?bs False s = Some s4"
    using c(1) ri w(1) by (simp add: handle_io_def Let_def)
  moreover have "arena r1 \<in> all_arenas (manager (pool s))" "pool_ok (pool s)"
    using ok server_ok_conn [OF ok c(1)] by (auto simp: requests_ok_def server_ok_def r1(4))
  then have "arena r1 \<in> free_arenas (manager (pool s4))" using drop_request_ok(2) by (simp add: s4_def s2_def s1_def)
  ultimately show ?thesis using r1(4) by (auto simp: s4_def s2_def s1_def)
qed

section \<open>Properties\<close>

text \<open>C7: the workers of the FastCGI server never follow a stale pointer as long as no request is handed over
  while a task for it is queued, and nobody waits for an arena when the timer fires: whatever the
  clients send, in whatever order both servers and the workers run, the request and the connection
  of every queued task are still there, marked as in use, and the task can be run.\<close>

theorem workers_never_dangle:
  assumes "main_setup pl argv = Some (g, p, ws)" "pool_ok p"
    and "keeps_place (user_request_ready se)" "keeps_marks (user_request_ready se)"
    and "orderly_run se we (initial_system se p fw) y" "k < length (fcgi_tasks (fcgi y))" "fcgi_tasks (fcgi y) ! k = (fd, a)"
  shows "(\<exists>c i r. map_of (conns (fcgi y)) fd = Some c \<and> map_of (c_requests c) i = Some r \<and> arena r = a \<and>
      worker_active r \<and> 0 < active_workers c \<and> a \<notin> free_arenas (manager (pool (fcgi y)))) \<and>
    (\<exists>y'. system_step se we (Fcgi (Worker k ti, rs)) y = Some y')"
proof -
  have "manager p = create_arenas (pl_malloc pl) (ucast (max_in_flight g)) (arena_capacity g)"
    using assms(1) by (auto simp: main_setup_def split: prod.splits parse_end.splits bool.splits)
  then have "free_arenas (manager p) = all_arenas (manager p)" by (simp add: free_all_created)
  from initial_system_ok [OF assms(2) this] have i: "system_ok (all_arenas (manager p)) (initial_system se p fw)" .
  have "tasks_ok (fcgi (initial_system se p fw))" "fcgi_tasks (fcgi (initial_system se p fw)) = []"
    by (simp_all add: initial_system_def initial_server_def tasks_ok_def)
  with orderly_tasks [OF assms(5,4,3) i] have ok: "system_ok (all_arenas (manager p)) y" "tasks_ok (fcgi y)" by simp_all
  obtain B where w: "whole (all_arenas (manager p)) B (fcgi y)" using system_share [OF ok(1)] by blast
  obtain c i r where c: "map_of (conns (fcgi y)) fd = Some c" "map_of (c_requests c) i = Some r" "arena r = a" "worker_active r"
    by (rule queued_task [OF ok(2) assms(6,7)])
  have "a \<in> set (tasks_for fd (fcgi_tasks (fcgi y)))" using nth_mem [OF assms(6)] by (force simp: assms(7) tasks_for_def)
  then have "0 < active_workers c" using tasks_ok_conn [OF ok(2) c(1)] by (auto simp: backed_def)
  moreover have "a \<notin> free_arenas (manager (pool (fcgi y)))"
    using whole_held [OF w c(1) map_of_SomeD [OF c(2)]] c(3) by simp
  moreover obtain s' where "run_fcgi_task se k ti ((fcgi y)\<lparr>sends := rs\<rparr>) = Some s'"
    by (rule task_result [of _ B "(fcgi y)\<lparr>sends := rs\<rparr>" k fd r c i se ti]) (use w c assms(6,7) in simp_all)
  then have "\<exists>y'. system_step se we (Fcgi (Worker k ti, rs)) y = Some y'" by (simp add: system_step_def server_step_def)
  ultimately show ?thesis using c by blast
qed

theorem workers_never_dangle_witness:
  "\<exists>p ws y a. main_setup demo_platform [''wasapi''] = Some (default_config, p, ws :: nat worker_pool) \<and>
    orderly_run demo_server_env demo_ws_env (initial_system demo_server_env p (Map.empty, empty_store)) y \<and>
    fcgi_tasks (fcgi y) = [(5, a)] \<and>
    (\<exists>c i r. map_of (conns (fcgi y)) 5 = Some c \<and> map_of (c_requests c) i = Some r \<and> arena r = a \<and>
      worker_active r \<and> 0 < active_workers c \<and> a \<notin> free_arenas (manager (pool (fcgi y)))) \<and>
    (\<exists>y'. system_step demo_server_env demo_ws_env (Fcgi (Worker 0 demo_inputs, [])) y = Some y')"
proof -
  let ?se = demo_server_env and ?we = demo_ws_env
  let ?bs = "encode_records (client_request 7 False [[(''A'', ''x'')]] [[1]])"
  obtain g p and ws :: "nat worker_pool" where s: "main_setup demo_platform [''wasapi''] = Some (g, p, ws)"
    by (simp add: main_setup_def initialize_server_config_def config_parse_args_def)
  note P = demo_setup_pool [OF s]
  note s = s [unfolded P(4)]
  have free: "free_arenas (manager p) = {..<8}" using P(2,3) by simp
  have av: "available_count (manager p) \<noteq> 0"
    using s by (auto simp: main_setup_def initialize_server_config_def config_parse_args_def create_arenas_def default_config_def)
  let ?y0 = "initial_system ?se p (Map.empty, empty_store)"
  obtain y1 where y1: "system_step ?se ?we (Fcgi (Accepted [5], [])) ?y0 = Some y1"
    "map_of (conns (fcgi y1)) 5 = Some (fresh_conn 5)" "fcgi_tasks (fcgi y1) = []" "close_queue (fcgi y1) = []"
    "pool (fcgi y1) = p" "map_of (interest (fcgi y1)) 5 \<noteq> None"
    using av by (simp add: initial_system_def initial_server_def program_defs handler_defs Let_def demo_server_env_def update_conv')
  have k: "keeps_place (user_request_ready ?se)" "keeps_marks (user_request_ready ?se)"
    by (simp_all add: demo_server_env_def answer_keeps_place answer_keeps_marks)
  have "system_ok {..<8} ?y0" using initial_system_ok [OF P(1,2)] P(3) by simp
  from system_step_ok [OF k(1) y1(1) this] have ok1: "system_ok {..<8} y1" .
  have "ws_queue y1 = []" using y1(1) by (auto simp: initial_system_def program_defs split: option.splits)
  then have w1: "whole {..<8} {..<8} ((fcgi y1)\<lparr>sends := []\<rparr>)" using ok1 by (auto simp: system_ok_def task_arenas_def)
  have fits: "request_fits (se_config ?se) [[(''A'', ''x'')]] [[1]]"
    by (simp add: request_fits_def demo_server_env_def default_config_def encode_nv_def encode_length_def pairs_size_def)
  have pre: "map_of (conns ((fcgi y1)\<lparr>sends := []\<rparr>)) 5 = Some (fresh_conn 5)" "close_queue ((fcgi y1)\<lparr>sends := []\<rparr>) = []"
    "free_arenas (manager (pool ((fcgi y1)\<lparr>sends := []\<rparr>))) \<noteq> {}"
    using y1 free by (simp_all add: lessThan_empty_iff)
  from request_arrives [OF w1 pre fits, of 0 7 False] obtain r :: request and s2 where
    s2: "handle_io ?se 0 5 EPOLLIN ?bs False ((fcgi y1)\<lparr>sends := []\<rparr>) = Some s2"
    "fcgi_tasks s2 = fcgi_tasks ((fcgi y1)\<lparr>sends := []\<rparr>) @ [(5, arena r)]"
    by (elim exE conjE) (rule that)
  then have s2: "handle_io ?se 0 5 EPOLLIN ?bs False ((fcgi y1)\<lparr>sends := []\<rparr>) = Some s2" "fcgi_tasks s2 = [(5, arena r)]"
    using y1(3) by simp_all
  define y2 where "y2 = y1\<lparr>fcgi := s2\<rparr>"
  have y2: "system_step ?se ?we (Fcgi (Io 0 5 EPOLLIN ?bs False, [])) y1 = Some y2"
    using s2(1) by (simp add: system_step_def server_step_def y2_def)
  have run: "orderly_run ?se ?we ?y0 y2"
    by (rule orderly_step [OF orderly_step [OF orderly_refl _ y1(1)] _ y2])
      (use y1(3,6) s2(2) in \<open>simp_all add: y2_def initial_system_def initial_server_def demo_server_env_def\<close>)
  have t: "0 < length (fcgi_tasks (fcgi y2))" "fcgi_tasks (fcgi y2) ! 0 = (5, arena r)" using s2(2) by (simp_all add: y2_def)
  have "fcgi_tasks (fcgi y2) = [(5, arena r)]" using s2(2) by (simp add: y2_def)
  with workers_never_dangle [OF s P(1) k run t] s run show ?thesis by blast
qed

text \<open>C34: a web server that ends the input of a request twice makes a worker use a request that is gone: each
  end hands the request over, the first task to run takes the mark away that protected it, an
  abort (or the answer) then releases its arena, and the second task follows its pointer there.\<close>

theorem handed_over_twice_dangles:
  assumes "server_ok A (mset_set A) s" "map_of (conns s) fd = Some (new_connection\<lparr>c_fd := fd\<rparr>)"
    and "close_queue s = []" "waiting_conns s = []" "free_arenas (manager (pool s)) \<noteq> {}"
    and "request_fits (se_config e) pss bodies"
  shows "\<exists>s' a. server_run e
      [(Io now fd EPOLLIN (encode_records (client_request i keep pss bodies)) False, []),
       (Io now fd EPOLLIN (encode_record (Record FCGI_STDIN i [])) False, []),
       (Worker (length (fcgi_tasks s)) ti, []),
       (Io now fd EPOLLIN (encode_record (Record FCGI_ABORT_REQUEST i [])) False, [])] s = Some s' \<and>
    fcgi_tasks s' = fcgi_tasks s @ [(fd, a)] \<and> a \<in> free_arenas (manager (pool s')) \<and>
    server_step e (Worker (length (fcgi_tasks s)) ti', []) s' = None"
proof -
  let ?s = "s\<lparr>sends := []\<rparr>" and ?n = "length (fcgi_tasks s)"
  from request_arrives [of A ?s fd e pss bodies now i keep] assms obtain r1 s1 where
    h1: "handle_io e now fd EPOLLIN (encode_records (client_request i keep pss bodies)) False ?s = Some s1"
    and c1: "map_of (conns s1) fd = Some (one_request fd i r1 1)"
    and s1: "fcgi_tasks s1 = fcgi_tasks s @ [(fd, arena r1)]" "close_queue s1 = []" "waiting_conns s1 = []"
    and r1: "is_ready r1" "conn_ptr r1 = Some fd" "worker_active r1" by auto
  have ok1: "whole A A s1" using handle_io_ok [OF h1] assms(1) by simp
  from handed_over_again [where s = "s1\<lparr>sends := []\<rparr>" and fd = fd and i = i and r = r1 and n = 1 and e = e and now = now] c1 s1 r1 obtain r2 s2 where
    h2: "handle_io e now fd EPOLLIN (encode_record (Record FCGI_STDIN i [])) False (s1\<lparr>sends := []\<rparr>) = Some s2"
    and c2: "map_of (conns s2) fd = Some (one_request fd i r2 2)"
    and s2: "fcgi_tasks s2 = fcgi_tasks s @ (fd, arena r2) # [(fd, arena r2)]" "close_queue s2 = []" "waiting_conns s2 = []"
    and r2: "is_ready r2" by (auto simp: numeral_2_eq_2)
  have ok2: "whole A A (s2\<lparr>sends := []\<rparr>)" using handle_io_ok [OF h2] ok1 by simp
  obtain r3 fw where b: "task_body e ti (r2, disk_files (s2\<lparr>sends := []\<rparr>)) = (r3, fw)" by (metis prod.collapse)
  define s3 where "s3 = put_conn fd (one_request fd i (r3\<lparr>worker_active := False\<rparr>) 1)
    (s2\<lparr>sends := [], fcgi_tasks := fcgi_tasks s @ [(fd, arena r2)], disk_files := fw, pending_output := pending_output s2 @ [arena r2]\<rparr>)"
  have h3: "run_fcgi_task e ?n ti (s2\<lparr>sends := []\<rparr>) = Some s3"
    using task_runs [OF ok2, of fd _ i r2 "fcgi_tasks s" "[(fd, arena r2)]" e ti r3 fw] c2 s2(1) r2 b
    by (simp add: is_ready_def s3_def)
  have ok3: "whole A A (s3\<lparr>sends := []\<rparr>)" using fcgi_task_ok [OF h3 ok2] by simp
  have r3: "\<not> has RESPONDED (r3\<lparr>worker_active := False\<rparr>)" "arena r3 = arena r2"
    using task_body_place [OF b] r2 by (simp_all add: task_keeps_def same_place_def is_ready_def has_def)
  have s3: "map_of (conns s3) fd = Some (one_request fd i (r3\<lparr>worker_active := False\<rparr>) (Suc 0))" "close_queue s3 = []"
    "waiting_conns s3 = []" "fcgi_tasks s3 = fcgi_tasks s @ [(fd, arena r2)]" using s2 by (simp_all add: s3_def)
  obtain s4 where h4: "handle_io e now fd EPOLLIN (encode_record (Record FCGI_ABORT_REQUEST i [])) False (s3\<lparr>sends := []\<rparr>) = Some s4"
    and s4: "arena r2 \<in> free_arenas (manager (pool s4))" "fcgi_tasks s4 = fcgi_tasks s @ [(fd, arena r2)]"
    using aborted_and_released [OF ok3, where fd = fd and i = i and r = "r3\<lparr>worker_active := False\<rparr>" and n = 0 and e = e and now = now] s3 r3 by auto
  have "whole A A s4" by (rule handle_io_ok [OF h4 ok3])
  from deref_free [OF this s4(1)] have "deref (arena r2) (conns s4) = None" .
  then have "server_step e (Worker ?n ti', []) s4 = None" using s4(2) by (simp add: server_step_def run_fcgi_task_def)
  then show ?thesis using h1 h2 h3 h4 s4
    by (intro exI [of _ s4] exI [of _ "arena r2"]) (simp add: server_step_def Let_def)
qed

theorem handed_over_twice_dangles_witness:
  "\<exists>s' a. server_run demo_server_env
      [(Io 0 5 EPOLLIN (encode_records (client_request 7 False [[(''A'', ''x'')]] [[1]])) False, []),
       (Io 0 5 EPOLLIN (encode_record (Record FCGI_STDIN 7 [])) False, []),
       (Worker 0 demo_inputs, []),
       (Io 0 5 EPOLLIN (encode_record (Record FCGI_ABORT_REQUEST 7 [])) False, [])] demo_server = Some s' \<and>
    fcgi_tasks s' = [(5, a)] \<and> a \<in> free_arenas (manager (pool s')) \<and>
    server_step demo_server_env (Worker 0 demo_inputs, []) s' = None"
proof -
  have t: "fcgi_tasks demo_server = []" by (simp add: demo_server_def initial_server_def)
  have "map_of (conns demo_server) 5 = Some (new_connection\<lparr>c_fd := 5\<rparr>)" "close_queue demo_server = []"
    "waiting_conns demo_server = []" "free_arenas (manager (pool demo_server)) \<noteq> {}"
    using demo_pool_nonempty by (simp_all add: demo_server_def initial_server_def)
  moreover have "request_fits (se_config demo_server_env) [[(''A'', ''x'')]] [[1]]"
    by (simp add: request_fits_def demo_server_env_def default_config_def encode_nv_def encode_length_def pairs_size_def)
  ultimately show ?thesis
    using handed_over_twice_dangles [OF demo_server_whole, where fd = 5 and e = demo_server_env and pss = "[[(''A'', ''x'')]]" and bodies = "[[1]]"
        and now = 0 and i = 7 and keep = False and ti = demo_inputs and ti' = demo_inputs]
    unfolding t by simp
qed

end
