(* ===== verification/Lifetimes.thy ===== *)
theory Lifetimes
  imports DynVar "HOL-Library.Monad_Syntax" "HOL-Library.Sublist"
begin

text \<open>
  The tagged union under \<open>DynamicVariable\<close>. In theory DynVar a tag and the payload it selects are one
  value; here they are apart, as in the code, with the member of the union that is alive. An operation
  is \<open>None\<close> where the code would read or destroy a member that is not alive, reach an object that has
  been destroyed, build a member over one that still holds memory, or move a variable into itself, so
  that nothing reaches it any more. A member that was moved from is empty and holds no memory. Every operation on well-formed variables is shown to be defined and to
  do what DynVar says, with one exception: assignments between a variable and a part of itself.
\<close>

section \<open>Variables\<close>

text \<open>The enum \<open>Type\<close> and the union \<open>Data\<close>; \<open>'c\<close> stands for the variables inside.\<close>

datatype tag = TNIL | TSTRING | TOBJECT | TARRAY | TNUMBER | TBOOL

datatype 'c slot = Num double | Bool bool | Str string | Obj "(string \<times> 'c) list" | Arr "'c list"

datatype cell = Cell (tag_of: tag) (data_of: "cell slot")

text \<open>Reading a member that is not the one alive is undefined.\<close>

definition read_s :: "'c slot \<Rightarrow> string option" where
  "read_s d = (case d of Str s \<Rightarrow> Some s | _ \<Rightarrow> None)"

definition read_o :: "'c slot \<Rightarrow> (string \<times> 'c) list option" where
  "read_o d = (case d of Obj m \<Rightarrow> Some m | _ \<Rightarrow> None)"

definition read_a :: "'c slot \<Rightarrow> 'c list option" where
  "read_a d = (case d of Arr xs \<Rightarrow> Some xs | _ \<Rightarrow> None)"

definition read_num :: "'c slot \<Rightarrow> double option" where
  "read_num d = (case d of Num x \<Rightarrow> Some x | _ \<Rightarrow> None)"

definition read_b :: "'c slot \<Rightarrow> bool option" where
  "read_b d = (case d of Bool b \<Rightarrow> Some b | _ \<Rightarrow> None)"

lemmas read_defs = read_s_def read_o_def read_a_def read_num_def read_b_def

text \<open>What only the member's destructor would give back.\<close>

definition owns :: "'c slot \<Rightarrow> bool" where
  "owns d \<longleftrightarrow> (case d of Str s \<Rightarrow> s \<noteq> [] | Obj m \<Rightarrow> m \<noteq> [] | Arr xs \<Rightarrow> xs \<noteq> [] | _ \<Rightarrow> False)"

text \<open>A member is built, or a number assigned, over \<open>d\<close>.\<close>

definition place :: "'c slot \<Rightarrow> 'c slot \<Rightarrow> 'c slot option" where
  "place new d = (if owns d then None else Some new)"

definition default_cell :: cell where
  "default_cell = Cell TNIL (Num (double_of_int 0))"

text \<open>Whether the destructor, which is \<open>clear\<close>, is defined for a variable and all it holds.\<close>

fun destroyable :: "cell \<Rightarrow> bool" where
  "destroyable (Cell t d) \<longleftrightarrow>
     (case t of
        TSTRING \<Rightarrow> (case d of Str s \<Rightarrow> True | _ \<Rightarrow> False)
      | TOBJECT \<Rightarrow> (case d of Obj m \<Rightarrow> (\<forall>(k, c)\<in>set m. destroyable c) | _ \<Rightarrow> False)
      | TARRAY \<Rightarrow> (case d of Arr xs \<Rightarrow> (\<forall>c\<in>set xs. destroyable c) | _ \<Rightarrow> False)
      | _ \<Rightarrow> \<not> owns d)"

definition cell_clear :: "cell \<Rightarrow> cell option" where
  "cell_clear c = (if destroyable c then Some default_cell else None)"

text \<open>The copy constructor; a payload that the \<open>switch\<close> does not touch is that of the constructor of \<open>Data\<close>.\<close>

fun copy_cell :: "cell \<Rightarrow> cell option" where
  "copy_cell (Cell t d) =
     map_option (Cell t)
       (case t of
          TSTRING \<Rightarrow> map_option Str (read_s d)
        | TOBJECT \<Rightarrow> (case d of
              Obj m \<Rightarrow> map_option Obj (those (map (\<lambda>(k, c). map_option (Pair k) (copy_cell c)) m))
            | _ \<Rightarrow> None)
        | TARRAY \<Rightarrow> (case d of Arr xs \<Rightarrow> map_option Arr (those (map copy_cell xs)) | _ \<Rightarrow> None)
        | TNUMBER \<Rightarrow> map_option Num (read_num d)
        | TBOOL \<Rightarrow> map_option Bool (read_b d)
        | TNIL \<Rightarrow> Some (Num (double_of_int 0)))"

text \<open>The same \<open>switch\<close> with moved members: the payload that is built and the one that is left.\<close>

definition move_slot :: "tag \<Rightarrow> 'c slot \<Rightarrow> ('c slot \<times> 'c slot) option" where
  "move_slot t d =
     (case t of
        TSTRING \<Rightarrow> map_option (\<lambda>s. (Str s, Str [])) (read_s d)
      | TOBJECT \<Rightarrow> map_option (\<lambda>m. (Obj m, Obj [])) (read_o d)
      | TARRAY \<Rightarrow> map_option (\<lambda>xs. (Arr xs, Arr [])) (read_a d)
      | TNUMBER \<Rightarrow> map_option (\<lambda>x. (Num x, Num x)) (read_num d)
      | TBOOL \<Rightarrow> map_option (\<lambda>b. (Bool b, Bool b)) (read_b d)
      | TNIL \<Rightarrow> Some (Num (double_of_int 0), d))"

text \<open>The move constructor sets the other's type to \<open>NIL\<close> and leaves its member undestroyed.\<close>

definition move_cell :: "cell \<Rightarrow> (cell \<times> cell) option" where
  "move_cell c = map_option (\<lambda>(mine, left). (Cell (tag_of c) mine, Cell TNIL left)) (move_slot (tag_of c) (data_of c))"

text \<open>The assignments from other types: \<open>clear\<close>, then a member is built.\<close>

definition assign_member :: "tag \<Rightarrow> cell slot \<Rightarrow> cell \<Rightarrow> cell option" where
  "assign_member t new self =
     do { c \<leftarrow> cell_clear self; d \<leftarrow> place new (data_of c); Some (Cell t d) }"

definition cell_assign_list :: "cell list \<Rightarrow> cell \<Rightarrow> cell option" where
  "cell_assign_list vs self =
     do { c \<leftarrow> cell_clear self; xs \<leftarrow> those (map copy_cell vs); d \<leftarrow> place (Arr xs) (data_of c);
          Some (Cell TARRAY d) }"

definition cell_subscript :: "string \<Rightarrow> cell \<Rightarrow> cell option" where
  "cell_subscript key self =
     do { c \<leftarrow> (if tag_of self \<noteq> TOBJECT then assign_member TOBJECT (Obj []) self else Some self);
          m \<leftarrow> read_o (data_of c);
          Some (Cell (tag_of c) (Obj (emplace key default_cell m))) }"

definition cell_find :: "string \<Rightarrow> cell \<Rightarrow> cell option option" where
  "cell_find key self =
     (if tag_of self \<noteq> TOBJECT then Some None
      else do { m \<leftarrow> read_o (data_of self); Some (map_of m key) })"

text \<open>\<open>push\<close> takes its argument by value; what is left of it is destroyed on return.\<close>

definition cell_push :: "cell \<Rightarrow> cell \<Rightarrow> cell option" where
  "cell_push v self =
     (if tag_of self \<noteq> TARRAY \<and> tag_of self \<noteq> TNIL then
        do { _ \<leftarrow> cell_clear v; Some self }
      else
        do { d \<leftarrow> (if tag_of self = TNIL then place (Arr []) (data_of self) else Some (data_of self));
             xs \<leftarrow> read_a d;
             (new, left) \<leftarrow> move_cell v;
             _ \<leftarrow> cell_clear left;
             Some (Cell TARRAY (Arr (xs @ [new]))) })"

definition cell_to_string :: "cell \<Rightarrow> string option" where
  "cell_to_string c =
     (case tag_of c of
        TSTRING \<Rightarrow> read_s (data_of c)
      | TNUMBER \<Rightarrow> map_option to_string_double (read_num (data_of c))
      | TBOOL \<Rightarrow> map_option (\<lambda>b. if b then ''true'' else ''false'') (read_b (data_of c))
      | _ \<Rightarrow> Some [])"

definition cell_to_number :: "double \<Rightarrow> cell \<Rightarrow> double option" where
  "cell_to_number def_value c = (if tag_of c = TNUMBER then read_num (data_of c) else Some def_value)"

definition cell_to_bool :: "bool \<Rightarrow> cell \<Rightarrow> bool option" where
  "cell_to_bool def_value c =
     (if tag_of c = TBOOL then read_b (data_of c)
      else if tag_of c = TNUMBER then map_option (\<lambda>x. \<not> dbl_is_zero x) (read_num (data_of c))
      else Some def_value)"

section \<open>Well-formed variables and their values\<close>

fun valid :: "cell \<Rightarrow> bool" where
  "valid (Cell t d) \<longleftrightarrow>
     (case t of
        TNIL \<Rightarrow> \<not> owns d
      | TSTRING \<Rightarrow> (case d of Str s \<Rightarrow> True | _ \<Rightarrow> False)
      | TOBJECT \<Rightarrow> (case d of Obj m \<Rightarrow> umap_ok m \<and> (\<forall>(k, c)\<in>set m. valid c) | _ \<Rightarrow> False)
      | TARRAY \<Rightarrow> (case d of Arr xs \<Rightarrow> (\<forall>c\<in>set xs. valid c) | _ \<Rightarrow> False)
      | TNUMBER \<Rightarrow> (case d of Num x \<Rightarrow> True | _ \<Rightarrow> False)
      | TBOOL \<Rightarrow> (case d of Bool b \<Rightarrow> True | _ \<Rightarrow> False))"

fun val_of :: "cell \<Rightarrow> dv" where
  "val_of (Cell t d) =
     (case t of
        TSTRING \<Rightarrow> (case d of Str s \<Rightarrow> STRING s | _ \<Rightarrow> NIL)
      | TOBJECT \<Rightarrow> (case d of Obj m \<Rightarrow> OBJECT (map (\<lambda>(k, c). (k, val_of c)) m) | _ \<Rightarrow> NIL)
      | TARRAY \<Rightarrow> (case d of Arr xs \<Rightarrow> ARRAY (map val_of xs) | _ \<Rightarrow> NIL)
      | TNUMBER \<Rightarrow> (case d of Num x \<Rightarrow> NUMBER x | _ \<Rightarrow> NIL)
      | TBOOL \<Rightarrow> (case d of Bool b \<Rightarrow> BOOL b | _ \<Rightarrow> NIL)
      | TNIL \<Rightarrow> NIL)"

text \<open>The shapes of a well-formed variable, as one case rule for the operations.\<close>

lemma valid_cases:
  assumes "valid c"
  obtains (nil) d where "c = Cell TNIL d" "\<not> owns d"
    | (string) s where "c = Cell TSTRING (Str s)"
    | (object) m where "c = Cell TOBJECT (Obj m)" "umap_ok m" "\<forall>(k, c)\<in>set m. valid c"
    | (array) xs where "c = Cell TARRAY (Arr xs)" "\<forall>c\<in>set xs. valid c"
    | (number) x where "c = Cell TNUMBER (Num x)"
    | (boolean) b where "c = Cell TBOOL (Bool b)"
proof (cases c)
  case (Cell t d)
  show ?thesis
  proof (cases t)
    case TNIL then show ?thesis using nil assms Cell by simp
  next
    case TSTRING then show ?thesis using string assms Cell by (cases d) simp_all
  next
    case TOBJECT then show ?thesis using object assms Cell by (cases d) simp_all
  next
    case TARRAY then show ?thesis using array assms Cell by (cases d) simp_all
  next
    case TNUMBER then show ?thesis using number assms Cell by (cases d) simp_all
  next
    case TBOOL then show ?thesis using boolean assms Cell by (cases d) simp_all
  qed
qed

lemma valid_default [simp]: "valid default_cell" "val_of default_cell = NIL"
  by (simp_all add: default_cell_def owns_def)

lemma valid_destroyable: "valid c \<Longrightarrow> destroyable c"
proof (induction c)
  case (Cell t d)
  from Cell.prems show ?case
  proof (cases rule: valid_cases)
    case (object m)
    then show ?thesis using Cell.IH by fastforce
  next
    case (array xs)
    then show ?thesis using Cell.IH by fastforce
  qed (simp_all add: owns_def)
qed

lemma clear_valid [simp]: "valid c \<Longrightarrow> cell_clear c = Some default_cell"
  by (simp add: cell_clear_def valid_destroyable)

text \<open>What an operation of DynVar yields: the result is there, well-formed and has that value.\<close>

definition yields :: "cell option \<Rightarrow> dv \<Rightarrow> bool" where
  "yields x v \<longleftrightarrow> (\<exists>c. x = Some c \<and> valid c \<and> val_of c = v)"

lemma those_map_Some:
  "\<forall>x\<in>set xs. \<exists>y. f x = Some y \<and> P x y \<Longrightarrow> \<exists>ys. those (map f xs) = Some ys \<and> list_all2 P xs ys"
  by (induction xs) (auto simp: list_all2_Cons1)

lemma those_map_None: "x \<in> set xs \<Longrightarrow> f x = None \<Longrightarrow> those (map f xs) = None"
  by (induction xs) (auto split: option.splits)

lemma copy_yields: "valid c \<Longrightarrow> yields (copy_cell c) (val_of c)"
proof (induction c)
  case (Cell t d)
  from Cell.prems show ?case
  proof (cases rule: valid_cases)
    case (object m)
    let ?P = "\<lambda>(k, c) (k', c'). k' = k \<and> valid c' \<and> val_of c' = val_of c"
    have "\<forall>kc\<in>set m. \<exists>y. (case kc of (k, c) \<Rightarrow> map_option (Pair k) (copy_cell c)) = Some y \<and> ?P kc y"
      using object Cell.IH by (fastforce simp: yields_def)
    from those_map_Some [OF this] obtain m' where
      m': "those (map (\<lambda>(k, c). map_option (Pair k) (copy_cell c)) m) = Some m'" "list_all2 ?P m m'" by blast
    from m'(2) have "map fst m' = map fst m" "\<forall>(k, c)\<in>set m'. valid c"
      "map (\<lambda>(k, c). (k, val_of c)) m' = map (\<lambda>(k, c). (k, val_of c)) m"
      by (induction rule: list_all2_induct) auto
    with object m'(1) show ?thesis by (simp add: yields_def umap_ok_def)
  next
    case (array xs)
    then have "\<forall>c\<in>set xs. \<exists>y. copy_cell c = Some y \<and> (valid y \<and> val_of y = val_of c)"
      using Cell.IH by (fastforce simp: yields_def)
    from those_map_Some [OF this] obtain ys where
      ys: "those (map copy_cell xs) = Some ys" "list_all2 (\<lambda>c y. valid y \<and> val_of y = val_of c) xs ys" by blast
    from ys(2) have "\<forall>c\<in>set ys. valid c" "map val_of ys = map val_of xs"
      by (induction rule: list_all2_induct) auto
    with array ys(1) show ?thesis by (simp add: yields_def)
  qed (simp_all add: yields_def read_defs owns_def)
qed

lemma copies_valid:
  assumes "\<forall>c\<in>set xs. valid c"
  obtains ys where "those (map copy_cell xs) = Some ys" "\<forall>c\<in>set ys. valid c" "map val_of ys = map val_of xs"
proof -
  have "yields (copy_cell (Cell TARRAY (Arr xs))) (ARRAY (map val_of xs))"
    using copy_yields [of "Cell TARRAY (Arr xs)"] assms by simp
  then show thesis using that by (auto simp: yields_def)
qed

lemma move_valid:
  assumes "valid c"
  obtains n l where "move_cell c = Some (n, l)" "valid n" "valid l" "val_of n = val_of c" "val_of l = NIL"
  using assms by (cases rule: valid_cases) (auto simp: move_cell_def move_slot_def read_defs owns_def)

lemma assign_member_valid:
  "valid c \<Longrightarrow> valid (Cell t new) \<Longrightarrow> yields (assign_member t new c) (val_of (Cell t new))"
  by (simp add: assign_member_def yields_def default_cell_def place_def owns_def)

lemma map_of_val: "map_of (map (\<lambda>(k, c). (k, val_of c)) m) k = map_option val_of (map_of m k)"
  by (induction m) auto

lemma subscript_yields:
  assumes "valid c"
  shows "yields (cell_subscript key c) (dv_subscript key (val_of c))"
proof -
  have *: "yields (Some (Cell TOBJECT (Obj (emplace key default_cell m))))
      (OBJECT (emplace key NIL (map (\<lambda>(k, c). (k, val_of c)) m)))" if "umap_ok m" "\<forall>(k, c)\<in>set m. valid c" for m
    using that by (auto simp: yields_def emplace_def map_of_val umap_ok_def map_of_eq_None_iff)
  show ?thesis
  proof (cases "tag_of c = TOBJECT")
    case True
    with assms obtain m where "c = Cell TOBJECT (Obj m)" "umap_ok m" "\<forall>(k, c)\<in>set m. valid c"
      by (auto elim: valid_cases)
    then show ?thesis using * by (simp add: cell_subscript_def read_o_def dv_subscript_def)
  next
    case False
    with assms have "\<not> is_object (val_of c)" by (auto elim!: valid_cases simp: is_object_def)
    with False assms show ?thesis using * [of "[]"]
      by (simp add: cell_subscript_def assign_member_def read_o_def dv_subscript_def default_cell_def place_def owns_def)
  qed
qed

lemma push_yields:
  assumes "valid x" "valid c"
  shows "yields (cell_push x c) (dv_push (val_of x) (val_of c))"
proof -
  obtain n l where m: "move_cell x = Some (n, l)" "valid n" "valid l" "val_of n = val_of x" "val_of l = NIL"
    by (rule move_valid [OF assms(1)])
  from assms(2) show ?thesis
    by (cases rule: valid_cases)
      (use m assms in \<open>auto simp: cell_push_def yields_def dv_push_def read_a_def place_def\<close>)
qed

lemmas operation_yields = copy_yields assign_member_valid subscript_yields push_yields

section \<open>Assignments from one variable to another\<close>

text \<open>
  The variables of a program are parts of one tree: the value of an object or array is inside it, and
  the variables of a function are, say, the elements of an array at its root. A path leads from the root
  to a part. An assignment is given the paths of its two sides, so that it may be called with a part of
  the variable it changes.
\<close>

datatype step = Key string | Index nat

definition child :: "step \<Rightarrow> 'c slot \<Rightarrow> 'c option" where
  "child x d =
     (case (x, d) of
        (Key k, Obj m) \<Rightarrow> map_of m k
      | (Index n, Arr xs) \<Rightarrow> if n < length xs then Some (xs ! n) else None
      | _ \<Rightarrow> None)"

definition set_child :: "step \<Rightarrow> 'c \<Rightarrow> 'c slot \<Rightarrow> 'c slot" where
  "set_child x c d =
     (case (x, d) of
        (Key k, Obj m) \<Rightarrow> Obj (AList.update k c m)
      | (Index n, Arr xs) \<Rightarrow> Arr (xs[n := c])
      | _ \<Rightarrow> d)"

fun cell_at :: "step list \<Rightarrow> cell \<Rightarrow> cell option" where
  "cell_at [] c = Some c"
| "cell_at (x # p) (Cell t d) = (case child x d of None \<Rightarrow> None | Some c \<Rightarrow> cell_at p c)"

fun put_at :: "step list \<Rightarrow> cell \<Rightarrow> cell \<Rightarrow> cell" where
  "put_at [] b c = b"
| "put_at (x # p) b (Cell t d) =
     (case child x d of None \<Rightarrow> Cell t d | Some c \<Rightarrow> Cell t (set_child x (put_at p b c) d))"

definition change :: "step list \<Rightarrow> (cell \<Rightarrow> cell option) \<Rightarrow> cell \<Rightarrow> cell option" where
  "change p f root = do { c \<leftarrow> cell_at p root; b \<leftarrow> f c; Some (put_at p b root) }"

text \<open>Copy assignment: the target is cleared, takes the type of the source, then a copy of its member.\<close>

definition assign_at :: "step list \<Rightarrow> step list \<Rightarrow> cell \<Rightarrow> cell option" where
  "assign_at p q root =
     (if p = q then Some root
      else do {
        root1 \<leftarrow> change p cell_clear root;
        other \<leftarrow> cell_at q root1;
        root2 \<leftarrow> change p (\<lambda>c. Some (Cell (tag_of other) (data_of c))) root1;
        other \<leftarrow> cell_at q root2;
        new \<leftarrow> copy_cell other;
        change p (\<lambda>c. do { d \<leftarrow> place (data_of new) (data_of c); Some (Cell (tag_of c) d) }) root2 })"

text \<open>Move assignment: the member is moved out of the source, which is cleared at the end.\<close>

definition assign_move_at :: "step list \<Rightarrow> step list \<Rightarrow> cell \<Rightarrow> cell option" where
  "assign_move_at p q root =
     (if p = q then Some root
      else do {
        root1 \<leftarrow> change p cell_clear root;
        other \<leftarrow> cell_at q root1;
        root2 \<leftarrow> change p (\<lambda>c. Some (Cell (tag_of other) (data_of c))) root1;
        other \<leftarrow> cell_at q root2;
        (new, left) \<leftarrow> move_slot (tag_of other) (data_of other);
        root3 \<leftarrow> change q (\<lambda>c. Some (Cell (tag_of c) left)) root2;
        root4 \<leftarrow> change p (\<lambda>c. do { d \<leftarrow> place new (data_of c); Some (Cell (tag_of c) d) }) root3;
        change q cell_clear root4 })"

text \<open>Assignment of the string inside another variable, \<open>v = w.data.s\<close>: the argument is a reference.\<close>

definition assign_string_at :: "step list \<Rightarrow> step list \<Rightarrow> cell \<Rightarrow> cell option" where
  "assign_string_at p q root =
     do { root1 \<leftarrow> change p cell_clear root;
          other \<leftarrow> cell_at q root1;
          str \<leftarrow> read_s (data_of other);
          change p (\<lambda>c. do { d \<leftarrow> place (Str str) (data_of c); Some (Cell TSTRING d) }) root1 }"

text \<open>The same parts of a value.\<close>

definition dv_child :: "step \<Rightarrow> dv \<Rightarrow> dv option" where
  "dv_child x v =
     (case (x, v) of
        (Key k, OBJECT m) \<Rightarrow> map_of m k
      | (Index n, ARRAY xs) \<Rightarrow> if n < length xs then Some (xs ! n) else None
      | _ \<Rightarrow> None)"

fun dv_at :: "step list \<Rightarrow> dv \<Rightarrow> dv option" where
  "dv_at [] v = Some v"
| "dv_at (x # p) v = (case dv_child x v of None \<Rightarrow> None | Some w \<Rightarrow> dv_at p w)"

fun dv_put_at :: "step list \<Rightarrow> dv \<Rightarrow> dv \<Rightarrow> dv" where
  "dv_put_at [] b v = b"
| "dv_put_at (x # p) b v =
     (case dv_child x v of
        None \<Rightarrow> v
      | Some w \<Rightarrow>
          (case (x, v) of
             (Key k, OBJECT m) \<Rightarrow> OBJECT (AList.update k (dv_put_at p b w) m)
           | (Index n, ARRAY xs) \<Rightarrow> ARRAY (xs[n := dv_put_at p b w])
           | _ \<Rightarrow> v))"

text \<open>Looking up after a change.\<close>

lemma child_set_same: "child x d \<noteq> None \<Longrightarrow> child x (set_child x c d) = Some c"
  by (auto simp: child_def set_child_def update_conv' split: step.splits slot.splits if_splits)

lemma child_set_other: "x \<noteq> y \<Longrightarrow> child y (set_child x c d) = child y d"
  by (cases x; cases y; cases d) (simp_all add: child_def set_child_def update_conv')

lemma set_child_twice: "set_child x a (set_child x b d) = set_child x a d"
  by (auto simp: set_child_def split: step.splits slot.splits)

lemma set_child_id: "child x d = Some c \<Longrightarrow> set_child x c d = d"
  by (auto simp: child_def set_child_def update_triv split: step.splits slot.splits if_splits)

lemma at_put_below: "cell_at p root \<noteq> None \<Longrightarrow> cell_at (p @ s) (put_at p b root) = cell_at s b"
  by (induction p b root rule: put_at.induct) (auto simp: child_set_same split: option.splits)

lemmas at_put_same = at_put_below [where s = "[]", simplified]

lemma at_put_parallel: "parallel p q \<Longrightarrow> cell_at q (put_at p b root) = cell_at q root"
proof (induction p b root arbitrary: q rule: put_at.induct)
  case (2 x p b t d)
  show ?case
  proof (cases q)
    case (Cons y q')
    show ?thesis
    proof (cases "x = y")
      case True
      with 2 Cons have "parallel p q'" by (auto dest: parallel_cancel)
      with 2 Cons True show ?thesis by (auto simp: child_set_same split: option.splits)
    qed (simp add: Cons child_set_other split: option.splits)
  qed (use 2 in simp)
qed simp

lemma put_put_same: "put_at p a (put_at p b root) = put_at p a root"
  by (induction p b root rule: put_at.induct)
    (auto simp: child_set_same set_child_twice split: option.splits)

lemma put_id: "cell_at p root = Some c \<Longrightarrow> put_at p c root = root"
  by (induction p c root rule: put_at.induct) (auto simp: set_child_id split: option.splits)

lemma at_append: "cell_at (p @ s) root = (case cell_at p root of None \<Rightarrow> None | Some c \<Rightarrow> cell_at s c)"
  by (induction p root rule: cell_at.induct) (auto split: option.splits)

lemma at_put_above: "cell_at q root = Some c \<Longrightarrow> cell_at q (put_at (q @ s) b root) = Some (put_at s b c)"
  by (induction q root rule: cell_at.induct) (auto simp: child_set_same split: option.splits)

lemma update_commute:
  "k \<in> fst ` set m \<Longrightarrow> k \<noteq> k' \<Longrightarrow> AList.update k a (AList.update k' b m) = AList.update k' b (AList.update k a m)"
  by (induction m) auto

lemma set_child_commute:
  "child x d \<noteq> None \<Longrightarrow> x \<noteq> y \<Longrightarrow> set_child x a (set_child y b d) = set_child y b (set_child x a d)"
  by (cases x; cases y; cases d)
    (auto simp: child_def set_child_def map_of_eq_None_iff split: if_splits intro: update_commute list_update_swap)

lemma put_put_parallel:
  "parallel p q \<Longrightarrow> put_at p a (put_at q b root) = put_at q b (put_at p a root)"
proof (induction p a root arbitrary: q rule: put_at.induct)
  case (2 x p a t d)
  show ?case
  proof (cases q)
    case (Cons y q')
    show ?thesis
    proof (cases "x = y")
      case True
      with 2 Cons have "parallel p q'" by (auto dest: parallel_cancel)
      with 2 Cons True show ?thesis by (auto simp: child_set_same set_child_twice split: option.splits)
    next
      case False
      then show ?thesis by (simp add: Cons child_set_other set_child_commute split: option.splits)
    qed
  qed (use 2 in simp)
qed simp

text \<open>Parts of a well-formed variable.\<close>

lemma child_cases:
  assumes "valid (Cell t d)" "child x d = Some c"
  obtains (member) k m where "x = Key k" "t = TOBJECT" "d = Obj m" "umap_ok m" "\<forall>(k, c)\<in>set m. valid c" "map_of m k = Some c"
    | (element) n xs where "x = Index n" "t = TARRAY" "d = Arr xs" "\<forall>c\<in>set xs. valid c" "n < length xs" "c = xs ! n"
  using assms(1)
proof (cases rule: valid_cases)
  case (nil d') then show ?thesis using assms(2) by (auto simp: child_def owns_def split: step.splits slot.splits if_splits)
next
  case (object m) then show ?thesis using assms(2) member by (auto simp: child_def split: step.splits)
next
  case (array xs) then show ?thesis using assms(2) element by (auto simp: child_def split: step.splits if_splits)
qed (use assms(2) in \<open>simp_all add: child_def split: step.splits\<close>)

lemma valid_child: "valid (Cell t d) \<Longrightarrow> child x d = Some c \<Longrightarrow> valid c"
  by (erule (1) child_cases) (auto dest: map_of_SomeD)

lemma valid_at: "cell_at p root = Some c \<Longrightarrow> valid root \<Longrightarrow> valid c"
  by (induction p root rule: cell_at.induct) (auto simp del: valid.simps dest: valid_child split: option.splits)

lemma valid_set_child:
  assumes "valid (Cell t d)" "child x d = Some c" "valid b"
  shows "valid (Cell t (set_child x b d))"
  using assms(1,2)
proof (cases rule: child_cases)
  case (member k m)
  then show ?thesis using assms(3) set_update_le [of k b m] by (fastforce simp: set_child_def)
next
  case (element n xs)
  then show ?thesis using assms(3) set_update_subset_insert [of xs n b] by (auto simp: set_child_def)
qed

lemma valid_put: "valid b \<Longrightarrow> valid root \<Longrightarrow> valid (put_at p b root)"
  by (induction p b root rule: put_at.induct)
    (auto simp del: valid.simps intro: valid_set_child valid_child split: option.splits)

lemma val_child: "valid (Cell t d) \<Longrightarrow> child x d = Some c \<Longrightarrow> dv_child x (val_of (Cell t d)) = Some (val_of c)"
  by (erule (1) child_cases) (simp_all add: dv_child_def map_of_val)

lemma map_val_update:
  "map (\<lambda>(k, c). (k, val_of c)) (AList.update k b m) = AList.update k (val_of b) (map (\<lambda>(k, c). (k, val_of c)) m)"
  by (induction m) auto

lemma val_put:
  "cell_at p root \<noteq> None \<Longrightarrow> valid root \<Longrightarrow> val_of (put_at p b root) = dv_put_at p (val_of b) (val_of root)"
proof (induction p b root rule: put_at.induct)
  case (2 x p b t d)
  from 2(2) obtain c where c: "child x d = Some c" "cell_at p c \<noteq> None" by (auto split: option.splits)
  have "val_of (put_at p b c) = dv_put_at p (val_of b) (val_of c)"
    by (rule 2(1) [OF c]) (use 2(3) c(1) in \<open>blast intro: valid_child\<close>)
  then show ?case using val_child [OF 2(3) c(1)] c(1)
    by (cases rule: child_cases [OF 2(3) c(1)]) (simp_all add: set_child_def map_val_update map_update)
qed simp

lemma val_at: "cell_at p root = Some c \<Longrightarrow> valid root \<Longrightarrow> dv_at p (val_of root) = Some (val_of c)"
proof (induction p root rule: cell_at.induct)
  case (2 x p t d)
  from 2(2) obtain b where b: "child x d = Some b" "cell_at p b = Some c" by (auto split: option.splits)
  show ?case using val_child [OF 2(3) b(1)] 2(1) [OF b valid_child [OF 2(3) b(1)]] by simp
qed simp

lemma copy_spoiled:
  "copy_cell b = None \<Longrightarrow> cell_at s root \<noteq> None \<Longrightarrow> valid root \<Longrightarrow> copy_cell (put_at s b root) = None"
proof (induction s b root rule: put_at.induct)
  case (2 x s b t d)
  from 2(3) obtain c where c: "child x d = Some c" "cell_at s c \<noteq> None" by (auto split: option.splits)
  have n: "copy_cell (put_at s b c) = None"
    by (rule 2(1) [OF c(1) 2(2) c(2)]) (use 2(4) c(1) in \<open>blast intro: valid_child\<close>)
  from 2(4) c(1) show ?case
  proof (cases rule: child_cases)
    case (member k m)
    have "(k, put_at s b c) \<in> set (AList.update k (put_at s b c) m)"
      by (simp add: update_conv' map_of_SomeD)
    from those_map_None [OF this, of "\<lambda>(k, c). map_option (Pair k) (copy_cell c)"] n member c(1)
    show ?thesis by (simp add: set_child_def)
  next
    case (element n xs)
    then have "put_at s b c \<in> set (xs[n := put_at s b c])" by (simp add: set_update_memI)
    from those_map_None [OF this, of copy_cell] n element c(1) show ?thesis by (simp add: set_child_def)
  qed
qed simp

text \<open>The steps of an assignment between parts that do not overlap.\<close>

lemma change_root: "cell_at p root = Some c \<Longrightarrow> change p f root = map_option (\<lambda>b. put_at p b root) (f c)"
  by (cases "f c") (simp_all add: change_def)

lemma change_apart: "parallel p q \<Longrightarrow> change p f (put_at q b root) = map_option (put_at q b) (change p f root)"
  by (cases "cell_at p root"; cases "f (the (cell_at p root))")
    (simp_all add: change_def at_put_parallel put_put_parallel parallel_commute [of q p])

lemma change_put:
  "cell_at p root \<noteq> None \<Longrightarrow> change p f (put_at p b root) = map_option (\<lambda>b. put_at p b root) (f b)"
  by (simp add: change_root [OF at_put_same] put_put_same)

lemma change_gone: "cell_at p root = None \<Longrightarrow> change p f root = None"
  by (simp add: change_def)

lemma copy_tag: "copy_cell c = Some b \<Longrightarrow> tag_of b = tag_of c"
  by (cases c) auto

lemma move_slot_valid:
  assumes "valid c"
  obtains new left where "move_slot (tag_of c) (data_of c) = Some (new, left)" "valid (Cell (tag_of c) new)"
    "val_of (Cell (tag_of c) new) = val_of c" "destroyable (Cell (tag_of c) left)"
  using assms by (cases rule: valid_cases) (auto simp: move_slot_def read_defs owns_def)

lemma assign_apart:
  assumes "valid root" "cell_at p root = Some c" "cell_at q root = Some v" "parallel p q"
  shows "yields (assign_at p q root) (dv_put_at p (val_of v) (val_of root))"
proof -
  note v = valid_at [OF assms(3,1)] and c = valid_at [OF assms(2,1)]
  obtain b where b: "copy_cell v = Some b" "valid b" "val_of b = val_of v"
    using copy_yields [OF v] by (auto simp: yields_def)
  have "assign_at p q root = Some (put_at p b root)"
    using assms(4) copy_tag [OF b(1), symmetric]
    by (auto simp: assign_at_def change_root [OF assms(2)] change_put assms(2,3) at_put_parallel c b(1)
        place_def default_cell_def owns_def)
  then show ?thesis using valid_put [OF b(2) assms(1)] val_put [of p root b] assms(1,2) b(3)
    by (simp add: yields_def)
qed

lemma move_apart:
  assumes "valid root" "cell_at p root = Some c" "cell_at q root = Some v" "parallel p q"
  shows "yields (assign_move_at p q root) (dv_put_at q NIL (dv_put_at p (val_of v) (val_of root)))"
proof -
  note v = valid_at [OF assms(3,1)] and c = valid_at [OF assms(2,1)]
  obtain new left where m: "move_slot (tag_of v) (data_of v) = Some (new, left)" "valid (Cell (tag_of v) new)"
    "val_of (Cell (tag_of v) new) = val_of v" "destroyable (Cell (tag_of v) left)"
    by (rule move_slot_valid [OF v])
  let ?n = "Cell (tag_of v) new"
  have "assign_move_at p q root = Some (put_at q default_cell (put_at p ?n root))"
    using assms(4) m(1,4)
    by (auto simp del: destroyable.simps simp: assign_move_at_def change_root [OF assms(2)] change_put assms(2,3) at_put_parallel [OF assms(4)]
        c change_root [of q] change_apart [OF assms(4)]
        place_def default_cell_def owns_def cell_clear_def valid_destroyable)
  then show ?thesis
    using valid_put [OF valid_default(1) valid_put [OF m(2) assms(1)], of q p] assms(1-3) m(3)
      val_put [of q "put_at p ?n root" default_cell] val_put [of p root ?n] valid_put [OF m(2) assms(1)]
    by (simp add: yields_def at_put_parallel [OF assms(4)] del: val_of.simps)
qed

text \<open>Between a variable and a part of itself: the source is gone, or changed, before it is read.\<close>

lemma child_default [simp]: "child x (Num z) = None" "child x (Obj []) = None" "child x (Arr []) = None"
  by (cases x; simp add: child_def)+

lemma at_default [simp]: "cell_at (x # s) default_cell = None"
  by (simp add: default_cell_def)

lemma tag_of_put: "tag_of (put_at (x # s) b c) = tag_of c"
  by (cases c) (simp split: option.split)

lemma assign_from_part:
  assumes "valid root" "cell_at p root = Some c"
  shows "assign_at p (p @ x # s) root = None" "assign_move_at p (p @ x # s) root = None"
proof -
  have "cell_at (p @ x # s) (put_at p default_cell root) = None" using at_put_below [of p root "x # s"] assms(2) by simp
  then show "assign_at p (p @ x # s) root = None" "assign_move_at p (p @ x # s) root = None"
    by (simp_all add: assign_at_def assign_move_at_def change_root [OF assms(2)] valid_at [OF assms(2,1)])
qed

lemma assign_to_part:
  assumes "valid root" "cell_at q root = Some v" "cell_at (q @ x # s) root = Some c"
  shows "assign_at (q @ x # s) q root = None" "assign_move_at (q @ x # s) q root = None"
proof -
  have v: "valid v" "cell_at (x # s) v = Some c"
    using valid_at [OF assms(2,1)] assms(2,3) by (simp_all add: at_append)
  let ?p = "q @ x # s" and ?b = "Cell (tag_of v) (Num (double_of_int 0))"
  have tg: "tag_of v = TOBJECT \<or> tag_of v = TARRAY"
    using v by (cases v) (auto elim!: child_cases simp del: valid.simps split: option.splits)
  then have b: "copy_cell ?b = None" by auto
  have 2: "cell_at q (put_at ?p a root) = Some (put_at (x # s) a v)" for a
    using at_put_above [OF assms(2)] .
  show "assign_at ?p q root = None"
    using copy_spoiled [OF b, of "x # s" v] v
    by (simp add: assign_at_def change_root [OF assms(3)] valid_at [OF assms(3,1)] 2 tag_of_put change_put assms(3)
        default_cell_def del: copy_cell.simps)
  show "assign_move_at ?p q root = None"
  proof (cases "move_slot (tag_of v) (data_of (put_at (x # s) ?b v))")
    case None
    then show ?thesis
      by (simp add: assign_move_at_def change_root [OF assms(3)] valid_at [OF assms(3,1)] 2 tag_of_put change_put assms(3)
        default_cell_def)
  next
    case (Some nl)
    obtain new left where nl: "nl = (new, left)" by force
    have l: "left = Obj [] \<or> left = Arr []" using Some nl tg by (auto simp: move_slot_def)
    have "cell_at ?p (put_at q (Cell t left) (put_at ?p ?b root)) = None" for t
      using at_put_below [of q "put_at ?p ?b root" "x # s" "Cell t left"] l 2 by auto
    then show ?thesis using Some nl
      by (simp add: assign_move_at_def change_root [OF assms(3)] valid_at [OF assms(3,1)] 2 tag_of_put change_put assms(3)
        default_cell_def change_root [OF 2] change_gone)
  qed
qed

lemma assign_string_cases:
  assumes "valid root" "cell_at p root = Some c" "cell_at q root = Some (Cell TSTRING d)"
  shows "if prefix p q then assign_string_at p q root = None
    else yields (assign_string_at p q root) (dv_put_at p (val_of (Cell TSTRING d)) (val_of root))"
proof -
  have "valid (Cell TSTRING d)" by (rule valid_at [OF assms(3,1)])
  then obtain s where d: "d = Str s" by (cases d) simp_all
  note c = valid_at [OF assms(2,1)]
  consider (below) r where "q = p @ r" | (above) x r where "p = q @ x # r" "\<not> prefix p q" | (apart) "parallel p q"
    by (metis parallelI prefixE append_Nil2 neq_Nil_conv)
  then show ?thesis
  proof cases
    case below
    have "cell_at q (put_at p default_cell root) = cell_at r default_cell"
      using at_put_below [of p root r] assms(2) below by simp
    then have "change p cell_clear root \<bind> (\<lambda>root1. cell_at q root1 \<bind> (\<lambda>v. read_s (data_of v))) = None"
      by (cases r) (simp_all add: change_root [OF assms(2)] c default_cell_def read_s_def)
    then show ?thesis using below
      by (auto simp: assign_string_at_def change_root [OF assms(2)] c split: bind_splits)
  next
    case above
    then have "cell_at (x # r) (Cell TSTRING (Str s)) = Some c" using assms(2,3) by (simp add: at_append d)
    then show ?thesis by (cases x) (simp_all add: child_def)
  next
    case apart
    let ?n = "Cell TSTRING (Str s)"
    have "assign_string_at p q root = Some (put_at p ?n root)"
      by (simp add: assign_string_at_def change_root [OF assms(2)] change_put assms(2,3) at_put_parallel [OF apart] c d
        place_def default_cell_def owns_def read_s_def)
    then show ?thesis using valid_put [of ?n, OF _ assms(1)] val_put [of p root ?n] assms(1,2) parallelD1 [OF apart]
      by (simp add: yields_def d)
  qed
qed

section \<open>The operations do what DynVar says\<close>

text \<open>C28: constructing, clearing, copying, moving, assigning, indexing, finding, pushing and reading are
  defined for all well-formed variables: the tag always selects the member that is alive, no member is
  built over one that holds memory, and the result is well-formed with the value that the operation on
  values gives.\<close>

theorem operations_refine:
  assumes "valid c" "valid x" "\<forall>v\<in>set vs. valid v"
  shows "yields (cell_clear c) (dv_clear (val_of c)) \<and> yields (copy_cell c) (dv_copy (val_of c)) \<and>
    (\<exists>n l. move_cell c = Some (n, l) \<and> valid n \<and> valid l \<and> dv_move (val_of c) = (val_of n, val_of l)) \<and>
    yields (assign_member TSTRING (Str str) c) (dv_assign_string (val_of c) str) \<and>
    yields (assign_member TNUMBER (Num z) c) (dv_assign_double (val_of c) z) \<and>
    yields (assign_member TBOOL (Bool b) c) (dv_assign_bool (val_of c) b) \<and>
    yields (cell_assign_list vs c) (dv_of_list (map val_of vs)) \<and>
    yields (cell_subscript key c) (dv_subscript key (val_of c)) \<and>
    (\<exists>r. cell_find key c = Some r \<and> map_option val_of r = dv_find key (val_of c)) \<and>
    yields (cell_push x c) (dv_push (val_of x) (val_of c)) \<and>
    cell_to_string c = Some (dv_to_string (val_of c)) \<and>
    cell_to_number z c = Some (dv_to_number z (val_of c)) \<and> cell_to_bool b c = Some (dv_to_bool b (val_of c))"
proof (intro conjI)
  show "\<exists>n l. move_cell c = Some (n, l) \<and> valid n \<and> valid l \<and> dv_move (val_of c) = (val_of n, val_of l)"
    by (rule move_valid [OF assms(1)]) (simp add: dv_move_def)
  show "yields (cell_assign_list vs c) (dv_of_list (map val_of vs))"
    by (rule copies_valid [OF assms(3)])
      (use assms(1) in \<open>simp add: cell_assign_list_def yields_def dv_of_list_def default_cell_def place_def owns_def\<close>)
  show "\<exists>r. cell_find key c = Some r \<and> map_option val_of r = dv_find key (val_of c)"
    using assms(1) by (auto elim!: valid_cases simp: cell_find_def read_o_def dv_find_def map_of_val)
  show "cell_to_string c = Some (dv_to_string (val_of c))"
    using assms(1) by (auto elim!: valid_cases simp: cell_to_string_def read_defs dv_to_string_def)
  show "cell_to_number z c = Some (dv_to_number z (val_of c))"
    using assms(1) by (auto elim!: valid_cases simp: cell_to_number_def read_defs dv_to_number_def)
  show "cell_to_bool b c = Some (dv_to_bool b (val_of c))"
    using assms(1) by (auto elim!: valid_cases simp: cell_to_bool_def read_defs dv_to_bool_def)
qed (use assms operation_yields assign_member_valid [OF assms(1), of TSTRING "Str str"]
      assign_member_valid [OF assms(1), of TNUMBER "Num z"] assign_member_valid [OF assms(1), of TBOOL "Bool b"] in
    \<open>simp_all add: dv_copy_def dv_assign_string_def dv_assign_double_def dv_assign_bool_def
       dv_clear_def yields_def [of "Some default_cell"]\<close>)

definition demo_cell :: cell where
  "demo_cell = Cell TARRAY (Arr [Cell TSTRING (Str ''a''), Cell TOBJECT (Obj [(''x'', Cell TSTRING (Str ''b''))])])"

theorem operations_refine_witness:
  "valid demo_cell \<and> yields (copy_cell demo_cell) (ARRAY [STRING ''a'', OBJECT [(''x'', STRING ''b'')]]) \<and>
   yields (cell_push demo_cell demo_cell)
     (ARRAY [STRING ''a'', OBJECT [(''x'', STRING ''b'')], ARRAY [STRING ''a'', OBJECT [(''x'', STRING ''b'')]]])"
  using operations_refine [of demo_cell demo_cell "[]"]
  by (simp add: demo_cell_def umap_ok_def dv_copy_def dv_push_def)

text \<open>C29: assigning one variable to another, by copy or by move, works unless one is a part of the other
  (\<open>v = v["x"]\<close>, \<open>v["x"] = v\<close>): then \<open>operator=\<close> clears, or half builds, what it is about to read. The
  assignment of a string by reference has no test for itself, so it also fails with the variable's own
  string (\<open>v = v.data.s\<close>).\<close>

theorem assignments_between_variables:
  assumes "valid root" "cell_at p root = Some c" "cell_at q root = Some v"
  shows "(if strict_prefix p q \<or> strict_prefix q p
     then assign_at p q root = None \<and> assign_move_at p q root = None
     else yields (assign_at p q root) (dv_put_at p (dv_assign (val_of c) (val_of v)) (val_of root)) \<and>
       yields (assign_move_at p q root)
         (if p = q then val_of root
          else case dv_assign_move (val_of c) (val_of v) of (new, left) \<Rightarrow> dv_put_at q left (dv_put_at p new (val_of root)))) \<and>
    (tag_of v = TSTRING \<longrightarrow>
      (if prefix p q then assign_string_at p q root = None
       else yields (assign_string_at p q root) (dv_put_at p (dv_assign (val_of c) (val_of v)) (val_of root))))"
proof (intro conjI impI)
  consider (same) "p = q" | (below) x s where "q = p @ x # s" | (above) x s where "p = q @ x # s" | (apart) "parallel p q"
    by (metis parallelI prefixE append_Nil2 neq_Nil_conv)
  then show "if strict_prefix p q \<or> strict_prefix q p
     then assign_at p q root = None \<and> assign_move_at p q root = None
     else yields (assign_at p q root) (dv_put_at p (dv_assign (val_of c) (val_of v)) (val_of root)) \<and>
       yields (assign_move_at p q root)
         (if p = q then val_of root
          else case dv_assign_move (val_of c) (val_of v) of (new, left) \<Rightarrow> dv_put_at q left (dv_put_at p new (val_of root)))"
  proof cases
    case same
    then show ?thesis using assms val_put [of p root v] put_id [OF assms(3)]
      by (simp add: assign_at_def assign_move_at_def yields_def dv_assign_def)
  next
    case below
    then have "strict_prefix p q" by (rule strict_prefixI')
    then show ?thesis using assign_from_part [OF assms(1,2)] by (simp add: below)
  next
    case above
    then have "strict_prefix q p" by (rule strict_prefixI')
    then show ?thesis using assign_to_part [OF assms(1,3)] assms(2) by (simp add: above)
  next
    case apart
    then show ?thesis using assign_apart [OF assms apart] move_apart [OF assms apart]
      by (auto simp: dv_assign_def dv_assign_move_def strict_prefix_def)
  qed
next
  assume "tag_of v = TSTRING"
  then obtain d where v: "v = Cell TSTRING d" by (cases v) simp
  show "if prefix p q then assign_string_at p q root = None
    else yields (assign_string_at p q root) (dv_put_at p (dv_assign (val_of c) (val_of v)) (val_of root))"
    using assign_string_cases [OF assms(1,2) assms(3) [unfolded v]] by (simp add: v dv_assign_def del: val_of.simps)
qed

theorem assignments_between_variables_witness:
  "valid demo_cell \<and> assign_at [Index 1] [Index 1, Key ''x''] demo_cell = None \<and>
   yields (assign_at [Index 0] [Index 1] demo_cell)
     (ARRAY [OBJECT [(''x'', STRING ''b'')], OBJECT [(''x'', STRING ''b'')]])"
  using assignments_between_variables [of demo_cell "[Index 1]" "Cell TOBJECT (Obj [(''x'', Cell TSTRING (Str ''b''))])"
      "[Index 1, Key ''x'']" "Cell TSTRING (Str ''b'')"]
    assignments_between_variables [of demo_cell "[Index 0]" "Cell TSTRING (Str ''a'')"
      "[Index 1]" "Cell TOBJECT (Obj [(''x'', Cell TSTRING (Str ''b''))])"]
  by (simp add: demo_cell_def umap_ok_def child_def dv_assign_def dv_child_def strict_prefix_def)

end
