(* ===== verification/Program.thy ===== *)
theory Program
  imports System Listening Logger
begin

text \<open>
  \<open>main\<close> in wasapi-server.cpp from its first line to its end: the arguments, the two signals, the arenas and
  workers, the two threads with what they open before their loops and close after them, and the exit
  code. The loops and the tasks of the workers are the steps of theory System. What happens after
  \<open>main\<close> has returned (the destructors of global objects) is left out.
\<close>

section \<open>The process\<close>

datatype signal = SIGINT | SIGTERM

datatype 'fds server_thread = Starting | Looping 'fds | Ended int

text \<open>How a process ends: with an exit code, or by \<open>std::terminate\<close> when an exception is not caught.\<close>

datatype main_end = Exited int | Terminated

record process =
  p_config :: global_config
  p_handlers :: "signal list"
  p_log :: logger
  p_net :: net
  p_system :: system
  fcgi_thread :: "(int \<times> int \<times> int option \<times> int option) server_thread"
  ws_thread :: "(int \<times> int \<times> int option) server_thread"
  p_end :: "main_end option"


definition handle_signal :: "process \<Rightarrow> process" where
  "handle_signal P = P\<lparr>p_end := Some (Exited 0)\<rparr>"


text \<open>The two calls of \<open>join\<close> and \<open>return 0\<close>: what \<open>serve\<close> returned is not looked at.\<close>

definition join_threads :: "process \<Rightarrow> process" where
  "join_threads P =
     (case (fcgi_thread P, ws_thread P) of
        (Ended a, Ended b) \<Rightarrow> P\<lparr>p_end := Some (Exited 0)\<rparr>
      | _ \<Rightarrow> P)"

text \<open>
  The body of each thread: the name, then \<open>serve\<close> up to its loop. The listening socket of the FastCGI
  server is the \<open>listen_fd\<close> of its environment.
\<close>

definition fcgi_thread_start :: "server_env \<Rightarrow> kernel \<Rightarrow> process \<Rightarrow> process option" where
  "fcgi_thread_start se k P =
     (let g = p_config P; P1 = P\<lparr>p_log := register_thread_name 1 ''fcgi'' (p_log P)\<rparr>
      in if k_socket k \<noteq> None \<and> k_socket k \<noteq> Some (listen_fd se) then None
         else
           (case fcgi_serve_start g (uint (fcgi_port g)) (fcgi_socket_path g) k (p_net P) of
              (None, n) \<Rightarrow> Some (join_threads (P1\<lparr>p_net := n, fcgi_thread := Ended 1\<rparr>))
            | (Some fds, n) \<Rightarrow> Some (P1\<lparr>p_net := n, fcgi_thread := Looping fds\<rparr>)))"

definition ws_thread_start :: "kernel \<Rightarrow> process \<Rightarrow> process option" where
  "ws_thread_start k P =
     (let g = p_config P; P1 = P\<lparr>p_log := register_thread_name 2 ''ws'' (p_log P)\<rparr>
      in case ws_serve_start (uint (ws_port g)) (ws_socket_path g) k (p_net P) of
           (None, n) \<Rightarrow> Some (join_threads (P1\<lparr>p_net := n, ws_thread := Ended 1\<rparr>))
         | (Some fds, n) \<Rightarrow> Some (P1\<lparr>p_net := n, ws_thread := Looping fds\<rparr>))"

text \<open>\<open>epoll_wait\<close> fails: the loop is left, \<open>serve\<close> cleans up and returns 0.\<close>

definition fcgi_thread_end :: "server_env \<Rightarrow> nat \<Rightarrow> (int \<times> int \<times> int option \<times> int option) \<Rightarrow> process \<Rightarrow> process option" where
  "fcgi_thread_end se now fds P =
     (case serve_cleanup se now (fcgi (p_system P)) of
        None \<Rightarrow> None
      | Some s \<Rightarrow>
          (let n = fcgi_serve_end (fcgi_socket_path (p_config P)) (map fst (conns (fcgi (p_system P)))) fds (p_net P)
           in Some (join_threads (P\<lparr>p_net := n, p_system := (p_system P)\<lparr>fcgi := s\<rparr>, fcgi_thread := Ended 0\<rparr>))))"

definition ws_thread_end :: "int \<times> int \<times> int option \<Rightarrow> process \<Rightarrow> process option" where
  "ws_thread_end fds P =
     Some (join_threads (P\<lparr>p_net := ws_serve_end fds (p_net P), p_system := (p_system P)\<lparr>ws_clients := []\<rparr>,
       ws_thread := Ended 0\<rparr>))"

datatype process_event =
    Signalled signal
  | Fcgi_starts kernel
  | Ws_starts kernel
  | Turn system_event
  | Fcgi_wait_fails nat
  | Ws_wait_fails

text \<open>
  A turn of a loop needs its thread to be in the loop; the workers run on in any case. A step of the
  WebSocket server without a result has thrown an exception, which ends the process; a step of the
  FastCGI server without one has no defined behaviour, and neither has the run.
\<close>

definition may_turn :: "process \<Rightarrow> system_event \<Rightarrow> bool" where
  "may_turn P ev \<longleftrightarrow>
     (case ev of
        Fcgi (Worker k ti, rs) \<Rightarrow> True
      | Fcgi _ \<Rightarrow> (\<exists>fds. fcgi_thread P = Looping fds)
      | Ws (Ws_worker k) \<Rightarrow> True
      | Ws _ \<Rightarrow> (\<exists>fds. ws_thread P = Looping fds))"

definition process_step :: "server_env \<Rightarrow> files_world ws_env \<Rightarrow> process_event \<Rightarrow> process \<Rightarrow> process option" where
  "process_step se we ev P =
     (if p_end P \<noteq> None then None
      else
        (case ev of
           Signalled sg \<Rightarrow> if sg \<in> set (p_handlers P) then Some (handle_signal P) else None
         | Fcgi_starts k \<Rightarrow> if fcgi_thread P = Starting then fcgi_thread_start se k P else None
         | Ws_starts k \<Rightarrow> if ws_thread P = Starting then ws_thread_start k P else None
         | Turn e \<Rightarrow>
             if may_turn P e \<and> reported se e (p_system P) then
               (case system_step se we e (p_system P) of
                  Some y \<Rightarrow> Some (P\<lparr>p_system := y\<rparr>)
                | None \<Rightarrow> (case e of Ws i \<Rightarrow> Some (P\<lparr>p_end := Some Terminated\<rparr>) | Fcgi x \<Rightarrow> None))
             else None
         | Fcgi_wait_fails now \<Rightarrow>
             (case fcgi_thread P of Looping fds \<Rightarrow> fcgi_thread_end se now fds P | _ \<Rightarrow> None)
         | Ws_wait_fails \<Rightarrow> (case ws_thread P of Looping fds \<Rightarrow> ws_thread_end fds P | _ \<Rightarrow> None)))"

fun process_run :: "server_env \<Rightarrow> files_world ws_env \<Rightarrow> process_event list \<Rightarrow> process \<Rightarrow> process option" where
  "process_run se we [] P = Some P"
| "process_run se we (ev # evs) P =
     (case process_step se we ev P of None \<Rightarrow> None | Some P' \<Rightarrow> process_run se we evs P')"



section \<open>How it ends\<close>










lemma join_keeps [simp]: "p_system (join_threads P) = p_system P"
  by (cases "fcgi_thread P"; cases "ws_thread P") (simp_all add: join_threads_def)

text \<open>Until the FastCGI loop fails, the arenas are accounted for as in theory System.\<close>

lemma process_step_arenas:
  assumes "process_step se we ev P = Some P'" "\<forall>now. ev \<noteq> Fcgi_wait_fails now" "keeps_place (user_request_ready se)"
    and "system_ok A (p_system P)"
  shows "system_ok A (p_system P')"
  using assms system_step_ok [OF assms(3)]
  by (cases ev)
    (auto simp: process_step_def handle_signal_def fcgi_thread_start_def ws_thread_start_def ws_thread_end_def Let_def
      system_ok_def split: if_splits option.splits prod.splits server_thread.splits system_event.splits)

lemma process_run_arenas:
  "process_run se we evs P = Some P' \<Longrightarrow> \<forall>now. Fcgi_wait_fails now \<notin> set evs \<Longrightarrow>
     keeps_place (user_request_ready se) \<Longrightarrow> system_ok A (p_system P) \<Longrightarrow> system_ok A (p_system P')"
proof (induction evs arbitrary: P)
  case (Cons ev evs)
  then show ?case
    by (auto split: option.splits intro: process_step_arenas) (metis process_step_arenas)
qed simp

section \<open>Properties\<close>





end
